(* ===== verification/Prelude.thy ===== *)
theory Prelude
  imports Main "HOL-Library.Word" "HOL-Library.Monad_Syntax"
begin

text \<open>
  Shared vocabulary of the development: names for the machine types of the C++ sources, the
  model of \<^verbatim>\<open>std::array\<close> and \<^verbatim>\<open>memmove\<close>, and generic lemmas on lists, options and words that
  several components use.

  Conventions.  A fixed-capacity \<^verbatim>\<open>std::array<T, N>\<close> is a function \<open>nat \<Rightarrow> 'a\<close>: reading and
  writing are application and function update, the content before the first write is whatever
  the function says, and that every index used stays below the capacity is a theorem of each
  component rather than a property of the type.  Indices (\<^verbatim>\<open>uint32_t\<close> slots, levels, table
  positions) are \<open>nat\<close>s holding the unsigned value; quantities, identifiers and counters on
  which the code does arithmetic are \<open>32 word\<close> or \<open>64 word\<close>, so that they wrap as in C++.
  Partial operations return \<open>option\<close>: \<open>None\<close> is a loop that does not end.
\<close>

type_synonym u8 = "8 word"
type_synonym u16 = "16 word"
type_synonym u32 = "32 word"
type_synonym u64 = "64 word"
type_synonym 'a arr = "nat \<Rightarrow> 'a"

named_theorems engine_simps
  \<open>rewrite rules that evaluate the model's operations on a state\<close>
named_theorems engine_defs
  \<open>definitions to unfold when evaluating a closed instance\<close>

subsection \<open>Arrays\<close>

text \<open>\<open>memmove a dst src n\<close>: the \<open>n\<close> cells from \<open>src\<close> are copied to \<open>dst\<close>, as if through a
  temporary buffer (\<^verbatim>\<open>std::memmove(&a[dst], &a[src], n * sizeof(T))\<close>).\<close>

definition memmove :: "'a arr \<Rightarrow> nat \<Rightarrow> nat \<Rightarrow> nat \<Rightarrow> 'a arr" where
  "memmove a dst src n = (\<lambda>i. if dst \<le> i \<and> i < dst + n then a (i - dst + src) else a i)"

lemma memmove_inside: "i < n \<Longrightarrow> memmove a dst src n (dst + i) = a (src + i)"
  by (simp add: memmove_def add.commute)

lemma memmove_below: "i < dst \<Longrightarrow> memmove a dst src n i = a i"
  by (simp add: memmove_def)

subsection \<open>Lists\<close>

lemma map_upt_split:
  "i < n \<Longrightarrow> map f [0..<n] = map f [0..<i] @ f i # map f [Suc i..<n]"
proof -
  assume "i < n"
  then have "[0..<n] = [0..<i] @ i # [Suc i..<n]"
    by (metis upt_add_eq_append upt_conv_Cons le_add_diff_inverse less_imp_le_nat zero_le add_0)
  then show ?thesis by simp
qed

lemma list_all2_splitE:
  assumes "list_all2 P xs ys" and "i < length xs"
  obtains xs1 x xs2 ys1 y ys2 where
    "xs = xs1 @ x # xs2" "ys = ys1 @ y # ys2" "length xs1 = i" "length ys1 = i"
    "list_all2 P xs1 ys1" "P x y" "list_all2 P xs2 ys2"
proof -
  from assms have i: "i < length ys" by (simp add: list_all2_lengthD)
  have "xs = take i xs @ xs ! i # drop (Suc i) xs" using assms(2) by (rule id_take_nth_drop)
  moreover have "ys = take i ys @ ys ! i # drop (Suc i) ys" using i by (rule id_take_nth_drop)
  moreover have "list_all2 P (take i xs) (take i ys)" "list_all2 P (drop (Suc i) xs) (drop (Suc i) ys)"
    using assms(1) by (auto simp: list_all2_takeI list_all2_dropI)
  moreover have "P (xs ! i) (ys ! i)" using assms by (simp add: list_all2_nthD)
  ultimately show thesis using that assms(2) i by (metis length_take min.absorb4)
qed

lemma list_all2_mono_set:
  assumes "list_all2 P xs ys" and "\<And>x y. y \<in> set ys \<Longrightarrow> P x y \<Longrightarrow> Q x y"
  shows "list_all2 Q xs ys"
  using assms by (auto simp: list_all2_conv_all_nth)

lemma sum_list_word_map_upd:
  fixes f :: "'a \<Rightarrow> 'b::len word"
  assumes "distinct xs" "x \<in> set xs"
  shows "sum_list (map (f(x := v)) xs) = sum_list (map f xs) - f x + v"
  using assms
proof (induction xs)
  case (Cons y ys)
  show ?case
  proof (cases "x = y")
    case True
    with Cons.prems have "map (f(x := v)) ys = map f ys" by auto
    with True show ?thesis by (simp del: map_eq_conv fun_upd_apply add: fun_upd_same)
  next
    case False
    with Cons show ?thesis by (simp add: algebra_simps)
  qed
qed simp

lemma map_fun_upd_notin [simp]: "x \<notin> set xs \<Longrightarrow> map (f(x := v)) xs = map f xs"
  by auto

lemma distinct_subset_length:
  "distinct xs \<Longrightarrow> set xs \<subseteq> {..<n} \<Longrightarrow> length xs \<le> n"
  by (metis card_lessThan card_mono distinct_card finite_lessThan)

lemma distinct_exchange:
  assumes "distinct (as @ xs @ bs @ fs)" "distinct (xs' @ fs')" "set (xs' @ fs') = set (xs @ fs)"
  shows "distinct (as @ xs' @ bs @ fs')"
proof -
  have "set xs' \<union> set fs' = set xs \<union> set fs" using assms(3) by simp
  then have "set as \<inter> (set xs' \<union> set fs') = {}" "set bs \<inter> (set xs' \<union> set fs') = {}"
    using assms(1) by auto
  then show ?thesis using assms(1,2) by auto
qed

lemma image_diff_singleton: "inj_on f A \<Longrightarrow> q \<in> A \<Longrightarrow> f ` (A - {q}) = f ` A - {f q}"
  by (auto simp: inj_on_def)

subsection \<open>Words\<close>

lemma unat_of_nat_small:
  "n < 2 ^ LENGTH('a) \<Longrightarrow> unat (of_nat n :: 'a::len word) = n"
  by (simp add: unat_of_nat)

lemma of_nat_eq_0_small:
  "n < 2 ^ LENGTH('a) \<Longrightarrow> (of_nat n = (0 :: 'a::len word)) = (n = 0)"
  by (auto simp: word_of_nat_eq_0_iff dest: nat_dvd_not_less)

lemma unat_sub_min: "unat (x - min x y) = unat x - unat (min x y)"
  by (simp add: unat_sub)

lemma unat_sub_less: "n < r \<Longrightarrow> unat (r - n) = unat r - unat n"
  by (simp add: unat_sub)

lemma word_sub_pos: "n < r \<Longrightarrow> 0 < r - (n :: 'a::len word)"
  by (simp add: word_less_nat_alt unat_sub_less)

lemma unat_u32_less: "unat (q :: u32) < 2 ^ 32"
  using unsigned_less [of q, where 'a = nat] by simp

lemma unat_ucast_eq_mod: "unat (ucast (w :: 'a::len word) :: 'b::len word) = unat w mod 2 ^ LENGTH('b)"
  by (simp add: unsigned_ucast_eq take_bit_eq_mod)

lemma unat_ucast_u64 [simp]: "unat (ucast (q :: u32) :: u64) = unat q"
  using unat_u32_less [of q] by (simp add: unat_ucast_eq_mod)

end
