(* ===== verification/Engine_Types.thy ===== *)
theory Engine_Types
  imports Prelude
begin

text \<open>
  The data model of \<^verbatim>\<open>include/core/types.hpp\<close>: enumerations as datatypes and message structs as
  records.  Padding members carry no information and are left out.  A price is an \<^verbatim>\<open>int64_t\<close> in
  fixed point; the book only compares prices, so the model keeps the signed value as an \<open>int\<close>.
  An \<^verbatim>\<open>enum class : uint8_t\<close> that the decoder fills by \<^verbatim>\<open>static_cast\<close> from an unchecked byte can
  hold values without an enumerator; \<open>UnknownOrderType\<close> and \<open>UnknownMsgType\<close> are those values.
\<close>

type_synonym Price = int
type_synonym Qty = u32
type_synonym OrderId = u64
type_synonym SymbolId = u16
type_synonym SeqNum = u64

definition PRICE_INVALID :: Price where
  "PRICE_INVALID = - (2 ^ 63)"

definition ORDER_ID_INVALID :: OrderId where
  "ORDER_ID_INVALID = 0"

datatype Side = Buy | Sell

datatype OrderType = Limit | Market | IOC | FOK | UnknownOrderType u8

datatype OrderStatus =
  StatusNew | StatusPartiallyFilled | StatusFilled | StatusCancelled | StatusRejected

datatype ExecType = ExecNew | ExecFill | ExecPartialFill | ExecCancelled | ExecRejected

record Order =
  o_id :: OrderId
  o_price :: Price
  o_qty :: Qty
  o_qty_remaining :: Qty
  o_symbol :: SymbolId
  o_side :: Side
  o_type :: OrderType
  o_status :: OrderStatus
  o_account_id :: u32

definition is_buy :: "Order \<Rightarrow> bool" where
  "is_buy o' = (o_side o' = Buy)"

definition is_sell :: "Order \<Rightarrow> bool" where
  "is_sell o' = (o_side o' = Sell)"

definition is_filled :: "Order \<Rightarrow> bool" where
  "is_filled o' = (o_qty_remaining o' = 0)"

record ExecutionReport =
  r_order_id :: OrderId
  r_contra_order_id :: OrderId
  r_exec_price :: Price
  r_exec_qty :: Qty
  r_leaves_qty :: Qty
  r_symbol :: SymbolId
  r_side :: Side
  r_exec_type :: ExecType

datatype MsgType = NewOrder | CancelOrder | ModifyOrder | Heartbeat | UnknownMsgType u8

record MarketDataMsg =
  m_seq :: SeqNum
  m_order_id :: OrderId
  m_price :: Price
  m_qty :: Qty
  m_symbol :: SymbolId
  m_side :: Side
  m_msg_type :: MsgType
  m_order_type :: OrderType

record BestQuote =
  q_bid_price :: Price
  q_ask_price :: Price
  q_bid_qty :: Qty
  q_ask_qty :: Qty
  q_symbol :: SymbolId

text \<open>\<^verbatim>\<open>static_cast\<close> between an enumeration and its underlying byte.\<close>

definition order_type_of_byte :: "u8 \<Rightarrow> OrderType" where
  "order_type_of_byte b = (if b = 0 then Limit else if b = 1 then Market else if b = 2 then IOC
     else if b = 3 then FOK else UnknownOrderType b)"

primrec order_type_byte :: "OrderType \<Rightarrow> u8" where
  "order_type_byte Limit = 0"
| "order_type_byte Market = 1"
| "order_type_byte IOC = 2"
| "order_type_byte FOK = 3"
| "order_type_byte (UnknownOrderType b) = b"

primrec side_byte :: "Side \<Rightarrow> u8" where
  "side_byte Buy = 0"
| "side_byte Sell = 1"

lemma order_type_byte_inverse [simp]: "order_type_byte (order_type_of_byte b) = b"
  by (simp add: order_type_of_byte_def)

text \<open>\<open>UnknownOrderType\<close> stands for the bytes without an enumerator only.\<close>

definition order_type_ok :: "OrderType \<Rightarrow> bool" where
  "order_type_ok t = (order_type_of_byte (order_type_byte t) = t)"

lemma order_type_ok_of_byte [simp]: "order_type_ok (order_type_of_byte b)"
  by (simp add: order_type_ok_def)

lemma order_type_ok_simps [simp]: "order_type_ok Limit" "order_type_ok Market" "order_type_ok IOC" "order_type_ok FOK"
  by (simp_all add: order_type_ok_def order_type_of_byte_def)

definition msg_type_of_byte :: "u8 \<Rightarrow> MsgType" where
  "msg_type_of_byte b = (if b = 0 then NewOrder else if b = 1 then CancelOrder else if b = 2 then ModifyOrder
     else if b = 3 then Heartbeat else UnknownMsgType b)"

primrec msg_type_byte :: "MsgType \<Rightarrow> u8" where
  "msg_type_byte NewOrder = 0"
| "msg_type_byte CancelOrder = 1"
| "msg_type_byte ModifyOrder = 2"
| "msg_type_byte Heartbeat = 3"
| "msg_type_byte (UnknownMsgType b) = b"

definition msg_type_ok :: "MsgType \<Rightarrow> bool" where
  "msg_type_ok t = (msg_type_of_byte (msg_type_byte t) = t)"

lemma msg_type_ok_simps [simp]:
  "msg_type_ok NewOrder" "msg_type_ok CancelOrder" "msg_type_ok ModifyOrder" "msg_type_ok Heartbeat"
  by (simp_all add: msg_type_ok_def msg_type_of_byte_def)

lemma is_sell_iff: "is_sell o' \<longleftrightarrow> \<not> is_buy o'"
  by (cases "o_side o'") (simp_all add: is_sell_def is_buy_def)

end
