(* ===== verification/Order_Index.thy ===== *)
theory Order_Index
  imports Engine_Types
begin

text \<open>
  \<^verbatim>\<open>OrderBook::OrderIndex\<close> (\<^verbatim>\<open>order_book.hpp\<close> 92-113, \<^verbatim>\<open>order_book.cpp\<close> 114-156): the open-addressed
  hash table from order id to (slot, side), with linear probing and deletion by re-inserting the
  rest of the cluster.  The probe and re-insertion loops are \<^theory_text>\<open>partial_function\<close>s: on a full
  table they would not end, and that they do end is proved under the table's invariant.
\<close>

subsection \<open>The table and its operations\<close>

definition kTableSize :: nat where
  "kTableSize = 131072"

definition kEmpty :: nat where
  "kEmpty = 4294967295"

record Entry =
  e_key :: OrderId
  e_slot :: nat
  e_side :: u8

type_synonym OrderIndex = "Entry arr"

definition index_init :: OrderIndex where
  "index_init = (\<lambda>_. \<lparr>e_key = 0, e_slot = kEmpty, e_side = 0xFF\<rparr>)"

text \<open>\<^verbatim>\<open>static_cast<uint32_t>(id * 2654435761ULL >> 32) % kTableSize\<close>\<close>

definition home :: "OrderId \<Rightarrow> nat" where
  "home oid = unat (ucast (drop_bit 32 (oid * 2654435761)) :: u32) mod kTableSize"

partial_function (option) probe_loop :: "OrderIndex \<Rightarrow> OrderId \<Rightarrow> nat \<Rightarrow> nat option" where
  "probe_loop t oid h =
     (if e_slot (t h) \<noteq> kEmpty \<and> e_key (t h) \<noteq> oid
      then probe_loop t oid ((h + 1) mod kTableSize)
      else Some h)"

definition probe :: "OrderIndex \<Rightarrow> OrderId \<Rightarrow> nat option" where
  "probe t oid = probe_loop t oid (home oid)"

definition index_insert :: "OrderIndex \<Rightarrow> OrderId \<Rightarrow> nat \<Rightarrow> u8 \<Rightarrow> (bool \<times> OrderIndex) option" where
  "index_insert t oid slot side = do {
     h \<leftarrow> probe t oid;
     if e_slot (t h) \<noteq> kEmpty \<and> e_key (t h) \<noteq> oid then Some (False, t)
     else Some (True, t(h := \<lparr>e_key = oid, e_slot = slot, e_side = side\<rparr>)) }"

definition index_lookup :: "OrderIndex \<Rightarrow> OrderId \<Rightarrow> (nat \<times> u8) option option" where
  "index_lookup t oid = do {
     h \<leftarrow> probe t oid;
     if e_slot (t h) = kEmpty then Some None
     else Some (Some (e_slot (t h), e_side (t h))) }"

partial_function (option) remove_loop :: "OrderIndex \<Rightarrow> nat \<Rightarrow> OrderIndex option" where
  "remove_loop t j =
     (if e_slot (t j) \<noteq> kEmpty
      then do {
        let entry = t j;
        let t1 = t(j := (t j)\<lparr>e_slot := kEmpty\<rparr>);
        k \<leftarrow> probe t1 (e_key entry);
        remove_loop (t1(k := entry)) ((j + 1) mod kTableSize) }
      else Some t)"

definition index_remove :: "OrderIndex \<Rightarrow> OrderId \<Rightarrow> (bool \<times> OrderIndex) option" where
  "index_remove t oid = do {
     h \<leftarrow> probe t oid;
     if e_slot (t h) = kEmpty then Some (False, t)
     else do {
       let t1 = t(h := (t h)\<lparr>e_slot := kEmpty, e_key := 0\<rparr>);
       t2 \<leftarrow> remove_loop t1 ((h + 1) mod kTableSize);
       Some (True, t2) } }"

declare probe_loop.simps [code] remove_loop.simps [code]

subsection \<open>Invariant\<close>

text \<open>A position is occupied when its slot is not the sentinel.  \<open>reach t a p\<close>: scanning from \<open>a\<close>
  meets only occupied positions before \<open>p\<close>.  The table is well formed when every entry can be
  reached from its home position and no key is stored twice.\<close>

definition occ :: "OrderIndex \<Rightarrow> nat \<Rightarrow> bool" where
  "occ t p = (e_slot (t p) \<noteq> kEmpty)"

definition reach :: "OrderIndex \<Rightarrow> nat \<Rightarrow> nat \<Rightarrow> bool" where
  "reach t a p = (\<exists>m. p = (a + m) mod kTableSize \<and> (\<forall>i<m. occ t ((a + i) mod kTableSize)))"

definition entry_at :: "OrderIndex \<Rightarrow> nat \<Rightarrow> OrderId \<Rightarrow> bool" where
  "entry_at t p oid = (p < kTableSize \<and> occ t p \<and> e_key (t p) = oid)"

definition keys_unique :: "OrderIndex \<Rightarrow> bool" where
  "keys_unique t = (\<forall>p q oid. entry_at t p oid \<longrightarrow> entry_at t q oid \<longrightarrow> p = q)"

definition has_room :: "OrderIndex \<Rightarrow> bool" where
  "has_room t = (\<exists>p<kTableSize. \<not> occ t p)"

definition index_inv :: "OrderIndex \<Rightarrow> bool" where
  "index_inv t = (keys_unique t \<and> has_room t \<and>
     (\<forall>p oid. entry_at t p oid \<longrightarrow> reach t (home oid) p))"

text \<open>The entries as a set, and the finite map a table stands for.\<close>

definition entries :: "OrderIndex \<Rightarrow> (OrderId \<times> nat \<times> u8) set" where
  "entries t = {(e_key (t p), e_slot (t p), e_side (t p)) | p. p < kTableSize \<and> occ t p}"

definition index_map :: "OrderIndex \<Rightarrow> OrderId \<rightharpoonup> nat \<times> u8" where
  "index_map t oid = (case index_lookup t oid of Some r \<Rightarrow> r | None \<Rightarrow> None)"

lemma kTableSize_pos [simp]: "0 < kTableSize"
  by (simp add: kTableSize_def)

lemma home_less [simp]: "home oid < kTableSize"
  by (simp add: home_def)

lemma has_room_init: "has_room index_init"
  by (auto simp: has_room_def occ_def index_init_def intro: exI [of _ 0])

lemma index_inv_init: "index_inv index_init"
  using has_room_init
  by (simp add: index_inv_def keys_unique_def entry_at_def occ_def index_init_def)

lemma entries_init [simp]: "entries index_init = {}"
  by (simp add: entries_def occ_def index_init_def)

subsection \<open>Probing\<close>

lemma probe_loop_stops:
  assumes "\<And>i. i < m \<Longrightarrow> occ t ((h + i) mod kTableSize) \<and> e_key (t ((h + i) mod kTableSize)) \<noteq> oid"
    and "\<not> occ t ((h + m) mod kTableSize) \<or> e_key (t ((h + m) mod kTableSize)) = oid"
    and "h < kTableSize"
  shows "probe_loop t oid h = Some ((h + m) mod kTableSize)"
  using assms
proof (induction m arbitrary: h)
  case 0
  then show ?case by (subst probe_loop.simps) (auto simp: occ_def)
next
  case (Suc m)
  let ?h = "(h + 1) mod kTableSize"
  have shift: "(?h + i) mod kTableSize = (h + Suc i) mod kTableSize" for i
    by (simp add: mod_simps)
  have "probe_loop t oid ?h = Some ((?h + m) mod kTableSize)"
  proof (rule Suc.IH)
    fix i assume "i < m"
    then show "occ t ((?h + i) mod kTableSize) \<and> e_key (t ((?h + i) mod kTableSize)) \<noteq> oid"
      unfolding shift using Suc.prems(1) [of "Suc i"] by simp
  qed (use Suc.prems(2) in \<open>unfold shift, simp_all\<close>)
  moreover from Suc.prems(1) [of 0] Suc.prems(3) have "e_slot (t h) \<noteq> kEmpty \<and> e_key (t h) \<noteq> oid"
    by (simp add: occ_def)
  ultimately show ?case
    by (subst probe_loop.simps) (simp only: shift if_True simp_thms)
qed

lemma probe_present:
  assumes inv: "keys_unique t" and at: "entry_at t p oid" and reach: "reach t (home oid) p"
  shows "probe t oid = Some p"
proof -
  define stop where
    "stop m \<longleftrightarrow> \<not> occ t ((home oid + m) mod kTableSize) \<or> e_key (t ((home oid + m) mod kTableSize)) = oid" for m
  from reach obtain n where n: "p = (home oid + n) mod kTableSize"
    and path: "\<forall>i<n. occ t ((home oid + i) mod kTableSize)" by (auto simp: reach_def)
  have "stop n" using at n by (simp add: stop_def entry_at_def)
  define m where "m = (LEAST m. stop m)"
  have "stop m" and le: "m \<le> n" using \<open>stop n\<close> unfolding m_def by (auto intro: LeastI Least_le)
  have below: "\<not> stop i" if "i < m" for i using that unfolding m_def by (rule not_less_Least)
  have "probe t oid = Some ((home oid + m) mod kTableSize)"
    unfolding probe_def using below \<open>stop m\<close> by (intro probe_loop_stops) (auto simp: stop_def)
  moreover have "(home oid + m) mod kTableSize = p"
  proof (cases "m = n")
    case False
    with le path have "occ t ((home oid + m) mod kTableSize)" by simp
    with \<open>stop m\<close> have "entry_at t ((home oid + m) mod kTableSize) oid"
      by (simp add: stop_def entry_at_def)
    with inv at show ?thesis by (auto simp: keys_unique_def)
  qed (use n in simp)
  ultimately show ?thesis by simp
qed

lemma probe_absent:
  assumes room: "has_room t" and absent: "\<And>p. \<not> entry_at t p oid"
  obtains q where "probe t oid = Some q" "q < kTableSize" "\<not> occ t q" "reach t (home oid) q"
proof -
  let ?pos = "\<lambda>m. (home oid + m) mod kTableSize"
  from room obtain e where e: "e < kTableSize" "\<not> occ t e" by (auto simp: has_room_def)
  have "home oid + (e + kTableSize - home oid) = e + kTableSize"
    using home_less [of oid] by linarith
  then have "?pos (e + kTableSize - home oid) = e" using e(1) by simp
  then have ex: "\<not> occ t (?pos (e + kTableSize - home oid))" using e(2) by simp
  define m where "m = (LEAST m. \<not> occ t (?pos m))"
  have stop: "\<not> occ t (?pos m)" unfolding m_def using ex by (rule LeastI)
  have below: "occ t (?pos i)" if "i < m" for i using that unfolding m_def by (auto dest: not_less_Least)
  have "probe t oid = Some (?pos m)"
    unfolding probe_def
    by (rule probe_loop_stops) (use below stop absent in \<open>auto simp: entry_at_def\<close>)
  moreover have "reach t (home oid) (?pos m)" using below by (auto simp: reach_def)
  ultimately show thesis using that stop by simp
qed

subsection \<open>Single-cell updates\<close>

abbreviation triple :: "Entry \<Rightarrow> OrderId \<times> nat \<times> u8" where
  "triple x \<equiv> (e_key x, e_slot x, e_side x)"

lemma occ_upd: "occ (t(q := x)) p = (if p = q then e_slot x \<noteq> kEmpty else occ t p)"
  by (simp add: occ_def)

lemma entry_at_upd:
  "entry_at (t(q := x)) p oid =
     (if p = q then q < kTableSize \<and> e_slot x \<noteq> kEmpty \<and> e_key x = oid else entry_at t p oid)"
  by (auto simp: entry_at_def occ_upd)

lemma finite_entries [simp]: "finite (entries t)"
proof -
  have "entries t \<subseteq> (\<lambda>p. triple (t p)) ` {..<kTableSize}" by (auto simp: entries_def)
  then show ?thesis by (rule finite_subset) simp
qed

lemma entries_iff:
  "(oid, s, d) \<in> entries t \<longleftrightarrow> (\<exists>p. entry_at t p oid \<and> e_slot (t p) = s \<and> e_side (t p) = d)"
  by (auto simp: entries_def entry_at_def)

lemma entries_slot: "(oid, s, d) \<in> entries t \<Longrightarrow> s \<noteq> kEmpty"
  by (auto simp: entries_def occ_def)

definition occs :: "OrderIndex \<Rightarrow> nat set" where
  "occs t = {p. p < kTableSize \<and> occ t p}"

lemma entries_image: "entries t = (\<lambda>p. triple (t p)) ` occs t"
  by (auto simp: entries_def occs_def)

lemma inj_on_occs: "keys_unique t \<Longrightarrow> inj_on (\<lambda>p. triple (t p)) (occs t)"
  by (auto simp: inj_on_def keys_unique_def entry_at_def occs_def)

lemma occs_upd:
  "q < kTableSize \<Longrightarrow>
     occs (t(q := x)) = (if e_slot x \<noteq> kEmpty then insert q (occs t - {q}) else occs t - {q})"
  by (auto simp: occs_def occ_upd split: if_splits)

lemma entries_upd:
  assumes "q < kTableSize"
  shows "entries (t(q := x)) =
     (if e_slot x \<noteq> kEmpty then {triple x} else {}) \<union> (\<lambda>p. triple (t p)) ` (occs t - {q})"
proof -
  have "(\<lambda>p. triple ((t(q := x)) p)) ` (occs t - {q}) = (\<lambda>p. triple (t p)) ` (occs t - {q})"
    by (intro image_cong) auto
  with assms show ?thesis
    by (simp only: entries_image occs_upd) (simp del: fun_upd_apply insert_Diff_single add: fun_upd_same)
qed

lemma entries_fill:
  assumes "\<not> occ t q" "q < kTableSize" "e_slot x \<noteq> kEmpty"
  shows "entries (t(q := x)) = insert (triple x) (entries t)"
proof -
  from assms(1) have "occs t - {q} = occs t" by (auto simp: occs_def)
  with assms show ?thesis by (simp add: entries_upd) (simp add: entries_image)
qed

lemma entries_diff_cell:
  assumes "keys_unique t" "q < kTableSize" "occ t q"
  shows "(\<lambda>p. triple (t p)) ` (occs t - {q}) = entries t - {triple (t q)}"
proof -
  have "q \<in> occs t" using assms by (simp add: occs_def)
  from image_diff_singleton [OF inj_on_occs [OF assms(1)] this] show ?thesis
    by (simp add: entries_image)
qed

lemma entries_clear:
  assumes "keys_unique t" "q < kTableSize" "occ t q" "e_slot x = kEmpty"
  shows "entries (t(q := x)) = entries t - {triple (t q)}"
  using assms by (simp add: entries_upd entries_diff_cell)

lemma entries_same_cell:
  assumes "keys_unique t" "entry_at t q oid" "s \<noteq> kEmpty"
  shows "entries (t(q := \<lparr>e_key = oid, e_slot = s, e_side = d\<rparr>)) =
     insert (oid, s, d) (entries t - {triple (t q)})"
  using assms by (simp add: entries_upd entries_diff_cell entry_at_def)

lemma keys_unique_fill:
  assumes "keys_unique t" "\<And>p. \<not> entry_at t p (e_key x)"
  shows "keys_unique (t(q := x))"
  using assms unfolding keys_unique_def entry_at_upd by (metis (no_types, lifting))

lemma keys_unique_clear:
  "keys_unique t \<Longrightarrow> e_slot x = kEmpty \<Longrightarrow> keys_unique (t(q := x))"
  unfolding keys_unique_def entry_at_upd by (metis (no_types, lifting))

lemma card_entries: "keys_unique t \<Longrightarrow> card (entries t) = card (occs t)"
  by (simp add: entries_image card_image inj_on_occs)

lemma has_room_card: "keys_unique t \<Longrightarrow> card (entries t) < kTableSize \<Longrightarrow> has_room t"
proof (rule ccontr)
  assume "keys_unique t" and lt: "card (entries t) < kTableSize" and "\<not> has_room t"
  then have "occs t = {..<kTableSize}" by (auto simp: has_room_def occs_def)
  with lt \<open>keys_unique t\<close> show False by (simp add: card_entries)
qed

subsection \<open>Scan order relative to an empty position\<close>

text \<open>Relative to an empty position \<open>e\<close>, the circular table is a straight line whose last cell is
  \<open>e\<close>: \<open>pos e n\<close> is the \<open>n\<close>-th cell after \<open>e\<close> and \<open>lin e\<close> is its inverse.  No probe path crosses
  \<open>e\<close>, so on that line reachability is an interval of occupied cells.\<close>

definition pos :: "nat \<Rightarrow> nat \<Rightarrow> nat" where
  "pos e n = (e + 1 + n) mod kTableSize"

definition lin :: "nat \<Rightarrow> nat \<Rightarrow> nat" where
  "lin e p = (p + kTableSize - (e + 1)) mod kTableSize"

lemma pos_less [simp]: "pos e n < kTableSize" and lin_less [simp]: "lin e p < kTableSize"
  by (simp_all add: pos_def lin_def)

lemma pos_lin [simp]:
  assumes "e < kTableSize" "p < kTableSize"
  shows "pos e (lin e p) = p"
proof -
  have "e + 1 + (p + kTableSize - (e + 1)) = p + kTableSize" using assms by simp
  then have "(e + 1 + (p + kTableSize - (e + 1)) mod kTableSize) mod kTableSize = p"
    using assms by (metis mod_add_right_eq mod_add_self2 mod_less)
  then show ?thesis by (simp add: pos_def lin_def)
qed

lemma lin_pos [simp]:
  assumes "e < kTableSize" "n < kTableSize"
  shows "lin e (pos e n) = n"
proof (cases "e + 1 + n < kTableSize")
  case False
  then have "pos e n = e + 1 + n - kTableSize" using assms by (simp add: pos_def le_mod_geq)
  with False assms show ?thesis by (simp add: lin_def)
qed (use assms in \<open>simp add: pos_def lin_def\<close>)

lemma pos_last: "e < kTableSize \<Longrightarrow> pos e (kTableSize - 1) = e"
  by (simp add: pos_def)

lemmas pos_last_Suc = pos_last [unfolded One_nat_def]

lemma pos_step: "(pos e n + i) mod kTableSize = pos e (n + i)"
  by (simp add: pos_def mod_simps add.assoc)

lemma pos_inj:
  "e < kTableSize \<Longrightarrow> m < kTableSize \<Longrightarrow> n < kTableSize \<Longrightarrow> pos e m = pos e n \<longleftrightarrow> m = n"
  by (metis lin_pos)

lemma lin_last: "e < kTableSize \<Longrightarrow> lin e e = kTableSize - 1"
  by (metis pos_last lin_pos diff_less kTableSize_pos zero_less_one)

lemma reach_line:
  assumes e: "e < kTableSize" "\<not> occ t e" and a: "a < kTableSize" and p: "p < kTableSize"
  shows "reach t a p \<longleftrightarrow> lin e a \<le> lin e p \<and> (\<forall>n. lin e a \<le> n \<longrightarrow> n < lin e p \<longrightarrow> occ t (pos e n))"
    (is "_ \<longleftrightarrow> ?line")
proof
  assume "reach t a p"
  then obtain m where m: "p = (a + m) mod kTableSize"
    and path: "\<forall>i<m. occ t ((a + i) mod kTableSize)" by (auto simp: reach_def)
  have apos: "(a + i) mod kTableSize = pos e (lin e a + i)" for i
    using pos_step [of e "lin e a" i] e(1) a by simp
  have "lin e a + m < kTableSize"
  proof (rule ccontr)
    assume "\<not> lin e a + m < kTableSize"
    moreover have "lin e a < kTableSize" by simp
    ultimately have "kTableSize - 1 - lin e a < m" "lin e a + (kTableSize - 1 - lin e a) = kTableSize - 1"
      by linarith+
    with path apos [of "kTableSize - 1 - lin e a"] e show False by (metis pos_last)
  qed
  then have "lin e p = lin e a + m" using m apos [of m] e by simp
  moreover have "occ t (pos e n)" if "lin e a \<le> n" "n < lin e a + m" for n
    using that path apos [of "n - lin e a"] by (metis le_add_diff_inverse nat_add_left_cancel_less)
  ultimately show ?line by simp
next
  assume line: ?line
  have apos: "(a + i) mod kTableSize = pos e (lin e a + i)" for i
    using pos_step [of e "lin e a" i] e(1) a by simp
  show "reach t a p" unfolding reach_def
  proof (intro exI conjI allI impI)
    show "p = (a + (lin e p - lin e a)) mod kTableSize"
      using line e p unfolding apos by simp
  next
    fix i assume "i < lin e p - lin e a"
    then show "occ t ((a + i) mod kTableSize)" unfolding apos using line by simp
  qed
qed

text \<open>\<open>settled e t n\<close>: the entry in the \<open>n\<close>-th cell, if any, is reachable from its home along the line.\<close>

definition settled :: "nat \<Rightarrow> OrderIndex \<Rightarrow> nat \<Rightarrow> bool" where
  "settled e t n = (occ t (pos e n) \<longrightarrow>
     (let a = lin e (home (e_key (t (pos e n)))) in
      a \<le> n \<and> (\<forall>i. a \<le> i \<longrightarrow> i < n \<longrightarrow> occ t (pos e i))))"

lemma reach_all_settled:
  assumes "e < kTableSize" "\<not> occ t e"
  shows "(\<forall>p oid. entry_at t p oid \<longrightarrow> reach t (home oid) p) \<longleftrightarrow> (\<forall>n<kTableSize. settled e t n)"
    (is "?A \<longleftrightarrow> ?B")
proof
  assume A: ?A
  show ?B
  proof (intro allI impI)
    fix n assume n: "n < kTableSize"
    have "reach t (home (e_key (t (pos e n)))) (pos e n)" if "occ t (pos e n)"
      using A that by (auto simp: entry_at_def)
    then show "settled e t n" using assms n by (auto simp: settled_def reach_line Let_def)
  qed
next
  assume B: ?B
  show ?A
  proof (intro allI impI)
    fix p oid assume at: "entry_at t p oid"
    then have p: "p < kTableSize" by (simp add: entry_at_def)
    have "settled e t (lin e p)" using B by simp
    with at p assms show "reach t (home oid) p"
      by (simp add: settled_def entry_at_def reach_line Let_def)
  qed
qed

subsection \<open>Deletion re-inserts the rest of the cluster\<close>

text \<open>One iteration moves the entry of cell \<open>jn\<close> to the first free cell on its own probe path, which
  is at or before \<open>jn\<close>.\<close>

lemma remove_loop_iteration:
  fixes t :: OrderIndex and e jn :: nat
  defines "j \<equiv> pos e jn"
  defines "t1 \<equiv> t(j := (t j)\<lparr>e_slot := kEmpty\<rparr>)"
  assumes e: "e < kTableSize" "\<not> occ t e" and jn: "jn < kTableSize - 1"
    and uniq: "keys_unique t" and occj: "occ t j" and home_le: "lin e (home (e_key (t j))) \<le> jn"
    and before: "\<And>n. n < jn \<Longrightarrow> settled e t n"
  obtains qn where "qn \<le> jn" "probe t1 (e_key (t j)) = Some (pos e qn)"
    "\<not> occ t1 (pos e qn)" "keys_unique (t1(pos e qn := t j))"
    "entries (t1(pos e qn := t j)) = entries t"
    "\<forall>n\<le>jn. settled e (t1(pos e qn := t j)) n"
proof -
  let ?k = "e_key (t j)" and ?a = "lin e (home (e_key (t j)))"
  have jK: "j < kTableSize" by (simp add: j_def)
  have jne: "j \<noteq> e" using occj e by auto
  have e1: "\<not> occ t1 e" using e jne by (simp add: t1_def occ_upd)
  have uniq1: "keys_unique t1" unfolding t1_def using uniq by (rule keys_unique_clear) simp
  have ent1: "entries t1 = entries t - {triple (t j)}"
    unfolding t1_def using uniq jK occj by (rule entries_clear) simp
  have absent: "\<not> entry_at t1 p ?k" for p
    using uniq occj jK unfolding t1_def entry_at_upd by (auto simp: keys_unique_def entry_at_def)
  have "has_room t1" using e(1) e1 by (auto simp: has_room_def)
  then obtain q where q: "probe t1 ?k = Some q" "q < kTableSize" "\<not> occ t1 q" "reach t1 (home ?k) q"
    using absent by (rule probe_absent)
  define qn where "qn = lin e q"
  have qpos: "q = pos e qn" using q(2) e(1) by (simp add: qn_def)
  have qnK: "qn < kTableSize" by (simp add: qn_def)
  have path: "?a \<le> qn" "\<And>n. ?a \<le> n \<Longrightarrow> n < qn \<Longrightarrow> occ t1 (pos e n)"
    using q(2,4) e(1) e1 by (auto simp: reach_line qn_def)
  have "\<not> occ t1 (pos e jn)" by (simp add: t1_def j_def occ_upd)
  with path home_le have le: "qn \<le> jn" by (meson not_le_imp_less)
  have ent2: "entries (t1(q := t j)) = entries t"
    using q(2,3) occj jK ent1 by (subst entries_fill) (auto simp: occ_def entries_image occs_def)
  have uniq2: "keys_unique (t1(q := t j))" using uniq1 absent by (rule keys_unique_fill)
  have occ2: "occ (t1(q := t j)) (pos e n)" if "occ t (pos e n)" "n < jn" for n
    using that occj jn e(1) by (auto simp: occ_upd t1_def j_def pos_inj occ_def)
  have "settled e (t1(q := t j)) n" if n: "n \<le> jn" for n
  proof (cases "n = qn")
    case True
    have "occ (t1(q := t j)) (pos e i)" if "?a \<le> i" "i < qn" for i
      using path(2) [OF that] occj by (auto simp: occ_upd occ_def)
    then show ?thesis using True path(1) by (simp add: settled_def Let_def qpos)
  next
    case False
    have cell: "pos e n \<noteq> q" using False n jn qnK e(1) by (simp add: qpos pos_inj)
    show ?thesis
    proof (cases "n = jn")
      case True
      then show ?thesis using cell by (simp add: settled_def occ_upd t1_def j_def)
    next
      case False
      with n have lt: "n < jn" by simp
      then have "pos e n \<noteq> j" using jn e(1) by (simp add: j_def pos_inj)
      with cell have "(t1(q := t j)) (pos e n) = t (pos e n)" by (simp add: t1_def)
      with before [OF lt] occ2 lt show ?thesis
        unfolding settled_def Let_def by (simp add: occ_def)
    qed
  qed
  with le q(1,3) uniq2 ent2 show thesis by (intro that [of qn]) (simp_all add: qpos)
qed

lemma remove_loop_correct:
  assumes "e < kTableSize" "\<not> occ t e" "jn \<le> kTableSize - 1" "keys_unique t"
    and "\<And>n. jn \<le> n \<Longrightarrow> n < kTableSize - 1 \<Longrightarrow>
           occ t (pos e n) \<and> lin e (home (e_key (t (pos e n)))) \<le> n"
    and "\<And>n. n < jn \<Longrightarrow> settled e t n"
  shows "\<exists>t'. remove_loop t (pos e jn) = Some t' \<and> index_inv t' \<and> entries t' = entries t"
  using assms
proof (induction "kTableSize - 1 - jn" arbitrary: t jn)
  case 0
  then have jn: "jn = kTableSize - 1" by simp
  then have "remove_loop t (pos e jn) = Some t"
    using 0 by (subst remove_loop.simps) (simp add: pos_last_Suc occ_def)
  moreover have "settled e t n" if "n < kTableSize" for n
    using that 0 jn by (cases "n = jn") (auto simp: settled_def pos_last_Suc)
  ultimately show ?case
    using 0 reach_all_settled [of e t] by (auto simp: index_inv_def has_room_def)
next
  case (Suc d)
  let ?j = "pos e jn"
  let ?t1 = "t(?j := (t ?j)\<lparr>e_slot := kEmpty\<rparr>)"
  have jn: "jn < kTableSize - 1" using Suc.hyps(2) by simp
  have cell: "occ t ?j" "lin e (home (e_key (t ?j))) \<le> jn" using Suc.prems(5) [of jn] jn by auto
  obtain qn where qn: "qn \<le> jn" "probe ?t1 (e_key (t ?j)) = Some (pos e qn)"
    "\<not> occ ?t1 (pos e qn)" "keys_unique (?t1(pos e qn := t ?j))"
    "entries (?t1(pos e qn := t ?j)) = entries t"
    "\<forall>n\<le>jn. settled e (?t1(pos e qn := t ?j)) n"
    using Suc.prems(1,2) jn Suc.prems(4) cell Suc.prems(6) by (rule remove_loop_iteration)
  let ?t2 = "?t1(pos e qn := t ?j)"
  have keep: "?t2 (pos e n) = t (pos e n)" if "jn < n" "n < kTableSize" for n
    using that qn(1) Suc.prems(1) by (simp add: pos_inj)
  have step: "(?j + 1) mod kTableSize = pos e (jn + 1)" by (rule pos_step)
  have "\<exists>t'. remove_loop ?t2 (pos e (jn + 1)) = Some t' \<and> index_inv t' \<and> entries t' = entries ?t2"
  proof (rule Suc.hyps(1))
    show "\<not> occ ?t2 e"
      using keep [of "kTableSize - 1"] jn Suc.prems(1,2) by (simp add: pos_last_Suc occ_def)
    show "occ ?t2 (pos e n) \<and> lin e (home (e_key (?t2 (pos e n)))) \<le> n"
      if "jn + 1 \<le> n" "n < kTableSize - 1" for n
      using Suc.prems(5) [of n] keep [of n] that by (simp add: occ_def)
  qed (use Suc.hyps(2) Suc.prems(1) jn qn in auto)
  moreover have "remove_loop t ?j = remove_loop ?t2 (pos e (jn + 1))"
    using cell(1) qn(2) step by (subst remove_loop.simps) (simp add: occ_def Let_def)
  ultimately show ?case using qn(5) by simp
qed

subsection \<open>The table implements a finite map\<close>

lemma index_lookup_entries:
  assumes "index_inv t"
  shows "index_lookup t oid = Some (index_map t oid)"
    and "index_map t oid = Some (s, d) \<longleftrightarrow> (oid, s, d) \<in> entries t"
proof -
  have "index_lookup t oid = Some (index_map t oid) \<and>
        (index_map t oid = Some (s, d) \<longleftrightarrow> (oid, s, d) \<in> entries t)"
  proof (cases "\<exists>p. entry_at t p oid")
    case True
    then obtain p where p: "entry_at t p oid" by blast
    with assms have "probe t oid = Some p" by (intro probe_present) (auto simp: index_inv_def)
    then have "index_lookup t oid = Some (Some (e_slot (t p), e_side (t p)))"
      using p by (simp add: index_lookup_def entry_at_def occ_def)
    moreover have "q = p" if "entry_at t q oid" for q
      using assms p that by (auto simp: index_inv_def keys_unique_def)
    then have "(oid, s, d) \<in> entries t \<longleftrightarrow> e_slot (t p) = s \<and> e_side (t p) = d"
      using p unfolding entries_iff by blast
    ultimately show ?thesis by (simp add: index_map_def)
  next
    case False
    with assms obtain q where "probe t oid = Some q" "\<not> occ t q"
      by (metis index_inv_def probe_absent)
    then have "index_lookup t oid = Some None" by (simp add: index_lookup_def occ_def)
    with False show ?thesis by (simp add: index_map_def entries_iff)
  qed
  then show "index_lookup t oid = Some (index_map t oid)"
    and "index_map t oid = Some (s, d) \<longleftrightarrow> (oid, s, d) \<in> entries t" by simp_all
qed

lemma entries_key_unique:
  "index_inv t \<Longrightarrow> (oid, s, d) \<in> entries t \<Longrightarrow> (oid, s', d') \<in> entries t \<Longrightarrow> s' = s \<and> d' = d"
  by (metis index_lookup_entries(2) option.inject prod.inject)

lemma dom_index_map: "index_inv t \<Longrightarrow> dom (index_map t) = fst ` entries t"
  by (force simp: index_lookup_entries(2) dom_def)

lemma card_dom_index_map: "index_inv t \<Longrightarrow> card (dom (index_map t)) = card (entries t)"
proof -
  assume inv: "index_inv t"
  have "inj_on fst (entries t)" using entries_key_unique [OF inv] by (fastforce simp: inj_on_def)
  then show ?thesis by (simp add: dom_index_map [OF inv] card_image)
qed

lemma index_map_eqI:
  assumes "index_inv t" and "\<And>oid s d. (oid, s, d) \<in> entries t \<longleftrightarrow> m oid = Some (s, d)"
  shows "index_map t = m"
proof
  fix oid
  have "index_map t oid = Some x \<longleftrightarrow> m oid = Some x" for x
    using assms index_lookup_entries(2) [OF assms(1), of oid] by (cases x) simp
  then show "index_map t oid = m oid" by (metis not_None_eq)
qed

lemma index_insert_present:
  assumes inv: "index_inv t" and at: "entry_at t p oid" and s: "s \<noteq> kEmpty"
  shows "\<exists>t'. index_insert t oid s d = Some (True, t') \<and> index_inv t' \<and>
     index_map t' = (index_map t)(oid \<mapsto> (s, d))"
proof -
  let ?t' = "t(p := \<lparr>e_key = oid, e_slot = s, e_side = d\<rparr>)"
  from inv have uniq: "keys_unique t" by (simp add: index_inv_def)
  have "probe t oid = Some p" using inv at by (intro probe_present) (auto simp: index_inv_def)
  then have "index_insert t oid s d = Some (True, ?t')"
    using at by (simp add: index_insert_def entry_at_def)
  moreover have occ: "occ ?t' q = occ t q" for q
    using at s by (auto simp: occ_upd entry_at_def)
  then have at': "entry_at ?t' q k \<longleftrightarrow> entry_at t q k" for q k
    using at by (auto simp: entry_at_def)
  have inv': "index_inv ?t'"
    using inv unfolding index_inv_def keys_unique_def has_room_def at' reach_def occ .
  moreover have "index_map ?t' = (index_map t)(oid \<mapsto> (s, d))"
  proof (rule index_map_eqI [OF inv'])
    fix k s' d'
    have "(k, s', d') \<in> entries ?t' \<longleftrightarrow>
        (k, s', d') = (oid, s, d) \<or> (k, s', d') \<in> entries t - {triple (t p)}"
      using uniq at s by (simp add: entries_same_cell)
    moreover have "triple (t p) \<in> entries t" "e_key (t p) = oid"
      using at by (auto simp: entries_def entry_at_def)
    ultimately show "(k, s', d') \<in> entries ?t' \<longleftrightarrow> ((index_map t)(oid \<mapsto> (s, d))) k = Some (s', d')"
      using entries_key_unique [OF inv] index_lookup_entries(2) [OF inv] by auto
  qed
  ultimately show ?thesis by blast
qed

lemma index_insert_absent:
  assumes inv: "index_inv t" and absent: "\<And>p. \<not> entry_at t p oid" and s: "s \<noteq> kEmpty"
    and room: "card (dom (index_map t)) + 1 < kTableSize"
  shows "\<exists>t'. index_insert t oid s d = Some (True, t') \<and> index_inv t' \<and>
     index_map t' = (index_map t)(oid \<mapsto> (s, d))"
proof -
  from inv have uniq: "keys_unique t" and "has_room t" by (simp_all add: index_inv_def)
  then obtain q where q: "probe t oid = Some q" "q < kTableSize" "\<not> occ t q" "reach t (home oid) q"
    using absent by (metis probe_absent)
  let ?t' = "t(q := \<lparr>e_key = oid, e_slot = s, e_side = d\<rparr>)"
  have ins: "index_insert t oid s d = Some (True, ?t')"
    using q by (simp add: index_insert_def occ_def)
  have ent: "entries ?t' = insert (oid, s, d) (entries t)"
    using q s by (subst entries_fill) auto
  have uniq': "keys_unique ?t'" using uniq absent by (intro keys_unique_fill) auto
  have "card (entries ?t') \<le> card (entries t) + 1" by (simp add: ent card_insert_if)
  then have room': "has_room ?t'"
    using uniq' room card_dom_index_map [OF inv] by (intro has_room_card) auto
  have mono: "reach ?t' a p" if "reach t a p" for a p
    using that s by (auto simp: reach_def occ_upd)
  have inv': "index_inv ?t'"
    using inv uniq' room' mono q(4) unfolding index_inv_def entry_at_upd by auto
  have notin: "(oid, s', d') \<notin> entries t" for s' d' using absent by (simp add: entries_iff)
  have "index_map ?t' = (index_map t)(oid \<mapsto> (s, d))"
    using notin index_lookup_entries(2) [OF inv] by (intro index_map_eqI [OF inv']) (auto simp: ent)
  with ins inv' show ?thesis by blast
qed

lemma index_insert_correct:
  assumes "index_inv t" "s \<noteq> kEmpty" "card (dom (index_map t)) + 1 < kTableSize"
  shows "\<exists>t'. index_insert t oid s d = Some (True, t') \<and> index_inv t' \<and>
     index_map t' = (index_map t)(oid \<mapsto> (s, d))"
  using assms index_insert_present index_insert_absent by (cases "\<exists>p. entry_at t p oid") blast+

text \<open>The hole left by a deletion lies in a cluster that ends at the next empty cell \<open>e\<close>: the cells
  after it up to \<open>e\<close> are occupied, the cells before it are undisturbed.\<close>

lemma index_remove_present:
  assumes inv: "index_inv t" and at: "entry_at t h oid"
  shows "\<exists>t'. index_remove t oid = Some (True, t') \<and> index_inv t' \<and>
     entries t' = entries t - {triple (t h)}"
proof -
  let ?t1 = "t(h := (t h)\<lparr>e_slot := kEmpty, e_key := 0\<rparr>)"
  from inv have uniq: "keys_unique t" and room: "has_room t" by (simp_all add: index_inv_def)
  have h: "h < kTableSize" "occ t h" using at by (auto simp: entry_at_def)
  have probe: "probe t oid = Some h" using inv at by (intro probe_present) (auto simp: index_inv_def)
  obtain e0 where e0: "e0 < kTableSize" "\<not> occ t e0" using room by (auto simp: has_room_def)
  let ?scan = "\<lambda>m. (h + 1 + m) mod kTableSize"
  have "h + 1 + (e0 + kTableSize - (h + 1)) = e0 + kTableSize" using h(1) by linarith
  then have "?scan (e0 + kTableSize - (h + 1)) = e0" using e0(1) by simp
  with e0(2) have "\<not> occ t (?scan (e0 + kTableSize - (h + 1)))" by simp
  then have ex: "\<exists>m. \<not> occ t (?scan m)" by blast
  define m where "m = (LEAST m. \<not> occ t (?scan m))"
  define e where "e = ?scan m"
  have e: "e < kTableSize" "\<not> occ t e"
    using LeastI_ex [OF ex] by (simp_all add: e_def m_def)
  have below: "occ t (?scan i)" if "i < m" for i
    using that unfolding m_def by (auto dest: not_less_Least)
  define hn where "hn = lin e h"
  have hpos: "h = pos e hn" using e(1) h(1) by (simp add: hn_def)
  have scan_pos: "?scan i = pos e (hn + 1 + i)" for i
    using pos_step [of e hn "1 + i"] hpos by (simp add: add.assoc)
  have "hn < kTableSize - 1"
  proof -
    have "hn < kTableSize" by (simp add: hn_def)
    moreover have "hn \<noteq> kTableSize - 1" using hpos e h(2) pos_last by metis
    ultimately show ?thesis by simp
  qed
  have end_le: "kTableSize - 1 \<le> hn + 1 + m"
  proof (rule ccontr)
    assume "\<not> kTableSize - 1 \<le> hn + 1 + m"
    then have "hn + 1 + m < kTableSize - 1" "hn + 1 + m < kTableSize" by simp_all
    moreover have "pos e (hn + 1 + m) = pos e (kTableSize - 1)"
      using scan_pos [of m] pos_last [OF e(1)] by (simp only: e_def [symmetric])
    ultimately show False using e(1) pos_inj [of e "hn + 1 + m" "kTableSize - 1"] by simp
  qed
  have occ_after: "occ t (pos e n)" if "hn < n" "n < kTableSize - 1" for n
    using below [of "n - hn - 1"] scan_pos [of "n - hn - 1"] that end_le by simp
  have settled: "settled e t n" if "n < kTableSize" for n
    using inv that reach_all_settled [OF e] by (simp add: index_inv_def)
  have cell: "?t1 (pos e n) = t (pos e n)" if "n < kTableSize" "n \<noteq> hn" for n
    using that hpos e(1) \<open>hn < kTableSize - 1\<close> pos_inj [of e n hn] by simp
  have uniq1: "keys_unique ?t1" using uniq by (rule keys_unique_clear) simp
  have ent1: "entries ?t1 = entries t - {triple (t h)}"
    using uniq h by (rule entries_clear) simp
  have "\<exists>t'. remove_loop ?t1 (pos e (hn + 1)) = Some t' \<and> index_inv t' \<and> entries t' = entries ?t1"
  proof (rule remove_loop_correct)
    show "\<not> occ ?t1 e" using e h(2) by (auto simp: occ_upd)
    fix n
    show "occ ?t1 (pos e n) \<and> lin e (home (e_key (?t1 (pos e n)))) \<le> n"
      if "hn + 1 \<le> n" "n < kTableSize - 1"
      using occ_after [of n] settled [of n] cell [of n] that by (simp add: occ_def settled_def Let_def)
    show "settled e ?t1 n" if "n < hn + 1"
    proof (cases "n = hn")
      case True
      then show ?thesis by (simp add: settled_def occ_upd hpos)
    next
      case False
      with that have "n < hn" by simp
      with settled [of n] cell \<open>hn < kTableSize - 1\<close> show ?thesis
        by (simp add: settled_def Let_def occ_def del: fun_upd_apply)
    qed
  qed (use e uniq1 \<open>hn < kTableSize - 1\<close> in auto)
  moreover have "(h + 1) mod kTableSize = pos e (hn + 1)" using scan_pos [of 0] by simp
  ultimately show ?thesis
    using probe h(2) ent1 by (auto simp: index_remove_def occ_def Let_def)
qed

lemma index_remove_correct:
  assumes inv: "index_inv t"
  shows "\<exists>t'. index_remove t oid = Some (index_map t oid \<noteq> None, t') \<and> index_inv t' \<and>
     index_map t' = (index_map t)(oid := None)"
proof (cases "\<exists>h. entry_at t h oid")
  case True
  then obtain h where at: "entry_at t h oid" by blast
  then obtain t' where t': "index_remove t oid = Some (True, t')" "index_inv t'"
    and ent: "entries t' = entries t - {triple (t h)}"
    using index_remove_present [OF inv] by blast
  have mem: "triple (t h) \<in> entries t" "e_key (t h) = oid"
    using at by (auto simp: entries_def entry_at_def)
  then have "index_map t oid \<noteq> None" using index_lookup_entries(2) [OF inv] by auto
  moreover have "index_map t' = (index_map t)(oid := None)"
    using mem entries_key_unique [OF inv] index_lookup_entries(2) [OF inv]
    by (intro index_map_eqI [OF t'(2)]) (auto simp: ent)
  ultimately show ?thesis using t' by auto
next
  case False
  with inv obtain q where "probe t oid = Some q" "\<not> occ t q"
    by (metis index_inv_def probe_absent)
  moreover have "index_map t oid = None"
    using False index_lookup_entries(2) [OF inv, of oid] by (cases "index_map t oid") (auto simp: entries_iff)
  ultimately show ?thesis using inv by (auto simp: index_remove_def occ_def fun_upd_idem)
qed

subsection \<open>The interface the book relies on\<close>

text \<open>A partial map from identifiers to locations whose insertion needs room and whose operations
  may in principle not return.  A client that keeps a property of all stored pairs keeps it through
  every operation.\<close>

locale location_map =
  fixes invar :: "'m \<Rightarrow> bool"
    and find :: "'m \<Rightarrow> 'k \<Rightarrow> 'v option"
    and lookup :: "'m \<Rightarrow> 'k \<Rightarrow> 'v option option"
    and store :: "'m \<Rightarrow> 'k \<Rightarrow> 'v \<Rightarrow> (bool \<times> 'm) option"
    and erase :: "'m \<Rightarrow> 'k \<Rightarrow> (bool \<times> 'm) option"
    and valid :: "'v \<Rightarrow> bool"
    and room :: nat
  assumes lookup_find: "invar m \<Longrightarrow> lookup m k = Some (find m k)"
    and store_find: "invar m \<Longrightarrow> valid v \<Longrightarrow> card (dom (find m)) < room \<Longrightarrow>
      \<exists>m'. store m k v = Some (True, m') \<and> invar m' \<and> find m' = (find m)(k \<mapsto> v)"
    and erase_find: "invar m \<Longrightarrow>
      \<exists>m'. erase m k = Some (find m k \<noteq> None, m') \<and> invar m' \<and> find m' = (find m)(k := None)"
begin

definition pairs_ok :: "('k \<Rightarrow> 'v \<Rightarrow> bool) \<Rightarrow> 'm \<Rightarrow> bool" where
  "pairs_ok P m = (invar m \<and> (\<forall>k v. find m k = Some v \<longrightarrow> P k v))"

lemma pairs_okD: "pairs_ok P m \<Longrightarrow> find m k = Some v \<Longrightarrow> P k v"
  by (simp add: pairs_ok_def)

lemma pairs_ok_mono:
  "pairs_ok P m \<Longrightarrow> (\<And>k v. find m k = Some v \<Longrightarrow> P k v \<Longrightarrow> Q k v) \<Longrightarrow> pairs_ok Q m"
  by (simp add: pairs_ok_def)

lemma erase_pairs_ok:
  assumes "pairs_ok P m"
  obtains r m' where "erase m k = Some (r, m')" "pairs_ok (\<lambda>k' v. k' \<noteq> k \<and> P k' v) m'"
    "find m' = (find m)(k := None)"
  using assms erase_find [of m k] that unfolding pairs_ok_def
  by (metis (no_types, lifting) fun_upd_apply option.distinct(1))

lemma store_pairs_ok:
  assumes "pairs_ok P m" "valid v" "P k v" "card (dom (find m)) < room"
  obtains m' where "store m k v = Some (True, m')" "pairs_ok P m'" "find m' = (find m)(k \<mapsto> v)"
  using assms store_find [of m v k] that unfolding pairs_ok_def
  by (metis (no_types, lifting) fun_upd_apply option.inject)

text \<open>Storing and erasing a fresh key gives the old map back.\<close>

lemma store_erase_roundtrip:
  assumes "invar m" "valid v" "find m k = None" "card (dom (find m)) < room"
  obtains m1 m2 where "store m k v = Some (True, m1)" "erase m1 k = Some (True, m2)" "find m2 = find m"
proof -
  obtain m1 where m1: "store m k v = Some (True, m1)" "invar m1" "find m1 = (find m)(k \<mapsto> v)"
    using store_find assms by blast
  moreover from m1(2) obtain m2 where "erase m1 k = Some (find m1 k \<noteq> None, m2)"
    "find m2 = (find m1)(k := None)" using erase_find by blast
  ultimately show thesis using that assms(3) by (simp add: fun_upd_idem)
qed

end

definition slot_valid :: "nat \<times> u8 \<Rightarrow> bool" where
  "slot_valid v = (fst v \<noteq> kEmpty)"

abbreviation index_store :: "OrderIndex \<Rightarrow> OrderId \<Rightarrow> nat \<times> u8 \<Rightarrow> (bool \<times> OrderIndex) option" where
  "index_store t oid v \<equiv> index_insert t oid (fst v) (snd v)"

interpretation oidx: location_map index_inv index_map index_lookup index_store index_remove
  slot_valid "kTableSize - 1"
proof unfold_locales
  fix m :: OrderIndex and k
  assume inv: "index_inv m"
  show "index_lookup m k = Some (index_map m k)" using inv by (rule index_lookup_entries(1))
  show "\<exists>m'. index_remove m k = Some (index_map m k \<noteq> None, m') \<and> index_inv m' \<and>
      index_map m' = (index_map m)(k := None)" using inv by (rule index_remove_correct)
  fix v
  assume "slot_valid v" "card (dom (index_map m)) < kTableSize - 1"
  then show "\<exists>m'. index_store m k v = Some (True, m') \<and> index_inv m' \<and>
      index_map m' = (index_map m)(k \<mapsto> v)"
    using inv index_insert_correct [of m "fst v" k "snd v"] by (simp add: slot_valid_def)
qed

lemma index_map_init [simp]: "index_map index_init = (\<lambda>_. None)"
  by (rule index_map_eqI [OF index_inv_init]) simp

text \<open>C15. The open-addressed table behaves as a map: with room left an insertion succeeds and is found, a
  removal makes it absent again, no other key is affected by either, although deletion moves entries
  of the cluster, and all three return.\<close>

theorem order_index_is_map:
  assumes "index_inv t" "s \<noteq> kEmpty" "card (dom (index_map t)) + 1 < kTableSize"
  shows "\<exists>t1 t2. index_insert t oid s d = Some (True, t1) \<and> index_inv t1 \<and>
     index_remove t1 oid = Some (True, t2) \<and> index_inv t2 \<and>
     index_lookup t1 oid = Some (Some (s, d)) \<and> index_lookup t2 oid = Some None \<and>
     (\<forall>k. k \<noteq> oid \<longrightarrow> index_lookup t1 k = index_lookup t k \<and> index_lookup t2 k = index_lookup t k)"
proof -
  obtain t1 where t1: "index_insert t oid s d = Some (True, t1)" "index_inv t1"
    "index_map t1 = (index_map t)(oid \<mapsto> (s, d))" using index_insert_correct [OF assms] by blast
  moreover obtain t2 where "index_remove t1 oid = Some (True, t2)" "index_inv t2"
    "index_map t2 = (index_map t1)(oid := None)" using index_remove_correct [OF t1(2), of oid] t1(3) by auto
  ultimately show ?thesis using assms(1) by (auto simp: index_lookup_entries(1))
qed

theorem order_index_is_map_witness:
  "index_inv index_init \<and> (\<exists>t1 t2. index_insert index_init 7 3 1 = Some (True, t1) \<and> index_remove t1 7 = Some (True, t2) \<and>
     index_lookup t1 7 = Some (Some (3, 1)) \<and> index_lookup t2 7 = Some None)"
  using order_index_is_map [OF index_inv_init, of 3 7 1] index_inv_init by (auto simp: kEmpty_def kTableSize_def)

end
