(* ===== verification/Intrusive_List.thy ===== *)
theory Intrusive_List
  imports Engine_Types
begin

text \<open>
  Linked lists threaded through index arrays, as \<^verbatim>\<open>OrderBook\<close> keeps them: the free chain through
  \<^verbatim>\<open>free_nexts[]\<close> and the doubly linked queues through \<^verbatim>\<open>nexts[]\<close>/\<^verbatim>\<open>prevs[]\<close>.  The predicates relate
  the arrays to the list of slots they thread; the lemmas say what unlinking and appending do to
  that list, and that writes to other slots leave it alone.
\<close>

definition NULL_IDX :: nat where
  "NULL_IDX = 4294967295"

subsection \<open>Singly linked chains\<close>

primrec chain :: "nat arr \<Rightarrow> nat \<Rightarrow> nat list \<Rightarrow> bool" where
  "chain nx h [] = (h = NULL_IDX)"
| "chain nx h (x # xs) = (h = x \<and> x \<noteq> NULL_IDX \<and> chain nx (nx x) xs)"

lemma chain_upd_notin [simp]: "y \<notin> set xs \<Longrightarrow> chain (nx(y := v)) h xs = chain nx h xs"
  by (induction xs arbitrary: h) auto

lemma chain_null: "chain nx NULL_IDX xs \<longleftrightarrow> xs = []"
  by (cases xs) auto

lemma chain_nonnull: "h \<noteq> NULL_IDX \<Longrightarrow> chain nx h xs \<longleftrightarrow> (\<exists>ys. xs = h # ys \<and> chain nx (nx h) ys)"
  by (cases xs) auto

lemma chain_unique: "chain nx h xs \<Longrightarrow> chain nx h ys \<Longrightarrow> xs = ys"
  by (induction xs arbitrary: h ys) (auto simp: chain_null chain_nonnull)

lemma chain_upt:
  assumes "\<And>i. i < n - 1 \<Longrightarrow> nx i = i + 1" "nx (n - 1) = NULL_IDX" "n \<le> NULL_IDX" "k < n"
  shows "chain nx k [k..<n]"
  using assms
proof (induction "n - k" arbitrary: k)
  case (Suc d)
  then show ?case
    by (cases "Suc k = n") (auto simp: upt_conv_Cons)
qed simp

subsection \<open>Doubly linked segments\<close>

primrec dseg :: "nat arr \<Rightarrow> nat arr \<Rightarrow> nat \<Rightarrow> nat \<Rightarrow> nat list \<Rightarrow> nat \<Rightarrow> nat \<Rightarrow> bool" where
  "dseg nx pv p h [] t n = (h = n \<and> t = p)"
| "dseg nx pv p h (x # xs) t n = (h = x \<and> pv x = p \<and> dseg nx pv x (nx x) xs t n)"

lemma dseg_append:
  "dseg nx pv p h (xs @ ys) t n \<longleftrightarrow> (\<exists>m k. dseg nx pv p h xs m k \<and> dseg nx pv m k ys t n)"
  by (induction xs arbitrary: p h) auto

lemma dseg_cong:
  "(\<And>x. x \<in> set xs \<Longrightarrow> nx x = nx' x \<and> pv x = pv' x) \<Longrightarrow>
     dseg nx pv p h xs t n = dseg nx' pv' p h xs t n"
  by (induction xs arbitrary: p h) auto

lemma dseg_nx_upd [simp]: "y \<notin> set xs \<Longrightarrow> dseg (nx(y := v)) pv p h xs t n = dseg nx pv p h xs t n"
  by (rule dseg_cong) auto

lemma dseg_pv_upd [simp]: "y \<notin> set xs \<Longrightarrow> dseg nx (pv(y := v)) p h xs t n = dseg nx pv p h xs t n"
  by (rule dseg_cong) auto

lemma dseg_snoc:
  "dseg nx pv p h (xs @ [x]) t n \<longleftrightarrow> (\<exists>m. dseg nx pv p h xs m x \<and> pv x = m \<and> t = x \<and> nx x = n)"
  by (auto simp: dseg_append)

lemma dseg_snoc_redirect:
  "dseg nx pv p h (xs @ [x]) x n \<Longrightarrow> x \<notin> set xs \<Longrightarrow> dseg (nx(x := n')) pv p h (xs @ [x]) x n'"
  by (auto simp: dseg_snoc)

definition dlist :: "nat arr \<Rightarrow> nat arr \<Rightarrow> nat \<Rightarrow> nat list \<Rightarrow> nat \<Rightarrow> bool" where
  "dlist nx pv h xs t = (dseg nx pv NULL_IDX h xs t NULL_IDX \<and> NULL_IDX \<notin> set xs)"

lemma dlist_Nil [simp]: "dlist nx pv h [] t \<longleftrightarrow> h = NULL_IDX \<and> t = NULL_IDX"
  by (auto simp: dlist_def)

lemma dlist_head: "dlist nx pv h xs t \<Longrightarrow> h = (case xs of [] \<Rightarrow> NULL_IDX | x # _ \<Rightarrow> x)"
  by (auto simp: dlist_def split: list.splits)

lemma dlist_head_null: "dlist nx pv h xs t \<Longrightarrow> h = NULL_IDX \<longleftrightarrow> xs = []"
  by (cases xs) (auto simp: dlist_def)

lemma dlist_head_Cons: "dlist nx pv h (x # xs) t \<Longrightarrow> h = x"
  by (simp add: dlist_def)

lemma dlist_tail: "dlist nx pv h xs t \<Longrightarrow> xs \<noteq> [] \<Longrightarrow> t = last xs"
  by (induction xs rule: rev_induct) (auto simp: dlist_def dseg_snoc)

lemma dlist_tail_in: "dlist nx pv h xs t \<Longrightarrow> h = NULL_IDX \<or> t \<in> set xs"
  using dlist_head_null dlist_tail last_in_set by metis

lemma dlist_cong:
  "(\<And>x. x \<in> set xs \<Longrightarrow> nx x = nx' x \<and> pv x = pv' x) \<Longrightarrow> dlist nx pv h xs t = dlist nx' pv' h xs t"
  unfolding dlist_def using dseg_cong [of xs nx nx' pv pv'] by simp

lemma dlist_nx_upd [simp]: "y \<notin> set xs \<Longrightarrow> dlist (nx(y := v)) pv h xs t = dlist nx pv h xs t"
  by (simp add: dlist_def)

lemma dlist_pv_upd [simp]: "y \<notin> set xs \<Longrightarrow> dlist nx (pv(y := v)) h xs t = dlist nx pv h xs t"
  by (simp add: dlist_def)

text \<open>The successor array alone determines the list: \<open>walk nx h n\<close> follows it for \<open>n\<close> steps.\<close>

primrec walk :: "nat arr \<Rightarrow> nat \<Rightarrow> nat \<Rightarrow> nat list" where
  "walk nx h 0 = []"
| "walk nx h (Suc n) = h # walk nx (nx h) n"

lemma dseg_walk: "dseg nx pv p h xs t n \<Longrightarrow> walk nx h (length xs) = xs"
  by (induction xs arbitrary: p h) auto

lemma dlist_walk: "dlist nx pv h xs t \<Longrightarrow> walk nx h (length xs) = xs"
  unfolding dlist_def by (auto dest: dseg_walk)

subsection \<open>Unlinking and appending\<close>

definition unlink_nx :: "nat arr \<Rightarrow> nat arr \<Rightarrow> nat \<Rightarrow> nat arr" where
  "unlink_nx nx pv s = (if pv s \<noteq> NULL_IDX then nx(pv s := nx s) else nx)"

definition unlink_pv :: "nat arr \<Rightarrow> nat arr \<Rightarrow> nat \<Rightarrow> nat arr" where
  "unlink_pv nx pv s = (if nx s \<noteq> NULL_IDX then pv(nx s := pv s) else pv)"

lemma dlist_unlink:
  assumes d: "dlist nx pv h (xs @ s # ys) t" and dist: "distinct (xs @ s # ys)"
  shows "dlist (unlink_nx nx pv s) (unlink_pv nx pv s)
           (if pv s \<noteq> NULL_IDX then h else nx s) (xs @ ys) (if nx s \<noteq> NULL_IDX then t else pv s)"
proof -
  from d have left: "dseg nx pv NULL_IDX h xs (pv s) s"
    and right: "dseg nx pv s (nx s) ys t NULL_IDX" and nn: "NULL_IDX \<notin> set (xs @ s # ys)"
    by (auto simp: dlist_def dseg_append)
  have pvs: "pv s \<noteq> NULL_IDX \<longleftrightarrow> xs \<noteq> []"
    using left nn by (cases xs rule: rev_cases) (auto simp: dseg_snoc)
  have nxs: "nx s \<noteq> NULL_IDX \<longleftrightarrow> ys \<noteq> []" using right nn by (cases ys) auto
  let ?nx = "unlink_nx nx pv s" and ?pv = "unlink_pv nx pv s"
  have pv_in: "xs \<noteq> [] \<Longrightarrow> pv s \<in> set xs"
    using left by (cases xs rule: rev_cases) (auto simp: dseg_snoc)
  have nx_in: "ys \<noteq> [] \<Longrightarrow> nx s = hd ys" using right by (cases ys) auto
  have L: "dseg ?nx ?pv NULL_IDX (if xs \<noteq> [] then h else nx s) xs (pv s) (nx s)"
  proof (cases xs rule: rev_cases)
    case (snoc zs z)
    then have z: "pv s = z" "z \<notin> set zs" using left dist by (auto simp: dseg_snoc)
    have "dseg (nx(z := nx s)) pv NULL_IDX h (zs @ [z]) z (nx s)"
      using left snoc z by (intro dseg_snoc_redirect [where n = s]) auto
    moreover have "nx s \<notin> set xs" if "ys \<noteq> []"
      using that nx_in dist by (cases ys) auto
    ultimately show ?thesis
      using snoc z pvs nxs by (auto simp: unlink_nx_def unlink_pv_def)
  qed (use left nn in simp)
  have R: "dseg ?nx ?pv (pv s) (nx s) ys (if ys \<noteq> [] then t else pv s) NULL_IDX"
  proof (cases ys)
    case (Cons y zs)
    have "pv s \<notin> set ys" if "xs \<noteq> []" using that pv_in dist by auto
    then show ?thesis
      using right Cons pvs nxs dist by (auto simp: unlink_nx_def unlink_pv_def)
  qed (use right in simp)
  have "dseg ?nx ?pv NULL_IDX (if xs \<noteq> [] then h else nx s) (xs @ ys)
          (if ys \<noteq> [] then t else pv s) NULL_IDX"
    unfolding dseg_append using L R by blast
  then show ?thesis using nn pvs nxs by (simp add: dlist_def)
qed

lemma dlist_neighbours:
  assumes "dlist nx pv h (xs @ s # ys) t"
  shows "nx s = NULL_IDX \<or> nx s \<in> set ys" "pv s = NULL_IDX \<or> pv s \<in> set xs"
  using assms by (auto simp: dlist_def dseg_append dseg_snoc) (metis dseg.simps list.set_intros(1) neq_Nil_conv,
    metis dseg.simps(1) dseg_snoc in_set_conv_decomp rev_exhaust)

lemma dlist_append_new:
  assumes "dlist nx pv h xs t" "s \<notin> set xs" "s \<noteq> NULL_IDX" "xs \<noteq> []" "distinct xs"
  shows "dlist (nx(t := s, s := NULL_IDX)) (pv(s := t)) h (xs @ [s]) s"
proof -
  obtain zs z where xs: "xs = zs @ [z]" using assms(4) by (cases xs rule: rev_cases) auto
  with assms have t: "t = z" using dlist_tail by fastforce
  have "dseg (nx(z := s)) pv NULL_IDX h (zs @ [z]) z s"
    using assms t xs by (intro dseg_snoc_redirect [where n = NULL_IDX]) (auto simp: dlist_def)
  then have "dseg (nx(t := s, s := NULL_IDX)) (pv(s := t)) NULL_IDX h xs t s"
    using assms(2) xs t by simp
  then show ?thesis using assms by (auto simp: dlist_def dseg_snoc)
qed

lemma dlist_singleton:
  "s \<noteq> NULL_IDX \<Longrightarrow> dlist (nx(s := NULL_IDX)) (pv(s := NULL_IDX)) s [s] s"
  by (simp add: dlist_def)

lemma dlist_pop_head:
  assumes "dlist nx pv h (s # ys) t" "distinct (s # ys)"
  shows "dlist nx (if nx s \<noteq> NULL_IDX then pv(nx s := NULL_IDX) else pv) (nx s) ys
           (if nx s \<noteq> NULL_IDX then t else NULL_IDX)"
  using dlist_unlink [of nx pv h "[]" s ys t] assms
  by (auto simp: dlist_def unlink_nx_def unlink_pv_def split: if_splits)

end
