(* ===== verification/Slot_Pool.thy ===== *)
theory Slot_Pool
  imports Intrusive_List
begin

text \<open>
  \<^verbatim>\<open>OrderBook::SlotPool\<close> (\<^verbatim>\<open>order_book.hpp\<close> 60-90, \<^verbatim>\<open>order_book.cpp\<close> 90-112): parallel arrays of
  order slots with a free list threaded through \<^verbatim>\<open>free_nexts[]\<close>.  The contract of such a pool, that
  it hands out each resource to at most one holder and reuses the most recently released one first,
  is the locale \<open>free_list_pool\<close>.
\<close>

subsection \<open>The pool\<close>

definition kMaxOrders :: nat where
  "kMaxOrders = 65536"

record SlotPool =
  sl_ids :: "OrderId arr"
  sl_qtys :: "Qty arr"
  sl_nexts :: "nat arr"
  sl_prevs :: "nat arr"
  sl_free_nexts :: "nat arr"
  sl_prices :: "Price arr"
  sl_accounts :: "u32 arr"
  sl_free_head :: nat
  sl_used :: u32

text \<open>The loop of \<^verbatim>\<open>init\<close> writes \<open>i + 1\<close> to \<^verbatim>\<open>free_nexts[i]\<close> for every \<open>i < kMaxOrders - 1\<close>.\<close>

definition slots_init :: "SlotPool \<Rightarrow> SlotPool" where
  "slots_init sl = sl\<lparr>
     sl_free_nexts := (\<lambda>i. if i < kMaxOrders - 1 then i + 1
                           else if i = kMaxOrders - 1 then NULL_IDX
                           else sl_free_nexts sl i),
     sl_free_head := 0,
     sl_used := 0\<rparr>"

definition slot_alloc :: "SlotPool \<Rightarrow> nat \<times> SlotPool" where
  "slot_alloc sl =
     (if sl_free_head sl = NULL_IDX then (NULL_IDX, sl)
      else let idx = sl_free_head sl in
        (idx, sl\<lparr>sl_free_head := sl_free_nexts sl idx, sl_used := sl_used sl + 1\<rparr>))"

definition free_slot :: "nat \<Rightarrow> SlotPool \<Rightarrow> SlotPool" where
  "free_slot idx sl = sl\<lparr>
     sl_free_nexts := (sl_free_nexts sl)(idx := sl_free_head sl),
     sl_free_head := idx,
     sl_used := sl_used sl - 1\<rparr>"

subsection \<open>The free list\<close>

definition pool_free :: "SlotPool \<Rightarrow> nat list \<Rightarrow> bool" where
  "pool_free sl fs = (chain (sl_free_nexts sl) (sl_free_head sl) fs \<and> distinct fs \<and>
     set fs \<subseteq> {..<kMaxOrders} \<and> sl_used sl = of_nat (kMaxOrders - length fs))"

lemma kMaxOrders_le_NULL [simp]: "kMaxOrders < NULL_IDX" "kMaxOrders \<le> NULL_IDX"
  by (simp_all add: kMaxOrders_def NULL_IDX_def)

lemma kMaxOrders_pos [simp]: "0 < kMaxOrders"
  by (simp add: kMaxOrders_def)

lemma slot_not_null: "s < kMaxOrders \<Longrightarrow> s \<noteq> NULL_IDX"
  using kMaxOrders_le_NULL by linarith

lemma pool_free_init: "pool_free (slots_init sl) [0..<kMaxOrders]"
proof -
  let ?nx = "\<lambda>i. if i < kMaxOrders - 1 then i + 1
                 else if i = kMaxOrders - 1 then NULL_IDX else sl_free_nexts sl i"
  have "chain ?nx 0 [0..<kMaxOrders]" by (rule chain_upt) auto
  then show ?thesis by (simp add: pool_free_def slots_init_def lessThan_atLeast0)
qed

lemma pool_free_length: "pool_free sl fs \<Longrightarrow> length fs \<le> kMaxOrders"
  by (auto simp: pool_free_def intro: distinct_subset_length)

lemma slot_alloc_empty: "pool_free sl [] \<Longrightarrow> slot_alloc sl = (NULL_IDX, sl)"
  by (simp add: pool_free_def slot_alloc_def)

lemma slot_alloc_next:
  assumes "pool_free sl (x # fs)"
  shows "slot_alloc sl = (x, sl\<lparr>sl_free_head := sl_free_nexts sl x, sl_used := sl_used sl + 1\<rparr>)"
    and "pool_free (snd (slot_alloc sl)) fs"
proof -
  from assms have x: "sl_free_head sl = x" "x \<noteq> NULL_IDX" by (auto simp: pool_free_def)
  then show eq: "slot_alloc sl = (x, sl\<lparr>sl_free_head := sl_free_nexts sl x, sl_used := sl_used sl + 1\<rparr>)"
    by (simp add: slot_alloc_def)
  from pool_free_length [OF assms] have "kMaxOrders - length fs = Suc (kMaxOrders - length (x # fs))"
    by simp
  with assms show "pool_free (snd (slot_alloc sl)) fs"
    unfolding eq by (simp add: pool_free_def add.commute)
qed

lemma free_slot_pool:
  assumes "pool_free sl fs" "x < kMaxOrders" "x \<notin> set fs"
  shows "pool_free (free_slot x sl) (x # fs)"
proof -
  have "length (x # fs) \<le> kMaxOrders"
    using assms by (intro distinct_subset_length) (auto simp: pool_free_def)
  then have "kMaxOrders - length fs = Suc (kMaxOrders - length (x # fs))" by simp
  with assms show ?thesis by (simp add: pool_free_def free_slot_def slot_not_null)
qed

text \<open>Allocation and release touch the free chain and the counter, nothing of the live slots.\<close>

lemma free_slot_frame [simp]:
  "sl_ids (free_slot x sl) = sl_ids sl" "sl_qtys (free_slot x sl) = sl_qtys sl"
  "sl_nexts (free_slot x sl) = sl_nexts sl" "sl_prevs (free_slot x sl) = sl_prevs sl"
  "sl_prices (free_slot x sl) = sl_prices sl" "sl_accounts (free_slot x sl) = sl_accounts sl"
  by (simp_all add: free_slot_def)

lemma slot_alloc_frame [simp]:
  "sl_ids (snd (slot_alloc sl)) = sl_ids sl" "sl_qtys (snd (slot_alloc sl)) = sl_qtys sl"
  "sl_nexts (snd (slot_alloc sl)) = sl_nexts sl" "sl_prevs (snd (slot_alloc sl)) = sl_prevs sl"
  "sl_prices (snd (slot_alloc sl)) = sl_prices sl" "sl_accounts (snd (slot_alloc sl)) = sl_accounts sl"
  by (simp_all add: slot_alloc_def Let_def)

subsection \<open>The contract of a free-list pool\<close>

locale free_list_pool =
  fixes free_of :: "'p \<Rightarrow> 'a list \<Rightarrow> bool"
    and take1 :: "'p \<Rightarrow> 'a option \<times> 'p"
    and give :: "'a \<Rightarrow> 'p \<Rightarrow> 'p"
    and owned :: "'a \<Rightarrow> bool"
  assumes free_distinct: "free_of p xs \<Longrightarrow> distinct xs \<and> (\<forall>x \<in> set xs. owned x)"
    and take1_Nil: "free_of p [] \<Longrightarrow> take1 p = (None, p)"
    and take1_Cons: "free_of p (x # xs) \<Longrightarrow> \<exists>p'. take1 p = (Some x, p') \<and> free_of p' xs"
    and give_free: "free_of p xs \<Longrightarrow> owned x \<Longrightarrow> x \<notin> set xs \<Longrightarrow> free_of (give x p) (x # xs)"
begin

text \<open>\<open>take_n n p\<close> allocates \<open>n\<close> times, collecting what it gets.\<close>

primrec take_n :: "nat \<Rightarrow> 'p \<Rightarrow> 'a option list \<times> 'p" where
  "take_n 0 p = ([], p)"
| "take_n (Suc n) p = (let (r, p') = take1 p; (rs, p'') = take_n n p' in (r # rs, p''))"

lemma take_n_all:
  "free_of p xs \<Longrightarrow> n \<le> length xs \<Longrightarrow>
     fst (take_n n p) = map Some (take n xs) \<and> free_of (snd (take_n n p)) (drop n xs)"
proof (induction n arbitrary: p xs)
  case (Suc n)
  then obtain x ys where xs: "xs = x # ys" by (cases xs) auto
  with Suc.prems obtain p' where p': "take1 p = (Some x, p')" "free_of p' ys"
    using take1_Cons by blast
  from Suc.IH [OF p'(2)] Suc.prems(2) xs p'(1) show ?case by (simp add: case_prod_unfold)
qed simp

text \<open>A pool gives out its whole free list, no element twice, and then nothing.\<close>

lemma exhaust:
  assumes "free_of p xs"
  shows "fst (take_n (length xs) p) = map Some xs"
    and "distinct (fst (take_n (length xs) p))"
    and "fst (take1 (snd (take_n (length xs) p))) = None"
  using take_n_all [OF assms, of "length xs"] free_distinct [OF assms] take1_Nil
  by (auto simp: distinct_map)

text \<open>The element released last is handed out next.\<close>

lemma give_take:
  assumes "free_of p xs" "owned x" "x \<notin> set xs"
  obtains p' where "take1 (give x p) = (Some x, p')" "free_of p' xs"
  using give_free [OF assms] take1_Cons by blast

end

definition slot_take :: "SlotPool \<Rightarrow> nat option \<times> SlotPool" where
  "slot_take sl = (let (i, sl') = slot_alloc sl in (if i = NULL_IDX then None else Some i, sl'))"

interpretation slotp: free_list_pool pool_free slot_take free_slot "\<lambda>x. x < kMaxOrders"
proof unfold_locales
  fix p :: SlotPool and x xs
  show "distinct xs \<and> (\<forall>x\<in>set xs. x < kMaxOrders)" if "pool_free p xs"
    using that by (auto simp: pool_free_def)
  show "slot_take p = (None, p)" if "pool_free p []"
    using slot_alloc_empty [OF that] by (simp add: slot_take_def)
  show "\<exists>p'. slot_take p = (Some x, p') \<and> pool_free p' xs" if "pool_free p (x # xs)"
    using slot_alloc_next [OF that] that by (auto simp: slot_take_def pool_free_def)
  show "pool_free (free_slot x p) (x # xs)" if "pool_free p xs" "x < kMaxOrders" "x \<notin> set xs"
    using that by (rule free_slot_pool)
qed

text \<open>A fresh pool hands out each of its slots exactly once, in ascending order, and then reports
  exhaustion.\<close>

lemma slot_pool_exhausts:
  "fst (slotp.take_n kMaxOrders (slots_init sl)) = map Some [0..<kMaxOrders] \<and>
   fst (slot_alloc (snd (slotp.take_n kMaxOrders (slots_init sl)))) = NULL_IDX"
proof -
  have len: "length [0..<kMaxOrders] = kMaxOrders" by simp
  have "fst (slot_take (snd (slotp.take_n kMaxOrders (slots_init sl)))) = None"
    using slotp.exhaust(3) [OF pool_free_init, of sl] unfolding len .
  then have "fst (slot_alloc (snd (slotp.take_n kMaxOrders (slots_init sl)))) = NULL_IDX"
    by (auto simp: slot_take_def case_prod_unfold Let_def split: if_splits)
  moreover have "fst (slotp.take_n kMaxOrders (slots_init sl)) = map Some [0..<kMaxOrders]"
    using slotp.exhaust(1) [OF pool_free_init, of sl] unfolding len .
  ultimately show ?thesis by blast
qed

text \<open>Releasing a slot and allocating again gives that slot back, and the rest of the free list is as before.\<close>

lemma slot_pool_lifo:
  assumes "pool_free sl fs" "x < kMaxOrders" "x \<notin> set fs"
  shows "\<exists>sl'. slot_alloc (free_slot x sl) = (x, sl') \<and> pool_free sl' fs"
  using slot_alloc_next [OF free_slot_pool [OF assms]] by auto

lemma slot_pool_lifo_witness:
  "\<exists>sl'. slot_alloc (free_slot 0 (snd (slot_alloc (slots_init undefined)))) = (0, sl') \<and> pool_free sl' [1..<kMaxOrders]"
proof -
  have "[0..<kMaxOrders] = 0 # [1..<kMaxOrders]" by (simp add: upt_conv_Cons)
  then have "pool_free (snd (slot_alloc (slots_init undefined))) [1..<kMaxOrders]"
    using slot_alloc_next(2) [of "slots_init undefined" 0 "[1..<kMaxOrders]"] pool_free_init [of undefined] by simp
  from slot_pool_lifo [OF this, of 0] show ?thesis by simp
qed

end
