(* ===== verification/Book_Side.thy ===== *)
theory Book_Side
  imports Intrusive_List
begin

text \<open>
  \<^verbatim>\<open>OrderBook::Side\<close> (\<^verbatim>\<open>order_book.hpp\<close> 42-58, \<^verbatim>\<open>order_book.cpp\<close> 11-88): one side of the book as a
  struct of arrays, price levels sorted best first.  \<open>levels\<close> reads the arrays as a list of levels,
  and every operation is characterised by what it does to that list.  The vectorised level search
  is modelled down to the byte mask and proved equal to the scalar loop.
\<close>

subsection \<open>The arrays and their operations\<close>

definition kMaxLevels :: nat where
  "kMaxLevels = 4096"

record BookSide =
  bs_prices :: "Price arr"
  bs_qtys :: "Qty arr"
  bs_order_counts :: "u32 arr"
  bs_head_idxs :: "nat arr"
  bs_tail_idxs :: "nat arr"
  bs_count :: nat

function find_level_loop :: "Price arr \<Rightarrow> nat \<Rightarrow> Price \<Rightarrow> nat \<Rightarrow> int" where
  "find_level_loop prices count p i =
     (if i < count then if prices i = p then int i else find_level_loop prices count p (i + 1)
      else - 1)"
  by pat_completeness auto
termination
  by (relation "measure (\<lambda>(_, count, _, i). count - i)") auto

declare find_level_loop.simps [simp del]

text \<open>\<^verbatim>\<open>Side::find_level\<close>, scalar branch.  The flag \<^verbatim>\<open>descending\<close> is unused in the source.\<close>

definition find_level :: "BookSide \<Rightarrow> Price \<Rightarrow> int" where
  "find_level s p = find_level_loop (bs_prices s) (bs_count s) p 0"

text \<open>The AVX2 instructions: \<^verbatim>\<open>_mm256_cmpeq_epi64\<close> sets a 64-bit lane to all ones where the operands
  agree, \<^verbatim>\<open>_mm256_movemask_epi8\<close> collects the top bit of each of the 32 bytes, \<^verbatim>\<open>__builtin_ctz\<close> counts
  trailing zeros (of a nonzero mask).\<close>

definition cmpeq_epi64 :: "Price list \<Rightarrow> Price list \<Rightarrow> u64 list" where
  "cmpeq_epi64 xs ys = map2 (\<lambda>x y. if x = y then - 1 else 0) xs ys"

definition movemask_epi8 :: "u64 list \<Rightarrow> u32" where
  "movemask_epi8 lanes =
     horner_sum of_bool 2 (map (\<lambda>b. bit (lanes ! (b div 8)) (8 * (b mod 8) + 7)) [0..<32])"

definition ctz :: "u32 \<Rightarrow> nat" where
  "ctz w = length (takeWhile (\<lambda>i. \<not> bit w i) [0..<32])"

function find_level_avx2_loop :: "Price arr \<Rightarrow> nat \<Rightarrow> Price \<Rightarrow> nat \<Rightarrow> int" where
  "find_level_avx2_loop prices count target i =
     (if i + 4 \<le> count then
        let chunk = map prices [i, i + 1, i + 2, i + 3];
            msk = movemask_epi8 (cmpeq_epi64 chunk (replicate 4 target))
        in if msk \<noteq> 0 then int (i + ctz msk div 8)
           else find_level_avx2_loop prices count target (i + 4)
      else find_level_loop prices count target i)"
  by pat_completeness auto
termination
  by (relation "measure (\<lambda>(_, count, _, i). count - i)") auto

declare find_level_avx2_loop.simps [simp del]

definition find_level_avx2 :: "Price arr \<Rightarrow> nat \<Rightarrow> Price \<Rightarrow> int" where
  "find_level_avx2 prices count target = find_level_avx2_loop prices count target 0"

function insert_pos :: "bool \<Rightarrow> Price arr \<Rightarrow> nat \<Rightarrow> Price \<Rightarrow> nat \<Rightarrow> nat" where
  "insert_pos descending prices count p pos =
     (if pos < count \<and> (if descending then prices pos > p else prices pos < p)
      then insert_pos descending prices count p (pos + 1) else pos)"
  by pat_completeness auto
termination
  by (relation "measure (\<lambda>(_, _, count, _, pos). count - pos)") auto

declare insert_pos.simps [simp del]

text \<open>The five \<^verbatim>\<open>memmove\<close>s of \<^verbatim>\<open>insert_level\<close> and of \<^verbatim>\<open>remove_level\<close>, one array at a time, under the
  source's guards.\<close>

definition open_gap :: "nat \<Rightarrow> nat \<Rightarrow> 'a arr \<Rightarrow> 'a arr" where
  "open_gap count pos a = (if pos < count then memmove a (pos + 1) pos (count - pos) else a)"

definition close_gap :: "nat \<Rightarrow> nat \<Rightarrow> 'a arr \<Rightarrow> 'a arr" where
  "close_gap count idx a =
     (let n = count - idx - 1 in if n > 0 then memmove a idx (idx + 1) n else a)"

definition insert_level :: "Price \<Rightarrow> bool \<Rightarrow> BookSide \<Rightarrow> int \<times> BookSide" where
  "insert_level p descending s =
     (if bs_count s \<ge> kMaxLevels then (- 1, s)
      else
        let pos = insert_pos descending (bs_prices s) (bs_count s) p 0
        in (int pos, s\<lparr>
              bs_prices := (open_gap (bs_count s) pos (bs_prices s))(pos := p),
              bs_qtys := (open_gap (bs_count s) pos (bs_qtys s))(pos := 0),
              bs_order_counts := (open_gap (bs_count s) pos (bs_order_counts s))(pos := 0),
              bs_head_idxs := (open_gap (bs_count s) pos (bs_head_idxs s))(pos := NULL_IDX),
              bs_tail_idxs := (open_gap (bs_count s) pos (bs_tail_idxs s))(pos := NULL_IDX),
              bs_count := bs_count s + 1\<rparr>))"

text \<open>\<^verbatim>\<open>remove_level\<close> asserts \<^verbatim>\<open>idx < count\<close>; every caller establishes it.\<close>

definition remove_level :: "nat \<Rightarrow> BookSide \<Rightarrow> BookSide" where
  "remove_level idx s = s\<lparr>
     bs_prices := close_gap (bs_count s) idx (bs_prices s),
     bs_qtys := close_gap (bs_count s) idx (bs_qtys s),
     bs_order_counts := close_gap (bs_count s) idx (bs_order_counts s),
     bs_head_idxs := close_gap (bs_count s) idx (bs_head_idxs s),
     bs_tail_idxs := close_gap (bs_count s) idx (bs_tail_idxs s),
     bs_count := bs_count s - 1\<rparr>"

subsection \<open>The side as a list of levels\<close>

record Level =
  lv_price :: Price
  lv_qty :: Qty
  lv_count :: u32
  lv_head :: nat
  lv_tail :: nat

definition level_at :: "BookSide \<Rightarrow> nat \<Rightarrow> Level" where
  "level_at s i = \<lparr>lv_price = bs_prices s i, lv_qty = bs_qtys s i, lv_count = bs_order_counts s i,
     lv_head = bs_head_idxs s i, lv_tail = bs_tail_idxs s i\<rparr>"

definition levels :: "BookSide \<Rightarrow> Level list" where
  "levels s = map (level_at s) [0..<bs_count s]"

definition empty_level :: "Price \<Rightarrow> Level" where
  "empty_level p = \<lparr>lv_price = p, lv_qty = 0, lv_count = 0, lv_head = NULL_IDX, lv_tail = NULL_IDX\<rparr>"

text \<open>\<open>better descending p q\<close>: a level at price \<open>p\<close> stands before one at \<open>q\<close> (bids are descending).\<close>

definition better :: "bool \<Rightarrow> Price \<Rightarrow> Price \<Rightarrow> bool" where
  "better descending p q = (if descending then p > q else p < q)"

definition best_first :: "bool \<Rightarrow> Level list \<Rightarrow> bool" where
  "best_first descending ls = sorted_wrt (\<lambda>l m. better descending (lv_price l) (lv_price m)) ls"

lemma length_levels [simp]: "length (levels s) = bs_count s"
  by (simp add: levels_def)

lemma levels_nth: "i < bs_count s \<Longrightarrow> levels s ! i = level_at s i"
  by (simp add: levels_def)

lemma level_at_sel [simp]:
  "lv_price (level_at s i) = bs_prices s i" "lv_qty (level_at s i) = bs_qtys s i"
  "lv_count (level_at s i) = bs_order_counts s i" "lv_head (level_at s i) = bs_head_idxs s i"
  "lv_tail (level_at s i) = bs_tail_idxs s i"
  by (simp_all add: level_at_def)

lemma levels_split:
  assumes "levels s = A @ l # B"
  shows "length A < bs_count s" "l = level_at s (length A)"
proof -
  show "length A < bs_count s" using assms by (metis length_levels length_append length_Cons
        less_add_Suc1 add_Suc_right)
  then show "l = level_at s (length A)" using assms levels_nth by (metis nth_append_length)
qed

lemma levels_Cons:
  "levels s = l # B \<Longrightarrow> 0 < bs_count s \<and> l = level_at s 0"
  using levels_split [of s "[]" l B] by simp

lemma levels_empty: "levels s = [] \<longleftrightarrow> bs_count s = 0"
  by (simp add: levels_def)

lemma better_linear: "p \<noteq> q \<Longrightarrow> better d p q \<or> better d q p"
  by (auto simp: better_def)

lemma better_irrefl [simp]: "\<not> better d p p"
  by (simp add: better_def)

lemma better_trans: "better d p q \<Longrightarrow> better d q r \<Longrightarrow> better d p r"
  by (auto simp: better_def split: if_splits)

subsection \<open>Updating one level\<close>

lemma levels_upd:
  assumes "i < bs_count s" "bs_count s' = bs_count s"
    and "\<And>j. j \<noteq> i \<Longrightarrow> level_at s' j = level_at s j"
  shows "levels s' = (levels s)[i := level_at s' i]"
  using assms by (intro nth_equalityI) (auto simp: levels_nth nth_list_update)

lemma levels_upd_split:
  assumes "levels s = A @ l # B" "bs_count s' = bs_count s"
    and "\<And>j. j \<noteq> length A \<Longrightarrow> level_at s' j = level_at s j"
  shows "levels s' = A @ level_at s' (length A) # B"
  using levels_upd [of "length A" s s'] assms levels_split(1) [OF assms(1)]
  by (simp add: list_update_append)

subsection \<open>Searching\<close>

lemma find_level_loop_spec:
  "find_level_loop prices count p i =
     (case find (\<lambda>j. prices j = p) [i..<count] of None \<Rightarrow> - 1 | Some j \<Rightarrow> int j)"
proof (induction prices count p i rule: find_level_loop.induct)
  case (1 prices count p i)
  then show ?case
    by (subst find_level_loop.simps) (auto simp: upt_conv_Cons)
qed

lemma find_level_absent:
  "find_level s p < 0 \<longleftrightarrow> p \<notin> lv_price ` set (levels s)"
  by (auto simp: find_level_def find_level_loop_spec levels_def find_None_iff find_Some_iff image_image
      split: option.splits)

lemma find_level_absent_val: "find_level s p < 0 \<Longrightarrow> find_level s p = - 1"
  by (simp add: find_level_def find_level_loop_spec split: option.splits)

lemma find_level_present:
  assumes "\<not> find_level s p < 0"
  obtains A l B where "levels s = A @ l # B" "find_level s p = int (length A)" "lv_price l = p"
proof -
  from assms obtain j where j: "find (\<lambda>j. bs_prices s j = p) [0..<bs_count s] = Some j"
    and eq: "find_level s p = int j"
    by (auto simp: find_level_def find_level_loop_spec split: option.splits)
  then have "j < bs_count s" "bs_prices s j = p" by (auto simp: find_Some_iff)
  then have "levels s = take j (levels s) @ level_at s j # drop (Suc j) (levels s)"
    by (metis id_take_nth_drop length_levels levels_nth)
  then show thesis using that \<open>j < bs_count s\<close> \<open>bs_prices s j = p\<close> eq
    by (metis length_levels length_take less_imp_le level_at_sel(1) min.absorb2)
qed

lemma find_level_unique:
  assumes "best_first d (levels s)" "levels s = A @ l # B"
  shows "find_level s (lv_price l) = int (length A)"
proof -
  have "\<not> find_level s (lv_price l) < 0" using assms(2) by (auto simp: find_level_absent)
  then obtain A' l' B' where s': "levels s = A' @ l' # B'" "find_level s (lv_price l) = int (length A')"
    "lv_price l' = lv_price l" by (rule find_level_present)
  have "i = j" if "i < bs_count s" "j < bs_count s" "bs_prices s i = bs_prices s j" for i j
    using assms(1) that unfolding best_first_def sorted_wrt_iff_nth_less
    by (metis better_irrefl length_levels level_at_sel(1) levels_nth nat_neq_iff)
  then have "length A = length A'"
    using levels_split [OF assms(2)] levels_split [OF s'(1)] s'(3) by simp
  with s'(2) show ?thesis by simp
qed

subsection \<open>Inserting and removing a level\<close>

lemma insert_pos_spec:
  fixes prices :: "Price arr" and p :: Price and d :: bool
  assumes "pos \<le> count"
  defines "q \<equiv> insert_pos d prices count p pos"
  shows "pos \<le> q" "q \<le> count" "\<And>i. pos \<le> i \<Longrightarrow> i < q \<Longrightarrow> better d (prices i) p"
    "q < count \<Longrightarrow> \<not> better d (prices q) p"
proof -
  have "pos \<le> q \<and> q \<le> count \<and> (\<forall>i. pos \<le> i \<longrightarrow> i < q \<longrightarrow> better d (prices i) p) \<and>
      (q < count \<longrightarrow> \<not> better d (prices q) p)"
    unfolding q_def using assms(1)
  proof (induction d prices count p pos rule: insert_pos.induct)
    case (1 d prices count p pos)
    let ?go = "pos < count \<and> better d (prices pos) p"
    have unfold: "insert_pos d prices count p pos =
        (if ?go then insert_pos d prices count p (pos + 1) else pos)"
      by (subst insert_pos.simps) (simp add: better_def)
    show ?case
    proof (cases ?go)
      case True
      then have "pos < count \<and> (if d then prices pos > p else prices pos < p)"
        by (simp add: better_def)
      from "1.IH" [OF this] True show ?thesis
        unfolding unfold by (auto simp: Suc_le_eq) (metis le_neq_implies_less)+
    qed (use "1.prems" unfold in auto)
  qed
  then show "pos \<le> q" "q \<le> count" "\<And>i. pos \<le> i \<Longrightarrow> i < q \<Longrightarrow> better d (prices i) p"
    "q < count \<Longrightarrow> \<not> better d (prices q) p" by auto
qed

lemma open_gap_apply:
  "pos \<le> count \<Longrightarrow> i \<noteq> pos \<Longrightarrow> i \<le> count \<Longrightarrow> open_gap count pos a i = (if i < pos then a i else a (i - 1))"
  by (auto simp: open_gap_def memmove_def)

lemma close_gap_apply:
  "idx < count \<Longrightarrow> i < count - 1 \<Longrightarrow> close_gap count idx a i = (if i < idx then a i else a (i + 1))"
  by (auto simp: close_gap_def memmove_def Let_def)

lemma insert_level_full: "bs_count s \<ge> kMaxLevels \<Longrightarrow> insert_level p d s = (- 1, s)"
  by (simp add: insert_level_def)

lemma insert_level_levels:
  assumes room: "bs_count s < kMaxLevels"
  obtains A B s' where "insert_level p d s = (int (length A), s')" "levels s = A @ B"
    "levels s' = A @ empty_level p # B" "bs_count s' = bs_count s + 1"
    "\<And>l. l \<in> set A \<Longrightarrow> better d (lv_price l) p"
    "B \<noteq> [] \<Longrightarrow> \<not> better d (lv_price (hd B)) p"
proof -
  define pos where "pos = insert_pos d (bs_prices s) (bs_count s) p 0"
  note spec = insert_pos_spec [where pos = 0 and count = "bs_count s" and d = d and prices = "bs_prices s" and p = p,
      folded pos_def]
  define s' where "s' = snd (insert_level p d s)"
  have ins: "insert_level p d s = (int pos, s')"
    using room by (simp add: s'_def insert_level_def pos_def Let_def)
  have le: "pos \<le> bs_count s" using spec(2) by simp
  have cnt: "bs_count s' = bs_count s + 1"
    using room by (simp add: s'_def insert_level_def Let_def)
  have at: "level_at s' i = (if i < pos then level_at s i else if i = pos then empty_level p
      else level_at s (i - 1))" if "i \<le> bs_count s" for i
    using room le that
    by (simp add: s'_def insert_level_def Let_def pos_def [symmetric] level_at_def empty_level_def
        open_gap_apply)
  have "levels s' = take pos (levels s) @ empty_level p # drop pos (levels s)"
    by (rule nth_equalityI) (use le cnt at in \<open>auto simp: levels_nth nth_append nth_Cons'\<close>)
  moreover have "better d (lv_price l) p" if l: "l \<in> set (take pos (levels s))" for l
  proof -
    from l le obtain i where "i < pos" "l = levels s ! i" by (auto simp: in_set_conv_nth)
    with le show ?thesis using spec(3) [of i] by (simp add: levels_nth)
  qed
  moreover have "\<not> better d (lv_price (hd (drop pos (levels s)))) p" if "drop pos (levels s) \<noteq> []"
    using that spec(4) by (simp add: hd_drop_conv_nth levels_nth)
  ultimately show thesis
    using ins cnt le by (intro that [of "take pos (levels s)" s' "drop pos (levels s)"]) auto
qed

lemma insert_level_best_first:
  assumes "best_first d (A @ B)" "p \<notin> lv_price ` set (A @ B)"
    "\<And>l. l \<in> set A \<Longrightarrow> better d (lv_price l) p" "B \<noteq> [] \<Longrightarrow> \<not> better d (lv_price (hd B)) p"
    "lv_price l = p"
  shows "best_first d (A @ l # B)"
proof -
  have "better d p (lv_price m)" if "m \<in> set B" for m
  proof -
    from that obtain b bs where B: "B = b # bs" by (cases B) auto
    then have "lv_price b \<noteq> p" using assms(2) by auto
    then have "better d p (lv_price b)" using B assms(4) better_linear by auto
    then show ?thesis
      using that B assms(1) by (auto simp: best_first_def sorted_wrt_append dest: better_trans)
  qed
  with assms show ?thesis by (auto simp: best_first_def sorted_wrt_append)
qed

lemma remove_level_levels:
  assumes "levels s = A @ l # B"
  shows "levels (remove_level (length A) s) = A @ B"
    and "bs_count (remove_level (length A) s) = bs_count s - 1"
proof -
  have lt: "length A < bs_count s" using assms by (rule levels_split)
  show cnt: "bs_count (remove_level (length A) s) = bs_count s - 1" by (simp add: remove_level_def)
  have at: "level_at (remove_level (length A) s) i =
      (if i < length A then level_at s i else level_at s (i + 1))" if "i < bs_count s - 1" for i
    using lt that by (simp add: remove_level_def level_at_def close_gap_apply)
  have "levels (remove_level (length A) s) = take (length A) (levels s) @ drop (Suc (length A)) (levels s)"
    by (rule nth_equalityI) (use lt cnt at in \<open>auto simp: levels_nth nth_append\<close>)
  then show "levels (remove_level (length A) s) = A @ B" by (simp add: assms)
qed

lemma best_first_remove: "best_first d (A @ l # B) \<Longrightarrow> best_first d (A @ B)"
  by (auto simp: best_first_def sorted_wrt_append)

lemma best_first_same_prices:
  "map lv_price ls = map lv_price ms \<Longrightarrow> best_first d ls = best_first d ms"
proof -
  have eq: "best_first d ls = sorted_wrt (better d) (map lv_price ls)" for ls
    by (simp add: best_first_def sorted_wrt_map)
  show "map lv_price ls = map lv_price ms \<Longrightarrow> ?thesis" by (simp only: eq)
qed

subsection \<open>Vectorised search equals the scalar search\<close>

lemma cmpeq_lane:
  "length xs = 4 \<Longrightarrow> k < 4 \<Longrightarrow>
     cmpeq_epi64 xs (replicate 4 t) ! k = (if xs ! k = t then - 1 else 0)"
  by (simp add: cmpeq_epi64_def)

lemma bit_movemask:
  "bit (movemask_epi8 (cmpeq_epi64 [a, b, c, d] (replicate 4 t))) n \<longleftrightarrow>
     n < 32 \<and> [a, b, c, d] ! (n div 8) = t"
proof (cases "n < 32")
  case True
  then have lane: "n div 8 < 4" by simp
  have "n mod 8 < 8" by simp
  then have "8 * (n mod 8) + 7 < 64" by linarith
  then have "bit (cmpeq_epi64 [a, b, c, d] (replicate 4 t) ! (n div 8)) (8 * (n mod 8) + 7)
      \<longleftrightarrow> [a, b, c, d] ! (n div 8) = t"
    by (simp only: cmpeq_lane [OF _ lane] list.size) simp
  with True show ?thesis
    by (simp add: movemask_epi8_def bit_horner_sum_bit_word_iff)
next
  case False
  then show ?thesis by (simp add: movemask_epi8_def bit_horner_sum_bit_word_iff)
qed

lemma movemask_zero:
  "movemask_epi8 (cmpeq_epi64 [a, b, c, d] (replicate 4 t)) = 0 \<longleftrightarrow> t \<notin> {a, b, c, d}"
  (is "?m = 0 \<longleftrightarrow> _")
proof -
  have "?m = 0 \<longleftrightarrow> (\<forall>n<32. \<not> bit ?m n)" by (auto simp: bit_eq_iff bit_movemask)
  also have "\<dots> \<longleftrightarrow> (\<forall>n<32. [a, b, c, d] ! (n div 8) \<noteq> t)" by (auto simp: bit_movemask)
  also have "\<dots> \<longleftrightarrow> (\<forall>k<4. [a, b, c, d] ! k \<noteq> t)"
  proof (intro iffI allI impI)
    fix k :: nat assume all: "\<forall>n<32. [a, b, c, d] ! (n div 8) \<noteq> t" and "k < 4"
    with all [rule_format, of "8 * k"] show "[a, b, c, d] ! k \<noteq> t" by simp
  qed auto
  also have "\<dots> \<longleftrightarrow> t \<notin> {a, b, c, d}" by (auto simp: numeral_eq_Suc less_Suc_eq)
  finally show ?thesis .
qed

lemma ctz_movemask:
  assumes "k < 4" "[a, b, c, d] ! k = t" "\<And>j. j < k \<Longrightarrow> [a, b, c, d] ! j \<noteq> t"
  shows "ctz (movemask_epi8 (cmpeq_epi64 [a, b, c, d] (replicate 4 t))) = 8 * k"
proof -
  let ?m = "movemask_epi8 (cmpeq_epi64 [a, b, c, d] (replicate 4 t))"
  have "[0..<32] = [0..<8 * k] @ 8 * k # [Suc (8 * k)..<32]"
    using assms(1) map_upt_split [of "8 * k" 32 "\<lambda>i. i"] by simp
  moreover have "\<not> bit ?m i" if "i < 8 * k" for i
    using that assms(3) [of "i div 8"] by (auto simp: bit_movemask less_mult_imp_div_less mult.commute)
  moreover have "bit ?m (8 * k)" using assms(1,2) by (simp add: bit_movemask)
  ultimately have "takeWhile (\<lambda>i. \<not> bit ?m i) [0..<32] = [0..<8 * k]"
    by (simp only:) (subst takeWhile_append2, simp_all)
  then show ?thesis by (simp add: ctz_def)
qed

lemma find_level_chunk:
  assumes "i + 4 \<le> count"
  shows "find_level_loop prices count t i =
     (if prices i = t then int i else if prices (i + 1) = t then int (i + 1)
      else if prices (i + 2) = t then int (i + 2) else if prices (i + 3) = t then int (i + 3)
      else find_level_loop prices count t (i + 4))"
  using assms
  by (simp add: find_level_loop.simps [of prices count t i] find_level_loop.simps [of prices count t "Suc i"]
      find_level_loop.simps [of prices count t "Suc (Suc i)"]
      find_level_loop.simps [of prices count t "Suc (Suc (Suc i))"] numeral_eq_Suc)

lemma find_level_avx2_loop_eq:
  "find_level_avx2_loop prices count t i = find_level_loop prices count t i"
proof (induction prices count t i rule: find_level_avx2_loop.induct)
  case (1 prices count t i)
  let ?c = "[prices i, prices (i + 1), prices (i + 2), prices (i + 3)]"
  let ?m = "movemask_epi8 (cmpeq_epi64 ?c (replicate 4 t))"
  show ?case
  proof (cases "i + 4 \<le> count")
    case True
    have unfold: "find_level_avx2_loop prices count t i =
        (if ?m \<noteq> 0 then int (i + ctz ?m div 8) else find_level_avx2_loop prices count t (i + 4))"
      using True by (subst find_level_avx2_loop.simps) (simp add: Let_def)
    show ?thesis
    proof (cases "t \<in> set ?c")
      case False
      then have "?m = 0" by (simp add: movemask_zero)
      with False True "1" show ?thesis unfolding unfold find_level_chunk [OF True] by auto
    next
      case hit: True
      have "length ?c = 4" by simp
      then have "\<exists>k. k < 4 \<and> ?c ! k = t" using hit unfolding in_set_conv_nth by metis
      then obtain k where k: "k < 4" "?c ! k = t" and least: "\<forall>j<k. \<not> (j < 4 \<and> ?c ! j = t)"
        using exists_least_iff [of "\<lambda>k. k < 4 \<and> ?c ! k = t"] by blast
      then have first: "\<And>j. j < k \<Longrightarrow> ?c ! j \<noteq> t" by force
      have "?m \<noteq> 0" using hit by (simp add: movemask_zero)
      moreover have "ctz ?m div 8 = k" using ctz_movemask [OF k first] by simp
      moreover have "find_level_loop prices count t i = int (i + k)"
        unfolding find_level_chunk [OF True] using k first [of 0] first [of 1] first [of 2]
        by (auto simp: less_Suc_eq numeral_eq_Suc)
      ultimately show ?thesis unfolding unfold by simp
    qed
  qed (subst find_level_avx2_loop.simps, simp)
qed

text \<open>C14. The vectorised search finds the same level as the scalar one on every array, length and price.\<close>

theorem find_level_avx2_eq: "find_level_avx2 (bs_prices s) (bs_count s) p = find_level s p"
  by (simp add: find_level_avx2_def find_level_def find_level_avx2_loop_eq)

end
