(* ===== verification/Order_Book.thy ===== *)
theory Order_Book
  imports Order_Index Slot_Pool Book_Side
begin

text \<open>
  \<^verbatim>\<open>OrderBook\<close> (\<^verbatim>\<open>order_book.hpp\<close> 22-132, \<^verbatim>\<open>order_book.cpp\<close> 158-480): the operations of the book on its
  arrays, as the code performs them.  The match callback is the sequence of execution reports an
  operation emits, in order; \<open>ob_match_cb\<close> says whether a callback is bound.  Every operation that
  probes the order index or walks a queue returns an \<open>option\<close>, \<open>None\<close> standing for a loop that does
  not end; that they do return is part of the refinement theorems.
\<close>

subsection \<open>State\<close>

record OrderBook =
  ob_match_cb :: bool
  ob_symbol :: SymbolId
  ob_bids :: BookSide
  ob_asks :: BookSide
  ob_slots :: SlotPool
  ob_index :: OrderIndex
  ob_stat_orders :: u64
  ob_stat_matches :: u64
  ob_stat_cancelled :: u64
  ob_stat_rejected :: u64
  ob_stat_self_trade_prevented :: u64

text \<open>\<^verbatim>\<open>Side& side = is_bid ? bids_ : asks_\<close>\<close>

definition book_side :: "bool \<Rightarrow> OrderBook \<Rightarrow> BookSide" where
  "book_side is_bid b = (if is_bid then ob_bids b else ob_asks b)"

definition set_side :: "bool \<Rightarrow> BookSide \<Rightarrow> OrderBook \<Rightarrow> OrderBook" where
  "set_side is_bid s b = (if is_bid then b\<lparr>ob_bids := s\<rparr> else b\<lparr>ob_asks := s\<rparr>)"

text \<open>The constructor.  \<open>raw\<close> is the indeterminate content of the arrays before construction.\<close>

definition new_book :: "SymbolId \<Rightarrow> bool \<Rightarrow> OrderBook \<Rightarrow> OrderBook" where
  "new_book symbol on_match raw = raw\<lparr>
     ob_match_cb := on_match,
     ob_symbol := symbol,
     ob_bids := (ob_bids raw)\<lparr>bs_count := 0\<rparr>,
     ob_asks := (ob_asks raw)\<lparr>bs_count := 0\<rparr>,
     ob_slots := slots_init (ob_slots raw),
     ob_index := index_init,
     ob_stat_orders := 0,
     ob_stat_matches := 0,
     ob_stat_cancelled := 0,
     ob_stat_rejected := 0,
     ob_stat_self_trade_prevented := 0\<rparr>"

subsection \<open>Matching\<close>

text \<open>The limit check shared by \<^verbatim>\<open>try_match\<close> and \<^verbatim>\<open>available_liquidity\<close>: only a true market order
  ignores its price.\<close>

definition price_blocks :: "Order \<Rightarrow> Price \<Rightarrow> bool" where
  "price_blocks od px = (o_type od \<noteq> Market \<and>
     (is_buy od \<and> o_price od < px \<or> \<not> is_buy od \<and> o_price od > px))"

definition stp_wall :: "Order \<Rightarrow> SlotPool \<Rightarrow> nat \<Rightarrow> bool" where
  "stp_wall od sl slot = (o_account_id od \<noteq> 0 \<and> o_account_id od = sl_accounts sl slot)"

text \<open>The report fired for a fill of \<open>fill_qty\<close> against \<open>slot\<close>; \<open>od\<close> is the aggressor after the fill.\<close>

definition fill_report :: "OrderBook \<Rightarrow> Order \<Rightarrow> nat \<Rightarrow> Price \<Rightarrow> Qty \<Rightarrow> ExecutionReport" where
  "fill_report b od slot best_passive fill_qty = \<lparr>
     r_order_id = o_id od,
     r_contra_order_id = sl_ids (ob_slots b) slot,
     r_exec_price = best_passive,
     r_exec_qty = fill_qty,
     r_leaves_qty = o_qty_remaining od,
     r_symbol = ob_symbol b,
     r_side = o_side od,
     r_exec_type = (if o_qty_remaining od = 0 then ExecFill else ExecPartialFill)\<rparr>"

text \<open>Dequeue of a fully filled passive order (\<^verbatim>\<open>order_book.cpp\<close> 413-424).\<close>

definition dequeue_filled :: "bool \<Rightarrow> nat \<Rightarrow> OrderBook \<Rightarrow> OrderBook option" where
  "dequeue_filled passive slot b = (
     let sd = book_side passive b;
         sl = ob_slots b;
         next = sl_nexts sl slot;
         sd1 = sd\<lparr>bs_head_idxs := (bs_head_idxs sd)(0 := next)\<rparr>;
         sd2 = (if next = NULL_IDX then sd1\<lparr>bs_tail_idxs := (bs_tail_idxs sd1)(0 := NULL_IDX)\<rparr> else sd1);
         sl1 = (if next = NULL_IDX then sl else sl\<lparr>sl_prevs := (sl_prevs sl)(next := NULL_IDX)\<rparr>);
         sd3 = sd2\<lparr>bs_order_counts := (bs_order_counts sd2)(0 := bs_order_counts sd2 0 - 1)\<rparr>
     in do {
       (_, idx) \<leftarrow> index_remove (ob_index b) (sl_ids sl1 slot);
       Some (set_side passive sd3 (b\<lparr>ob_slots := free_slot slot sl1, ob_index := idx\<rparr>)) })"

text \<open>One iteration of the inner loop of \<^verbatim>\<open>try_match\<close>, past the self-trade check.\<close>

definition match_step ::
  "bool \<Rightarrow> Price \<Rightarrow> nat \<Rightarrow> Order \<Rightarrow> OrderBook \<Rightarrow> (Order \<times> OrderBook \<times> ExecutionReport list) option" where
  "match_step passive best_passive slot od b = (
     let sl = ob_slots b;
         sd = book_side passive b;
         fill_qty = min (o_qty_remaining od) (sl_qtys sl slot);
         sl1 = sl\<lparr>sl_qtys := (sl_qtys sl)(slot := sl_qtys sl slot - fill_qty)\<rparr>;
         sd1 = sd\<lparr>bs_qtys := (bs_qtys sd)(0 := bs_qtys sd 0 - fill_qty)\<rparr>;
         od1 = od\<lparr>o_qty_remaining := o_qty_remaining od - fill_qty\<rparr>;
         b1 = set_side passive sd1 (b\<lparr>ob_slots := sl1, ob_stat_matches := ob_stat_matches b + 1\<rparr>);
         rpts = (if ob_match_cb b then [fill_report b1 od1 slot best_passive fill_qty] else [])
     in if sl_qtys sl1 slot = 0 then do {
          b2 \<leftarrow> dequeue_filled passive slot b1;
          Some (od1, b2, rpts) }
        else Some (od1, b1, rpts))"

text \<open>The inner loop: work the queue of level 0 until it is empty, the aggressor is filled, or the
  head order belongs to the aggressor's own account (first result \<open>True\<close>).\<close>

partial_function (option) match_level ::
  "bool \<Rightarrow> Price \<Rightarrow> Order \<Rightarrow> OrderBook \<Rightarrow> ExecutionReport list \<Rightarrow>
     (bool \<times> Order \<times> OrderBook \<times> ExecutionReport list) option" where
  "match_level passive best_passive od b out = (
     let slot = bs_head_idxs (book_side passive b) 0
     in if slot \<noteq> NULL_IDX \<and> o_qty_remaining od > 0 then
          if stp_wall od (ob_slots b) slot then Some (True, od, b, out)
          else do {
            (od', b', rpts) \<leftarrow> match_step passive best_passive slot od b;
            match_level passive best_passive od' b' (out @ rpts) }
        else Some (False, od, b, out))"

definition drop_exhausted :: "bool \<Rightarrow> OrderBook \<Rightarrow> OrderBook" where
  "drop_exhausted passive b =
     (if bs_order_counts (book_side passive b) 0 = 0
      then set_side passive (remove_level 0 (book_side passive b)) b else b)"

partial_function (option) try_match_loop ::
  "bool \<Rightarrow> Order \<Rightarrow> OrderBook \<Rightarrow> ExecutionReport list \<Rightarrow>
     (bool \<times> Order \<times> OrderBook \<times> ExecutionReport list) option" where
  "try_match_loop passive od b out = (
     if o_qty_remaining od > 0 \<and> bs_count (book_side passive b) > 0 then
       let best_passive = bs_prices (book_side passive b) 0
       in if price_blocks od best_passive then Some (False, od, b, out)
          else do {
            (walled, od', b', out') \<leftarrow> match_level passive best_passive od b out;
            if walled then Some (True, od', b', out')
            else try_match_loop passive od' (drop_exhausted passive b') out' }
     else Some (False, od, b, out))"

definition try_match :: "Order \<Rightarrow> OrderBook \<Rightarrow> (bool \<times> Order \<times> OrderBook \<times> ExecutionReport list) option" where
  "try_match incoming b = try_match_loop (\<not> is_buy incoming) incoming b []"

subsection \<open>Fill-or-kill liquidity check\<close>

text \<open>Walking one queue: \<open>Inl\<close> is an early return of the total, \<open>Inr\<close> goes on to the next level.\<close>

partial_function (option) avail_queue :: "SlotPool \<Rightarrow> Order \<Rightarrow> nat \<Rightarrow> u64 \<Rightarrow> (u64 + u64) option" where
  "avail_queue sl od idx tot = (
     if idx \<noteq> NULL_IDX then
       if stp_wall od sl idx then Some (Inl tot)
       else let tot1 = tot + ucast (sl_qtys sl idx)
            in if tot1 \<ge> ucast (o_qty_remaining od) then Some (Inl tot1)
               else avail_queue sl od (sl_nexts sl idx) tot1
     else Some (Inr tot))"

partial_function (option) avail_levels :: "SlotPool \<Rightarrow> BookSide \<Rightarrow> Order \<Rightarrow> nat \<Rightarrow> u64 \<Rightarrow> u64 option" where
  "avail_levels sl sd od i tot = (
     if i < bs_count sd then
       if price_blocks od (bs_prices sd i) then Some tot
       else do {
         r \<leftarrow> avail_queue sl od (bs_head_idxs sd i) tot;
         (case r of Inl t \<Rightarrow> Some t | Inr t \<Rightarrow> avail_levels sl sd od (i + 1) t) }
     else Some tot)"

definition available_liquidity :: "Order \<Rightarrow> OrderBook \<Rightarrow> Qty option" where
  "available_liquidity incoming b =
     map_option (\<lambda>t. ucast (min t 0xFFFFFFFF))
       (avail_levels (ob_slots b) (book_side (\<not> is_buy incoming) b) incoming 0 0)"

subsection \<open>Adding an order\<close>

text \<open>Append of a fresh slot to the queue of level \<open>lvl\<close> (\<^verbatim>\<open>order_book.cpp\<close> 227-251).\<close>

definition append_order :: "bool \<Rightarrow> nat \<Rightarrow> nat \<Rightarrow> Order \<Rightarrow> OrderBook \<Rightarrow> OrderBook" where
  "append_order is_bid lvl slot od b = (
     let sd = book_side is_bid b;
         sl = ob_slots b;
         sl1 = sl\<lparr>sl_ids := (sl_ids sl)(slot := o_id od),
                  sl_accounts := (sl_accounts sl)(slot := o_account_id od),
                  sl_qtys := (sl_qtys sl)(slot := o_qty_remaining od),
                  sl_nexts := (sl_nexts sl)(slot := NULL_IDX),
                  sl_prices := (sl_prices sl)(slot := o_price od)\<rparr>;
         (sl2, sd2) =
           (if bs_head_idxs sd lvl = NULL_IDX then
              (sl1\<lparr>sl_prevs := (sl_prevs sl1)(slot := NULL_IDX)\<rparr>,
               sd\<lparr>bs_head_idxs := (bs_head_idxs sd)(lvl := slot), bs_tail_idxs := (bs_tail_idxs sd)(lvl := slot)\<rparr>)
            else
              (let old_tail = bs_tail_idxs sd lvl
               in (sl1\<lparr>sl_nexts := (sl_nexts sl1)(old_tail := slot),
                       sl_prevs := (sl_prevs sl1)(slot := old_tail)\<rparr>,
                   sd\<lparr>bs_tail_idxs := (bs_tail_idxs sd)(lvl := slot)\<rparr>)));
         sd3 = sd2\<lparr>bs_qtys := (bs_qtys sd2)(lvl := bs_qtys sd2 lvl + o_qty_remaining od),
                   bs_order_counts := (bs_order_counts sd2)(lvl := bs_order_counts sd2 lvl + 1)\<rparr>
     in set_side is_bid sd3 (b\<lparr>ob_slots := sl2\<rparr>))"

text \<open>Booking the unfilled remainder of a limit order (\<^verbatim>\<open>order_book.cpp\<close> 203-254).\<close>

definition rest_order :: "Order \<Rightarrow> OrderBook \<Rightarrow> (bool \<times> OrderBook) option" where
  "rest_order od b = (
     let is_bid = is_buy od;
         found = find_level (book_side is_bid b) (o_price od);
         (lvl_idx, sd, created_level) =
           (if found < 0
            then let (i, s) = insert_level (o_price od) is_bid (book_side is_bid b) in (i, s, True)
            else (found, book_side is_bid b, False));
         b1 = set_side is_bid sd b
     in if lvl_idx < 0 then Some (False, b1\<lparr>ob_stat_rejected := ob_stat_rejected b1 + 1\<rparr>)
        else
          let (slot, sl) = slot_alloc (ob_slots b1);
              b2 = b1\<lparr>ob_slots := sl\<rparr>
          in if slot = NULL_IDX then
               (let b3 = (if created_level
                          then set_side is_bid (remove_level (nat lvl_idx) (book_side is_bid b2)) b2 else b2)
                in Some (False, b3\<lparr>ob_stat_rejected := ob_stat_rejected b3 + 1\<rparr>))
             else do {
               let b3 = append_order is_bid (nat lvl_idx) slot od b2;
               (_, idx) \<leftarrow> index_insert (ob_index b3) (o_id od) slot (if is_bid then 0 else 1);
               Some (True, b3\<lparr>ob_index := idx\<rparr>) })"

definition add_order :: "Order \<Rightarrow> OrderBook \<Rightarrow> (bool \<times> OrderBook \<times> ExecutionReport list) option" where
  "add_order order b = (
     let b0 = b\<lparr>ob_stat_orders := ob_stat_orders b + 1\<rparr>
     in if o_type order = Market \<or> o_type order = IOC \<or> o_type order = FOK then do {
          killed \<leftarrow> (if o_type order = FOK
                     then map_option (\<lambda>q. q < o_qty_remaining order) (available_liquidity order b0)
                     else Some False);
          if killed then Some (False, b0\<lparr>ob_stat_rejected := ob_stat_rejected b0 + 1\<rparr>, [])
          else do {
            (_, _, b1, out) \<leftarrow> try_match order b0;
            Some (True, b1, out) } }
        else do {
          (stp_walled, o1, b1, out) \<leftarrow> try_match order b0;
          if is_filled o1 then Some (True, b1, out)
          else if stp_walled
          then Some (True, b1\<lparr>ob_stat_self_trade_prevented := ob_stat_self_trade_prevented b1 + 1\<rparr>, out)
          else do {
            (ok, b2) \<leftarrow> rest_order o1 b1;
            Some (ok, b2, out) } })"

subsection \<open>Cancelling and modifying\<close>

text \<open>Unlink of a slot from the queue of its level (the block at \<^verbatim>\<open>order_book.cpp\<close> 442-450, repeated in
  \<^verbatim>\<open>modify_order\<close> 293-300).\<close>

definition unlink_slot :: "bool \<Rightarrow> nat \<Rightarrow> nat \<Rightarrow> OrderBook \<Rightarrow> OrderBook" where
  "unlink_slot is_bid lvl slot b = (
     let sd = book_side is_bid b;
         sl = ob_slots b;
         prev = sl_prevs sl slot;
         next = sl_nexts sl slot;
         sl1 = (if prev \<noteq> NULL_IDX then sl\<lparr>sl_nexts := (sl_nexts sl)(prev := next)\<rparr> else sl);
         sd1 = (if prev \<noteq> NULL_IDX then sd else sd\<lparr>bs_head_idxs := (bs_head_idxs sd)(lvl := next)\<rparr>);
         sl2 = (if next \<noteq> NULL_IDX then sl1\<lparr>sl_prevs := (sl_prevs sl1)(next := prev)\<rparr> else sl1);
         sd2 = (if next \<noteq> NULL_IDX then sd1 else sd1\<lparr>bs_tail_idxs := (bs_tail_idxs sd1)(lvl := prev)\<rparr>)
     in set_side is_bid sd2 (b\<lparr>ob_slots := sl2\<rparr>))"

definition remove_order_from_level :: "u8 \<Rightarrow> nat \<Rightarrow> nat \<Rightarrow> OrderBook \<Rightarrow> OrderBook" where
  "remove_order_from_level side_idx level_idx slot b = (
     let is_bid = (side_idx = 0);
         sd = book_side is_bid b;
         sd1 = sd\<lparr>bs_qtys := (bs_qtys sd)(level_idx := bs_qtys sd level_idx - sl_qtys (ob_slots b) slot),
                  bs_order_counts := (bs_order_counts sd)(level_idx := bs_order_counts sd level_idx - 1)\<rparr>;
         b1 = unlink_slot is_bid level_idx slot (set_side is_bid sd1 b);
         b2 = b1\<lparr>ob_slots := free_slot slot (ob_slots b1)\<rparr>
     in if bs_order_counts (book_side is_bid b2) level_idx = 0
        then set_side is_bid (remove_level level_idx (book_side is_bid b2)) b2 else b2)"

definition cancel_order :: "OrderId \<Rightarrow> OrderBook \<Rightarrow> (bool \<times> OrderBook) option" where
  "cancel_order order_id b = do {
     found \<leftarrow> index_lookup (ob_index b) order_id;
     (case found of None \<Rightarrow> Some (False, b)
      | Some (slot, side_idx) \<Rightarrow>
          let lvl = find_level (book_side (side_idx = 0) b) (sl_prices (ob_slots b) slot)
          in if lvl < 0 then do {
               (_, idx) \<leftarrow> index_remove (ob_index b) order_id;
               Some (False, b\<lparr>ob_index := idx\<rparr>) }
             else do {
               let b1 = remove_order_from_level side_idx (nat lvl) slot b;
               (_, idx) \<leftarrow> index_remove (ob_index b1) order_id;
               Some (True, b1\<lparr>ob_index := idx, ob_stat_cancelled := ob_stat_cancelled b1 + 1\<rparr>) }) }"

text \<open>Re-append at the tail of the same level (\<^verbatim>\<open>order_book.cpp\<close> 301-312).\<close>

definition relink_tail :: "bool \<Rightarrow> nat \<Rightarrow> nat \<Rightarrow> OrderBook \<Rightarrow> OrderBook" where
  "relink_tail is_bid lvl slot b = (
     let sd = book_side is_bid b; sl = ob_slots b
     in if bs_head_idxs sd lvl = NULL_IDX then
          set_side is_bid
            (sd\<lparr>bs_head_idxs := (bs_head_idxs sd)(lvl := slot), bs_tail_idxs := (bs_tail_idxs sd)(lvl := slot)\<rparr>)
            (b\<lparr>ob_slots := sl\<lparr>sl_prevs := (sl_prevs sl)(slot := NULL_IDX),
                               sl_nexts := (sl_nexts sl)(slot := NULL_IDX)\<rparr>\<rparr>)
        else
          let old_tail = bs_tail_idxs sd lvl
          in set_side is_bid (sd\<lparr>bs_tail_idxs := (bs_tail_idxs sd)(lvl := slot)\<rparr>)
               (b\<lparr>ob_slots := sl\<lparr>sl_nexts := (sl_nexts sl)(old_tail := slot, slot := NULL_IDX),
                                  sl_prevs := (sl_prevs sl)(slot := old_tail)\<rparr>\<rparr>))"

text \<open>The writes of a level total and of a slot quantity (\<^verbatim>\<open>order_book.cpp\<close> 313-319).\<close>

definition set_order_qty :: "bool \<Rightarrow> nat \<Rightarrow> nat \<Rightarrow> Qty \<Rightarrow> Qty \<Rightarrow> OrderBook \<Rightarrow> OrderBook" where
  "set_order_qty is_bid lvl slot level_qty new_qty b = (
     let sd = book_side is_bid b; sl = ob_slots b
     in set_side is_bid (sd\<lparr>bs_qtys := (bs_qtys sd)(lvl := level_qty)\<rparr>)
          (b\<lparr>ob_slots := sl\<lparr>sl_qtys := (sl_qtys sl)(slot := new_qty)\<rparr>\<rparr>))"

definition modify_order :: "OrderId \<Rightarrow> Qty \<Rightarrow> OrderBook \<Rightarrow> (bool \<times> OrderBook) option" where
  "modify_order order_id new_qty b = do {
     found \<leftarrow> index_lookup (ob_index b) order_id;
     (case found of None \<Rightarrow> Some (False, b)
      | Some (slot, side_idx) \<Rightarrow>
          let is_bid = (side_idx = 0);
              lvl = find_level (book_side is_bid b) (sl_prices (ob_slots b) slot)
          in if lvl < 0 then do {
               (_, idx) \<leftarrow> index_remove (ob_index b) order_id;
               Some (False, b\<lparr>ob_index := idx\<rparr>) }
             else
               let old_qty = sl_qtys (ob_slots b) slot;
                   lvl_u = nat lvl
               in if new_qty > old_qty then
                    (let b1 = relink_tail is_bid lvl_u slot (unlink_slot is_bid lvl_u slot b)
                     in Some (True, set_order_qty is_bid lvl_u slot
                               (bs_qtys (book_side is_bid b1) lvl_u + (new_qty - old_qty)) new_qty b1))
                  else if new_qty < old_qty then
                    (let b1 = set_order_qty is_bid lvl_u slot
                               (bs_qtys (book_side is_bid b) lvl_u - (old_qty - new_qty)) new_qty b
                     in if new_qty = 0 then do {
                          let b2 = remove_order_from_level side_idx lvl_u slot b1;
                          (_, idx) \<leftarrow> index_remove (ob_index b2) order_id;
                          Some (True, b2\<lparr>ob_index := idx\<rparr>) }
                        else Some (True, b1))
                  else Some (True, b)) }"

declare match_level.simps [code] try_match_loop.simps [code] avail_queue.simps [code] avail_levels.simps [code]

subsection \<open>Queries\<close>

definition best_quote :: "OrderBook \<Rightarrow> BestQuote" where
  "best_quote b = \<lparr>
     q_bid_price = (if bs_count (ob_bids b) > 0 then bs_prices (ob_bids b) 0 else PRICE_INVALID),
     q_ask_price = (if bs_count (ob_asks b) > 0 then bs_prices (ob_asks b) 0 else PRICE_INVALID),
     q_bid_qty = (if bs_count (ob_bids b) > 0 then bs_qtys (ob_bids b) 0 else 0),
     q_ask_qty = (if bs_count (ob_asks b) > 0 then bs_qtys (ob_asks b) 0 else 0),
     q_symbol = ob_symbol b\<rparr>"

record PriceLevel =
  pl_price :: Price
  pl_total_qty :: Qty
  pl_order_count :: u32
  pl_head_idx :: nat

text \<open>\<^verbatim>\<open>bid_depth\<close> and \<^verbatim>\<open>ask_depth\<close> write the first levels to the caller's span; the model returns what
  is written, whose length is the C++ return value.\<close>

definition side_depth :: "BookSide \<Rightarrow> nat \<Rightarrow> PriceLevel list" where
  "side_depth sd out_size = map (\<lambda>i. \<lparr>pl_price = bs_prices sd i, pl_total_qty = bs_qtys sd i,
     pl_order_count = bs_order_counts sd i, pl_head_idx = bs_head_idxs sd i\<rparr>) [0..<min out_size (bs_count sd)]"

definition bid_depth :: "OrderBook \<Rightarrow> nat \<Rightarrow> PriceLevel list" where
  "bid_depth b out_size = side_depth (ob_bids b) out_size"

definition ask_depth :: "OrderBook \<Rightarrow> nat \<Rightarrow> PriceLevel list" where
  "ask_depth b out_size = side_depth (ob_asks b) out_size"

end
