(* ===== verification/Ref_Book.thy ===== *)
theory Ref_Book
  imports Book_Side
begin

text \<open>
  The abstract specification of the order book: each side is a list of price levels, best first, and
  each level a FIFO queue of orders.  It states the same reference semantics as \<^verbatim>\<open>RefBook\<close> in
  \<^verbatim>\<open>tests/test_conservation.cpp\<close> (sorted maps of deques), with the capacity limits of
  \<^verbatim>\<open>LIMITATIONS.md\<close> added.  Nothing here knows about slots, chains or hash tables.  The second half
  proves what makes this specification a matching engine: price-time priority, no trade through a
  limit, conservation of quantity, an uncrossed book.
\<close>

subsection \<open>Books, queues and fills\<close>

record RefOrder =
  ro_id :: OrderId
  ro_rem :: Qty
  ro_account :: u32

type_synonym RefSide = "(Price \<times> RefOrder list) list"

record RefBook =
  rb_bids :: RefSide
  rb_asks :: RefSide

record Fill =
  f_aggr :: OrderId
  f_passive :: OrderId
  f_px :: Price
  f_qty :: Qty

definition ref_side :: "bool \<Rightarrow> RefBook \<Rightarrow> RefSide" where
  "ref_side is_bid rb = (if is_bid then rb_bids rb else rb_asks rb)"

definition ref_set_side :: "bool \<Rightarrow> RefSide \<Rightarrow> RefBook \<Rightarrow> RefBook" where
  "ref_set_side is_bid s rb = (if is_bid then rb\<lparr>rb_bids := s\<rparr> else rb\<lparr>rb_asks := s\<rparr>)"

definition ref_wall :: "Order \<Rightarrow> RefOrder \<Rightarrow> bool" where
  "ref_wall od q = (o_account_id od \<noteq> 0 \<and> o_account_id od = ro_account q)"

text \<open>A level is out of reach when its price is worse than the limit of a non-market order.\<close>

definition ref_blocks :: "Order \<Rightarrow> Price \<Rightarrow> bool" where
  "ref_blocks od px = (o_type od \<noteq> Market \<and> better (is_buy od) px (o_price od))"

definition mk_fill :: "Order \<Rightarrow> Price \<Rightarrow> RefOrder \<Rightarrow> Qty \<Rightarrow> Fill" where
  "mk_fill od px q f = \<lparr>f_aggr = o_id od, f_passive = ro_id q, f_px = px, f_qty = f\<rparr>"

subsection \<open>Matching\<close>

text \<open>\<open>sweep_queue od px n qs\<close> executes \<open>n\<close> against one queue: the quantity left, whether a
  self-trade wall stopped it, the queue left and the fills.\<close>

fun sweep_queue :: "Order \<Rightarrow> Price \<Rightarrow> Qty \<Rightarrow> RefOrder list \<Rightarrow> Qty \<times> bool \<times> RefOrder list \<times> Fill list" where
  "sweep_queue od px n [] = (n, False, [], [])"
| "sweep_queue od px n (q # qs) =
     (if n = 0 then (n, False, q # qs, [])
      else if ref_wall od q then (n, True, q # qs, [])
      else let f = min n (ro_rem q) in
        if ro_rem q - f = 0 then
          let (n', w, qs', fs) = sweep_queue od px (n - f) qs in (n', w, qs', mk_fill od px q f # fs)
        else (n - f, False, q\<lparr>ro_rem := ro_rem q - f\<rparr> # qs, [mk_fill od px q f]))"

fun sweep :: "Order \<Rightarrow> Qty \<Rightarrow> RefSide \<Rightarrow> Qty \<times> bool \<times> RefSide \<times> Fill list" where
  "sweep od n [] = (n, False, [], [])"
| "sweep od n ((px, q) # rest) =
     (if n = 0 \<or> ref_blocks od px then (n, False, (px, q) # rest, [])
      else let (n', w, q', fs) = sweep_queue od px n q in
        if w then (n', True, (px, q') # rest, fs)
        else if q' = [] then
          let (n'', w', rest', fs') = sweep od n' rest in (n'', w', rest', fs @ fs')
        else (n', False, (px, q') # rest, fs))"

text \<open>The quantity an order could execute right now, as a natural number: everything within its
  limit up to the first order of its own account.\<close>

fun liq_queue :: "Order \<Rightarrow> RefOrder list \<Rightarrow> nat \<times> bool" where
  "liq_queue od [] = (0, False)"
| "liq_queue od (q # qs) =
     (if ref_wall od q then (0, True)
      else let (n, w) = liq_queue od qs in (unat (ro_rem q) + n, w))"

fun liquidity :: "Order \<Rightarrow> RefSide \<Rightarrow> nat" where
  "liquidity od [] = 0"
| "liquidity od ((px, q) # rest) =
     (if ref_blocks od px then 0
      else let (n, w) = liq_queue od q in if w then n else n + liquidity od rest)"

subsection \<open>Operations\<close>

fun enqueue :: "bool \<Rightarrow> Price \<Rightarrow> RefOrder \<Rightarrow> RefSide \<Rightarrow> RefSide" where
  "enqueue d px r [] = [(px, [r])]"
| "enqueue d px r ((p, q) # rest) =
     (if p = px then (p, q @ [r]) # rest
      else if better d p px then (p, q) # enqueue d px r rest
      else (px, [r]) # (p, q) # rest)"

definition resting_count :: "RefBook \<Rightarrow> nat" where
  "resting_count rb = length (concat (map snd (rb_bids rb))) + length (concat (map snd (rb_asks rb)))"

definition never_rests :: "Order \<Rightarrow> bool" where
  "never_rests od = (o_type od = Market \<or> o_type od = IOC \<or> o_type od = FOK)"

definition at_capacity :: "Order \<Rightarrow> nat \<Rightarrow> nat \<Rightarrow> RefBook \<Rightarrow> bool" where
  "at_capacity od max_levels max_orders rb = (resting_count rb \<ge> max_orders \<or>
     (o_price od \<notin> fst ` set (ref_side (is_buy od) rb) \<and> length (ref_side (is_buy od) rb) \<ge> max_levels))"

definition ref_add :: "nat \<Rightarrow> nat \<Rightarrow> Order \<Rightarrow> RefBook \<Rightarrow> bool \<times> RefBook \<times> Fill list" where
  "ref_add max_levels max_orders od rb = (
     let n = o_qty_remaining od; passive = \<not> is_buy od
     in if o_type od = FOK \<and> liquidity od (ref_side passive rb) < unat n then (False, rb, [])
        else
          let (n', w, s, fs) = sweep od n (ref_side passive rb);
              rb1 = ref_set_side passive s rb
          in if n' = 0 \<or> w \<or> never_rests od then (True, rb1, fs)
             else if at_capacity od max_levels max_orders rb1 then (False, rb1, fs)
             else (True,
                   ref_set_side (is_buy od)
                     (enqueue (is_buy od) (o_price od)
                        \<lparr>ro_id = o_id od, ro_rem = n', ro_account = o_account_id od\<rparr>
                        (ref_side (is_buy od) rb1)) rb1, fs))"

definition side_ids :: "RefSide \<Rightarrow> OrderId list" where
  "side_ids s = map ro_id (concat (map snd s))"

definition ref_ids :: "RefBook \<Rightarrow> OrderId list" where
  "ref_ids rb = side_ids (rb_bids rb) @ side_ids (rb_asks rb)"

text \<open>Changing the queue that holds an id, and dropping the level if its queue becomes empty.\<close>

fun update_queue :: "OrderId \<Rightarrow> (RefOrder list \<Rightarrow> RefOrder list) \<Rightarrow> RefSide \<Rightarrow> RefSide" where
  "update_queue oid f [] = []"
| "update_queue oid f ((px, q) # rest) =
     (if oid \<in> ro_id ` set q
      then (if f q = [] then rest else (px, f q) # rest)
      else (px, q) # update_queue oid f rest)"

definition q_erase :: "OrderId \<Rightarrow> RefOrder list \<Rightarrow> RefOrder list" where
  "q_erase oid q = filter (\<lambda>r. ro_id r \<noteq> oid) q"

definition q_set_rem :: "OrderId \<Rightarrow> Qty \<Rightarrow> RefOrder list \<Rightarrow> RefOrder list" where
  "q_set_rem oid n q = map (\<lambda>r. if ro_id r = oid then r\<lparr>ro_rem := n\<rparr> else r) q"

definition q_requeue :: "OrderId \<Rightarrow> Qty \<Rightarrow> RefOrder list \<Rightarrow> RefOrder list" where
  "q_requeue oid n q =
     filter (\<lambda>r. ro_id r \<noteq> oid) q @ map (\<lambda>r. r\<lparr>ro_rem := n\<rparr>) (filter (\<lambda>r. ro_id r = oid) q)"

text \<open>A decrease keeps the queue position, an increase moves the order to the back, zero removes it.\<close>

definition q_modify :: "OrderId \<Rightarrow> Qty \<Rightarrow> RefOrder list \<Rightarrow> RefOrder list" where
  "q_modify oid n q = (case find (\<lambda>r. ro_id r = oid) q of None \<Rightarrow> q
     | Some r \<Rightarrow> if n > ro_rem r then q_requeue oid n q
                 else if n = 0 then q_erase oid q
                 else q_set_rem oid n q)"

definition ref_update :: "OrderId \<Rightarrow> (RefOrder list \<Rightarrow> RefOrder list) \<Rightarrow> RefBook \<Rightarrow> bool \<times> RefBook" where
  "ref_update oid f rb =
     (if oid \<in> set (side_ids (rb_bids rb)) then (True, rb\<lparr>rb_bids := update_queue oid f (rb_bids rb)\<rparr>)
      else if oid \<in> set (side_ids (rb_asks rb)) then (True, rb\<lparr>rb_asks := update_queue oid f (rb_asks rb)\<rparr>)
      else (False, rb))"

definition ref_cancel :: "OrderId \<Rightarrow> RefBook \<Rightarrow> bool \<times> RefBook" where
  "ref_cancel oid rb = ref_update oid (q_erase oid) rb"

definition ref_modify :: "OrderId \<Rightarrow> Qty \<Rightarrow> RefBook \<Rightarrow> bool \<times> RefBook" where
  "ref_modify oid n rb = ref_update oid (q_modify oid n) rb"

subsection \<open>Well-formed sides\<close>

definition queue_ok :: "RefOrder list \<Rightarrow> bool" where
  "queue_ok q = (q \<noteq> [] \<and> (\<forall>r \<in> set q. ro_rem r > 0))"

definition side_ok :: "bool \<Rightarrow> RefSide \<Rightarrow> bool" where
  "side_ok d s = (sorted_wrt (better d) (map fst s) \<and> (\<forall>(px, q) \<in> set s. queue_ok q))"

definition uncrossed :: "RefBook \<Rightarrow> bool" where
  "uncrossed rb = (\<forall>bp \<in> fst ` set (rb_bids rb). \<forall>ap \<in> fst ` set (rb_asks rb). bp < ap)"

definition ref_ok :: "RefBook \<Rightarrow> bool" where
  "ref_ok rb = (side_ok True (rb_bids rb) \<and> side_ok False (rb_asks rb) \<and> uncrossed rb)"

definition queue_total :: "RefOrder list \<Rightarrow> nat" where
  "queue_total q = sum_list (map (\<lambda>r. unat (ro_rem r)) q)"

definition side_total :: "RefSide \<Rightarrow> nat" where
  "side_total s = sum_list (map (\<lambda>(px, q). queue_total q) s)"

definition fill_total :: "Fill list \<Rightarrow> nat" where
  "fill_total fs = sum_list (map (\<lambda>f. unat (f_qty f)) fs)"

definition resting_total :: "RefBook \<Rightarrow> nat" where
  "resting_total rb = side_total (rb_bids rb) + side_total (rb_asks rb)"

lemma totals_simps [simp]:
  "queue_total [] = 0" "queue_total (r # q) = unat (ro_rem r) + queue_total q"
  "queue_total (q1 @ q2) = queue_total q1 + queue_total q2"
  "side_total [] = 0" "side_total ((px, q) # s) = queue_total q + side_total s"
  "side_total (s1 @ s2) = side_total s1 + side_total s2"
  "fill_total [] = 0" "fill_total (f # fs) = unat (f_qty f) + fill_total fs"
  "fill_total (fs @ gs) = fill_total fs + fill_total gs"
  by (simp_all add: queue_total_def side_total_def fill_total_def)

lemma side_ok_Nil [simp]: "side_ok d []"
  by (simp add: side_ok_def)

lemma side_ok_Cons:
  "side_ok d ((px, q) # s) \<longleftrightarrow> queue_ok q \<and> (\<forall>p \<in> fst ` set s. better d px p) \<and> side_ok d s"
  by (auto simp: side_ok_def)

subsection \<open>What a sweep does\<close>

text \<open>Induction over a sweep, one case per way an iteration can go: the queue is exhausted, the
  aggressor is filled, a wall, a passive order filled completely, a passive order filled partly.\<close>

lemma sweep_queue_induct [consumes 1, case_names empty filled wall full partly]:
  assumes "sweep_queue od px n q = (n', w, q', fs)"
    and "\<And>n. P n [] n False [] []"
    and "\<And>r q. P 0 (r # q) 0 False (r # q) []"
    and "\<And>n r q. n \<noteq> 0 \<Longrightarrow> ref_wall od r \<Longrightarrow> P n (r # q) n True (r # q) []"
    and "\<And>n r q n' w q' fs. n \<noteq> 0 \<Longrightarrow> \<not> ref_wall od r \<Longrightarrow> ro_rem r \<le> n \<Longrightarrow>
      sweep_queue od px (n - ro_rem r) q = (n', w, q', fs) \<Longrightarrow> P (n - ro_rem r) q n' w q' fs \<Longrightarrow>
      P n (r # q) n' w q' (mk_fill od px r (ro_rem r) # fs)"
    and "\<And>n r q. n \<noteq> 0 \<Longrightarrow> \<not> ref_wall od r \<Longrightarrow> n < ro_rem r \<Longrightarrow>
      P n (r # q) 0 False (r\<lparr>ro_rem := ro_rem r - n\<rparr> # q) [mk_fill od px r n]"
  shows "P n q n' w q' fs"
  using assms(1)
proof (induction q arbitrary: n n' w q' fs)
  case Nil
  then show ?case using assms(2) by simp
next
  case (Cons r q)
  consider "n = 0" | "n \<noteq> 0" "ref_wall od r" | "n \<noteq> 0" "\<not> ref_wall od r" "ro_rem r \<le> n"
    | "n \<noteq> 0" "\<not> ref_wall od r" "n < ro_rem r" by fastforce
  then show ?case
  proof cases
    case 3
    obtain m v q1 gs where rec: "sweep_queue od px (n - ro_rem r) q = (m, v, q1, gs)"
      by (metis prod_cases4)
    with 3 Cons.prems have "n' = m" "w = v" "q' = q1" "fs = mk_fill od px r (ro_rem r) # gs"
      by (simp_all add: Let_def min_def split: if_splits)
    with 3 rec Cons.IH [OF rec] show ?thesis using assms(5) by simp
  next
    case 4
    then have "min n (ro_rem r) = n" "ro_rem r - n \<noteq> 0" by (auto simp: min_def)
    with 4 Cons.prems assms(6) show ?thesis by (auto simp: Let_def)
  qed (use Cons.prems assms(3,4) in auto)
qed

lemma sweep_induct [consumes 1, case_names empty stop wall advance partly]:
  assumes "sweep od n s = (n', w, s', fs)"
    and "\<And>n. P n [] n False [] []"
    and "\<And>n px q rest. n = 0 \<or> ref_blocks od px \<Longrightarrow> P n ((px, q) # rest) n False ((px, q) # rest) []"
    and "\<And>n px q rest n' q' fs. n \<noteq> 0 \<Longrightarrow> \<not> ref_blocks od px \<Longrightarrow>
      sweep_queue od px n q = (n', True, q', fs) \<Longrightarrow> P n ((px, q) # rest) n' True ((px, q') # rest) fs"
    and "\<And>n px q rest m gs n' w s' fs. n \<noteq> 0 \<Longrightarrow> \<not> ref_blocks od px \<Longrightarrow>
      sweep_queue od px n q = (m, False, [], gs) \<Longrightarrow> sweep od m rest = (n', w, s', fs) \<Longrightarrow>
      P m rest n' w s' fs \<Longrightarrow> P n ((px, q) # rest) n' w s' (gs @ fs)"
    and "\<And>n px q rest n' q' fs. n \<noteq> 0 \<Longrightarrow> \<not> ref_blocks od px \<Longrightarrow> q' \<noteq> [] \<Longrightarrow>
      sweep_queue od px n q = (n', False, q', fs) \<Longrightarrow> P n ((px, q) # rest) n' False ((px, q') # rest) fs"
  shows "P n s n' w s' fs"
  using assms(1)
proof (induction s arbitrary: n n' w s' fs)
  case Nil
  then show ?case using assms(2) by simp
next
  case (Cons l rest)
  obtain px q where l: "l = (px, q)" by fastforce
  obtain m v q1 gs where sq: "sweep_queue od px n q = (m, v, q1, gs)" by (metis prod_cases4)
  obtain m' v' s1 gs' where rec: "sweep od m rest = (m', v', s1, gs')" by (metis prod_cases4)
  consider "n = 0 \<or> ref_blocks od px" | "n \<noteq> 0" "\<not> ref_blocks od px" "v"
    | "n \<noteq> 0" "\<not> ref_blocks od px" "\<not> v" "q1 = []" | "n \<noteq> 0" "\<not> ref_blocks od px" "\<not> v" "q1 \<noteq> []"
    by fastforce
  then show ?case
  proof cases
    case 1
    then show ?thesis using Cons.prems assms(3) l by auto
  next
    case 2
    then show ?thesis using Cons.prems assms(4) l sq by auto
  next
    case 3
    with Cons.prems l sq rec have "n' = m'" "w = v'" "s' = s1" "fs = gs @ gs'" by simp_all
    then show ?thesis using assms(5) 3 sq rec Cons.IH [OF rec] l by simp
  next
    case 4
    then show ?thesis using Cons.prems assms(6) l sq by auto
  qed
qed

lemma sweep_queue_conserves:
  "sweep_queue od px n q = (n', w, q', fs) \<Longrightarrow>
     unat n = unat n' + fill_total fs \<and> queue_total q = queue_total q' + fill_total fs"
proof (induction rule: sweep_queue_induct)
  case (full n r q n' w q' fs)
  then show ?case by (auto simp: mk_fill_def unat_sub word_le_nat_alt)
next
  case (partly n r q)
  then have "unat n < unat (ro_rem r)" by (simp add: word_less_nat_alt)
  with partly show ?case by (simp add: mk_fill_def unat_sub_less)
qed auto

lemma sweep_conserves:
  "sweep od n s = (n', w, s', fs) \<Longrightarrow>
     unat n = unat n' + fill_total fs \<and> side_total s = side_total s' + fill_total fs"
  by (induction rule: sweep_induct) (auto dest: sweep_queue_conserves)

text \<open>Without a wall, what is left of a queue means the aggressor is done.\<close>

lemma sweep_queue_outcome:
  "sweep_queue od px n q = (n', w, q', fs) \<Longrightarrow>
     (q' \<noteq> [] \<and> \<not> w \<longrightarrow> n' = 0) \<and> (w \<longrightarrow> n' \<noteq> 0 \<and> q' \<noteq> [] \<and> ref_wall od (hd q'))"
  by (induction rule: sweep_queue_induct) auto

lemma sweep_queue_pos:
  "sweep_queue od px n q = (n', w, q', fs) \<Longrightarrow> \<forall>r \<in> set q. ro_rem r > 0 \<Longrightarrow>
     (\<forall>r \<in> set q'. ro_rem r > 0)"
  by (induction rule: sweep_queue_induct) (auto simp: word_neq_0_conv word_sub_pos)

lemma sweep_prices: "sweep od n s = (n', w, s', fs) \<Longrightarrow> fst ` set s' \<subseteq> fst ` set s"
  by (induction rule: sweep_induct) auto

lemma sweep_side_ok: "sweep od n s = (n', w, s', fs) \<Longrightarrow> side_ok d s \<Longrightarrow> side_ok d s'"
proof (induction rule: sweep_induct)
  case (wall n px q rest n' q' fs)
  then show ?case
    using sweep_queue_outcome [OF wall(3)] sweep_queue_pos [OF wall(3)]
    by (auto simp: side_ok_Cons queue_ok_def)
next
  case (partly n px q rest n' q' fs)
  then show ?case
    using sweep_queue_pos [OF partly(4)] by (auto simp: side_ok_Cons queue_ok_def)
qed (auto simp: side_ok_Cons)

text \<open>If a remainder is left and no wall stopped the sweep, every level that is left is blocked.\<close>

lemma ref_blocks_worse:
  "ref_blocks od px \<Longrightarrow> better (\<not> is_buy od) px p \<Longrightarrow> ref_blocks od p"
  by (cases "is_buy od") (auto simp: ref_blocks_def better_def)

lemma sweep_remainder_blocked:
  "sweep od n s = (n', w, s', fs) \<Longrightarrow> side_ok (\<not> is_buy od) s \<Longrightarrow> n' \<noteq> 0 \<Longrightarrow> \<not> w \<Longrightarrow>
     (\<forall>p \<in> fst ` set s'. ref_blocks od p)"
proof (induction rule: sweep_induct)
  case (stop n px q rest)
  then have "ref_blocks od px" by simp
  moreover have "better (\<not> is_buy od) px p" if "p \<in> fst ` set rest" for p
    using stop(2) that unfolding side_ok_Cons by blast
  ultimately show ?case using ref_blocks_worse by simp
qed (auto simp: side_ok_Cons dest: sweep_queue_outcome)

subsection \<open>Price-time priority\<close>

text \<open>The orders of a side in priority order, with the price of their level.\<close>

definition priced :: "RefSide \<Rightarrow> (Price \<times> RefOrder) list" where
  "priced s = concat (map (\<lambda>(px, q). map (Pair px) q) s)"

text \<open>\<open>takes_prefix od es fs\<close>: the fills hit the entries \<open>es\<close> in order from the front, each at its own
  level's price, all but the last for the whole remaining quantity.\<close>

fun takes_prefix :: "Order \<Rightarrow> (Price \<times> RefOrder) list \<Rightarrow> Fill list \<Rightarrow> bool" where
  "takes_prefix od es [] = True"
| "takes_prefix od [] (f # fs) = False"
| "takes_prefix od ((px, r) # es) (f # fs) =
     (f = mk_fill od px r (f_qty f) \<and> f_qty f > 0 \<and> f_qty f \<le> ro_rem r \<and> \<not> ref_wall od r \<and>
      (fs \<noteq> [] \<longrightarrow> f_qty f = ro_rem r) \<and> takes_prefix od es fs)"

lemma mk_fill_qty [simp]: "f_qty (mk_fill od px r n) = n"
  by (simp add: mk_fill_def)

lemma takes_prefix_append:
  "takes_prefix od es fs \<Longrightarrow> takes_prefix od (es @ es') fs"
  by (induction od es fs rule: takes_prefix.induct) auto

lemma sweep_queue_prefix:
  "sweep_queue od px n q = (n', w, q', fs) \<Longrightarrow> \<forall>r \<in> set q. ro_rem r > 0 \<Longrightarrow>
     takes_prefix od (map (Pair px) q) fs"
  by (induction rule: sweep_queue_induct) (auto simp: word_neq_0_conv)

text \<open>A queue swept to its end is filled order by order.\<close>

lemma sweep_queue_whole:
  "sweep_queue od px n q = (n', False, [], fs) \<Longrightarrow>
     fs = map (\<lambda>r. mk_fill od px r (ro_rem r)) q \<and> (\<forall>r \<in> set q. \<not> ref_wall od r)"
proof -
  have "\<not> w \<and> q' = [] \<longrightarrow> fs = map (\<lambda>r. mk_fill od px r (ro_rem r)) q \<and> (\<forall>r \<in> set q. \<not> ref_wall od r)"
    if "sweep_queue od px n q = (n', w, q', fs)" for w q'
    using that by (induction rule: sweep_queue_induct) auto
  then show "sweep_queue od px n q = (n', False, [], fs) \<Longrightarrow> ?thesis" by blast
qed

lemma takes_prefix_whole:
  "\<forall>r \<in> set q. ro_rem r > 0 \<and> \<not> ref_wall od r \<Longrightarrow> takes_prefix od es gs \<Longrightarrow>
     takes_prefix od (map (Pair px) q @ es) (map (\<lambda>r. mk_fill od px r (ro_rem r)) q @ gs)"
  by (induction q) (auto simp: word_neq_0_conv)

lemma sweep_priority:
  "sweep od n s = (n', w, s', fs) \<Longrightarrow> side_ok d s \<Longrightarrow> takes_prefix od (priced s) fs"
proof (induction rule: sweep_induct)
  case (wall n px q rest n' q' fs)
  then show ?case
    using sweep_queue_prefix [OF wall(3)]
    by (auto simp: side_ok_Cons queue_ok_def priced_def intro: takes_prefix_append)
next
  case (advance n px q rest m gs n' w s' fs)
  then show ?case
    using sweep_queue_whole [OF advance(3)]
    by (auto simp: side_ok_Cons queue_ok_def priced_def intro: takes_prefix_whole)
next
  case (partly n px q rest n' q' fs)
  then show ?case
    using sweep_queue_prefix [OF partly(4)]
    by (auto simp: side_ok_Cons queue_ok_def priced_def intro: takes_prefix_append)
qed (simp_all add: priced_def)

text \<open>No fill is at a price worse than the limit.\<close>

lemma sweep_queue_px: "sweep_queue od px n q = (n', w, q', fs) \<Longrightarrow> \<forall>f \<in> set fs. f_px f = px"
  by (induction rule: sweep_queue_induct) (auto simp: mk_fill_def)

lemma sweep_within_limit:
  "sweep od n s = (n', w, s', fs) \<Longrightarrow> \<forall>f \<in> set fs. \<not> ref_blocks od (f_px f)"
  by (induction rule: sweep_induct) (auto dest: sweep_queue_px)

subsection \<open>Liquidity decides fill-or-kill\<close>

lemma sweep_queue_liquidity:
  "sweep_queue od px n q = (n', w, q', fs) \<Longrightarrow>
     (n' = 0 \<longleftrightarrow> unat n \<le> fst (liq_queue od q)) \<and>
     (n' \<noteq> 0 \<longrightarrow> w = snd (liq_queue od q) \<and> unat n' = unat n - fst (liq_queue od q))"
proof (induction rule: sweep_queue_induct)
  case (full n r q n' w q' fs)
  then have "unat (n - ro_rem r) = unat n - unat (ro_rem r)" "unat (ro_rem r) \<le> unat n"
    by (simp_all add: unat_sub word_le_nat_alt)
  with full show ?case by (auto simp: case_prod_unfold Let_def)
next
  case (partly n r q)
  then have "unat n < unat (ro_rem r)" by (simp add: word_less_nat_alt)
  with partly show ?case by (simp add: case_prod_unfold Let_def)
qed (auto simp: unat_eq_0)

lemma sweep_liquidity:
  "sweep od n s = (n', w, s', fs) \<Longrightarrow> unat n' = unat n - liquidity od s"
proof (induction rule: sweep_induct)
  case (wall n px q rest n' q' fs)
  with sweep_queue_liquidity [OF wall(3)] sweep_queue_outcome [OF wall(3)]
  show ?case by (auto simp: case_prod_unfold Let_def)
next
  case (advance n px q rest m gs n' w s' fs)
  with sweep_queue_liquidity [OF advance(3)] show ?case
    by (cases "m = 0") (auto simp: case_prod_unfold Let_def)
next
  case (partly n px q rest n' q' fs)
  with sweep_queue_liquidity [OF partly(4)] sweep_queue_outcome [OF partly(4)]
  show ?case by (auto simp: case_prod_unfold Let_def)
qed auto

lemma sweep_filled_iff:
  "sweep od n s = (n', w, s', fs) \<Longrightarrow> n' = 0 \<longleftrightarrow> unat n \<le> liquidity od s"
  using sweep_liquidity by (metis diff_is_0_eq unat_eq_0)

subsection \<open>Booking the remainder\<close>

lemma enqueue_prices: "fst ` set (enqueue d px r s) = insert px (fst ` set s)"
  by (induction d px r s rule: enqueue.induct) auto

lemma enqueue_side_ok: "side_ok d s \<Longrightarrow> ro_rem r > 0 \<Longrightarrow> side_ok d (enqueue d px r s)"
proof (induction d px r s rule: enqueue.induct)
  case (2 d px r p q rest)
  show ?case
  proof (cases "p = px \<or> better d p px")
    case True
    with 2 show ?thesis by (auto simp: side_ok_Cons queue_ok_def enqueue_prices)
  next
    case False
    then have "better d px p" using better_linear by blast
    with 2 False show ?thesis by (auto simp: side_ok_Cons queue_ok_def dest: better_trans)
  qed
qed (simp add: side_ok_Cons queue_ok_def)

lemma enqueue_total: "side_total (enqueue d px r s) = side_total s + unat (ro_rem r)"
  by (induction d px r s rule: enqueue.induct) auto

lemma ref_side_set [simp]:
  "ref_side d (ref_set_side d s rb) = s" "ref_side (\<not> d) (ref_set_side d s rb) = ref_side (\<not> d) rb"
  "ref_side d (ref_set_side (\<not> d) s rb) = ref_side d rb"
  by (simp_all add: ref_side_def ref_set_side_def)

lemma ref_ok_iff:
  "ref_ok rb \<longleftrightarrow> side_ok d (ref_side d rb) \<and> side_ok (\<not> d) (ref_side (\<not> d) rb) \<and>
     (\<forall>p \<in> fst ` set (ref_side d rb). \<forall>q \<in> fst ` set (ref_side (\<not> d) rb). better d q p)"
  by (cases d) (auto simp: ref_ok_def ref_side_def uncrossed_def better_def)

lemma resting_total_side: "resting_total rb = side_total (ref_side d rb) + side_total (ref_side (\<not> d) rb)"
  by (cases d) (auto simp: resting_total_def ref_side_def)

text \<open>Well-formedness, sides sorted and not crossed, is kept by adding an order.\<close>

lemma ref_add_ok:
  assumes ok: "ref_ok rb" and add: "ref_add ml mo od rb = (acc, rb', fs)"
  shows "ref_ok rb'"
proof (cases "o_type od = FOK \<and> liquidity od (ref_side (\<not> is_buy od) rb) < unat (o_qty_remaining od)")
  case False
  let ?p = "\<not> is_buy od"
  obtain n' w s gs where sw: "sweep od (o_qty_remaining od) (ref_side ?p rb) = (n', w, s, gs)"
    by (metis prod_cases4)
  define rb1 where "rb1 = ref_set_side ?p s rb"
  have pass: "side_ok ?p s" using ok sweep_side_ok [OF sw] by (simp add: ref_ok_iff [of rb ?p])
  have "\<forall>p \<in> fst ` set s. \<forall>q \<in> fst ` set (ref_side (\<not> ?p) rb). better ?p q p"
    using ok sweep_prices [OF sw] unfolding ref_ok_iff [of rb ?p] by blast
  then have rb1: "ref_ok rb1"
    using ok pass by (simp add: ref_ok_iff [of _ ?p] rb1_def)
  show ?thesis
  proof (cases "n' = 0 \<or> w \<or> never_rests od \<or> at_capacity od ml mo rb1")
    case True
    with add False sw rb1 show ?thesis by (auto simp: ref_add_def Let_def rb1_def split: if_splits)
  next
    case rest: False
    let ?r = "\<lparr>ro_id = o_id od, ro_rem = n', ro_account = o_account_id od\<rparr>"
    have rb': "rb' = ref_set_side (is_buy od) (enqueue (is_buy od) (o_price od) ?r (ref_side (is_buy od) rb1)) rb1"
      using add False sw rest by (auto simp: ref_add_def Let_def rb1_def split: if_splits)
    have "\<forall>q \<in> fst ` set s. ref_blocks od q"
      using sweep_remainder_blocked [OF sw] ok rest by (auto simp: ref_ok_iff [of rb ?p])
    then have "\<forall>q \<in> fst ` set s. better (is_buy od) q (o_price od)" by (auto simp: ref_blocks_def)
    then show ?thesis
      using rb1 rest unfolding rb' ref_ok_iff [of _ "is_buy od"]
      by (auto simp: enqueue_prices enqueue_side_ok word_neq_0_conv rb1_def)
  qed
qed (use ok add in \<open>auto simp: ref_add_def Let_def\<close>)

subsection \<open>Cancel and modify\<close>

lemma side_ids_simps [simp]:
  "side_ids [] = []" "side_ids ((px, q) # s) = map ro_id q @ side_ids s"
  "side_ids (s @ s') = side_ids s @ side_ids s'"
  by (simp_all add: side_ids_def)

lemma sweep_queue_ids: "sweep_queue od px n q = (n', w, q', fs) \<Longrightarrow> ro_id ` set q' \<subseteq> ro_id ` set q"
  by (induction rule: sweep_queue_induct) auto

lemma sweep_ids: "sweep od n s = (n', w, s', fs) \<Longrightarrow> set (side_ids s') \<subseteq> set (side_ids s)"
  by (induction rule: sweep_induct) (auto dest: sweep_queue_ids)

text \<open>With distinct ids, an id in a side sits at one place of one queue.\<close>

lemma side_ids_split:
  assumes "oid \<in> set (side_ids s)"
  obtains A px q1 r q2 B where "s = A @ (px, q1 @ r # q2) # B" "ro_id r = oid"
proof -
  from assms obtain px q r where "(px, q) \<in> set s" "r \<in> set q" "ro_id r = oid"
    by (auto simp: side_ids_def)
  then show thesis using that by (metis split_list)
qed

lemma update_queue_split:
  "oid \<notin> set (side_ids A) \<Longrightarrow> oid \<in> ro_id ` set q \<Longrightarrow>
     update_queue oid f (A @ (px, q) # B) = A @ (if f q = [] then B else (px, f q) # B)"
  by (induction A) auto

lemma queue_ops_split:
  assumes "ro_id r = oid" "oid \<notin> ro_id ` set q1" "oid \<notin> ro_id ` set q2"
  shows "q_erase oid (q1 @ r # q2) = q1 @ q2"
    and "q_set_rem oid n (q1 @ r # q2) = q1 @ r\<lparr>ro_rem := n\<rparr> # q2"
    and "q_requeue oid n (q1 @ r # q2) = q1 @ q2 @ [r\<lparr>ro_rem := n\<rparr>]"
    and "find (\<lambda>r. ro_id r = oid) (q1 @ r # q2) = Some r"
proof -
  have keep: "filter (\<lambda>r. ro_id r \<noteq> oid) q = q" "filter (\<lambda>r. ro_id r = oid) q = []"
    "map (\<lambda>r. if ro_id r = oid then r\<lparr>ro_rem := n\<rparr> else r) q = q" if "oid \<notin> ro_id ` set q" for q
    using that by (auto intro!: filter_True map_idI simp: filter_empty_conv)
  show "q_erase oid (q1 @ r # q2) = q1 @ q2" "q_set_rem oid n (q1 @ r # q2) = q1 @ r\<lparr>ro_rem := n\<rparr> # q2"
    "q_requeue oid n (q1 @ r # q2) = q1 @ q2 @ [r\<lparr>ro_rem := n\<rparr>]"
    using assms(1) keep [OF assms(2)] keep [OF assms(3)] by (simp_all add: q_erase_def q_set_rem_def q_requeue_def)
  show "find (\<lambda>r. ro_id r = oid) (q1 @ r # q2) = Some r"
    using assms(1,2) by (induction q1) auto
qed

lemma q_modify_split:
  assumes "ro_id r = oid" "oid \<notin> ro_id ` set q1" "oid \<notin> ro_id ` set q2"
  shows "q_modify oid n (q1 @ r # q2) =
     (if n > ro_rem r then q1 @ q2 @ [r\<lparr>ro_rem := n\<rparr>]
      else if n = 0 then q1 @ q2 else q1 @ r\<lparr>ro_rem := n\<rparr> # q2)"
  using queue_ops_split [OF assms] by (simp add: q_modify_def)

lemma side_ok_append:
  "side_ok d (s1 @ s2) \<longleftrightarrow> side_ok d s1 \<and> side_ok d s2 \<and>
     (\<forall>p \<in> fst ` set s1. \<forall>q \<in> fst ` set s2. better d p q)"
  by (auto simp: side_ok_def sorted_wrt_append)

lemma side_ok_replace_queue:
  assumes "side_ok d (A @ (px, q) # B)" "\<forall>r \<in> set q'. ro_rem r > 0"
  shows "side_ok d (A @ (if q' = [] then B else (px, q') # B))"
  using assms by (auto simp: side_ok_append side_ok_Cons queue_ok_def)

lemma prices_replace_queue:
  "fst ` set (A @ (if q' = [] then B else (px, q') # B)) \<subseteq> fst ` set (A @ (px, q) # B)"
  by auto

lemma update_queue_ok:
  assumes ok: "side_ok d s" and dist: "distinct (side_ids s)" and mem: "oid \<in> set (side_ids s)"
    and f: "f = q_erase oid \<or> f = q_modify oid n"
  shows "side_ok d (update_queue oid f s)" "fst ` set (update_queue oid f s) \<subseteq> fst ` set s"
proof -
  obtain A px q1 r q2 B where s: "s = A @ (px, q1 @ r # q2) # B" "ro_id r = oid"
    using mem by (rule side_ids_split)
  with dist have notin: "oid \<notin> set (side_ids A)" "oid \<notin> ro_id ` set q1" "oid \<notin> ro_id ` set q2" by auto
  let ?q = "f (q1 @ r # q2)"
  have upd: "update_queue oid f s = A @ (if ?q = [] then B else (px, ?q) # B)"
    unfolding s(1) using s(2) notin(1) by (intro update_queue_split) auto
  have pos: "\<forall>x \<in> set (q1 @ r # q2). ro_rem x > 0"
    using ok by (simp add: s side_ok_append side_ok_Cons queue_ok_def)
  have "\<forall>x \<in> set ?q. ro_rem x > 0"
    using f pos queue_ops_split(1) [OF s(2) notin(2,3)] q_modify_split [OF s(2) notin(2,3), of n]
    by (auto simp: word_neq_0_conv split: if_splits)
  then show "side_ok d (update_queue oid f s)"
    unfolding upd using ok by (intro side_ok_replace_queue) (simp add: s)
  show "fst ` set (update_queue oid f s) \<subseteq> fst ` set s"
    unfolding upd unfolding s(1) by (rule prices_replace_queue)
qed

lemma uncrossed_mono:
  "uncrossed rb \<Longrightarrow> fst ` set (rb_bids rb') \<subseteq> fst ` set (rb_bids rb) \<Longrightarrow>
     fst ` set (rb_asks rb') \<subseteq> fst ` set (rb_asks rb) \<Longrightarrow> uncrossed rb'"
  unfolding uncrossed_def by blast

lemma ref_update_ok:
  assumes ok: "ref_ok rb" and dist: "distinct (ref_ids rb)"
    and f: "f = q_erase oid \<or> f = q_modify oid n" and upd: "ref_update oid f rb = (acc, rb')"
  shows "ref_ok rb'"
proof -
  have side: "side_ok d (update_queue oid f s) \<and> fst ` set (update_queue oid f s) \<subseteq> fst ` set s"
    if "side_ok d s" "distinct (side_ids s)" "oid \<in> set (side_ids s)" for d s
    using update_queue_ok [OF that f] by simp
  have dist2: "distinct (side_ids (rb_bids rb))" "distinct (side_ids (rb_asks rb))"
    using dist by (auto simp: ref_ids_def)
  note bids = side [OF _ dist2(1)] and asks = side [OF _ dist2(2)]
  show ?thesis
  proof (cases "oid \<in> set (side_ids (rb_bids rb))")
    case True
    with upd have "rb' = rb\<lparr>rb_bids := update_queue oid f (rb_bids rb)\<rparr>" by (simp add: ref_update_def)
    with ok bids [of True] True uncrossed_mono [of rb rb'] show ?thesis by (simp add: ref_ok_def)
  next
    case False
    note nb = False
    show ?thesis
    proof (cases "oid \<in> set (side_ids (rb_asks rb))")
      case True
      with nb upd have "rb' = rb\<lparr>rb_asks := update_queue oid f (rb_asks rb)\<rparr>" by (simp add: ref_update_def)
      with ok asks [of False] True uncrossed_mono [of rb rb'] show ?thesis by (simp add: ref_ok_def)
    qed (use nb ok upd in \<open>simp add: ref_update_def\<close>)
  qed
qed

end
