(* ===== verification/Book_Rep.thy ===== *)
theory Book_Rep
  imports Order_Book Ref_Book
begin

text \<open>
  How the arrays of \<open>Order_Book\<close> represent an abstract book.  \<open>book_rep d b L L' F\<close> says that side
  \<open>d\<close> of \<open>b\<close> threads the slot lists \<open>L\<close> (one per level), the other side \<open>L'\<close>, that \<open>F\<close> is the free
  list, that the three partition the slot pool, and that every entry of the order index points at a
  live slot carrying that id.  \<open>abs_book\<close> computes the abstract book from the arrays.
\<close>

subsection \<open>Accessors\<close>

lemma book_side_simps [simp]:
  "book_side d (set_side d s b) = s"
  "book_side (\<not> d) (set_side d s b) = book_side (\<not> d) b"
  "book_side d (set_side (\<not> d) s b) = book_side d b"
  "book_side d (b\<lparr>ob_slots := sl\<rparr>) = book_side d b"
  "book_side d (b\<lparr>ob_index := ix\<rparr>) = book_side d b"
  "book_side d (b\<lparr>ob_stat_orders := n\<rparr>) = book_side d b"
  "book_side d (b\<lparr>ob_stat_matches := n\<rparr>) = book_side d b"
  "book_side d (b\<lparr>ob_stat_cancelled := n\<rparr>) = book_side d b"
  "book_side d (b\<lparr>ob_stat_rejected := n\<rparr>) = book_side d b"
  "book_side d (b\<lparr>ob_stat_self_trade_prevented := n\<rparr>) = book_side d b"
  by (simp_all add: book_side_def set_side_def)

lemma set_side_frame [simp]:
  "ob_match_cb (set_side d s b) = ob_match_cb b" "ob_symbol (set_side d s b) = ob_symbol b"
  "ob_slots (set_side d s b) = ob_slots b" "ob_index (set_side d s b) = ob_index b"
  "ob_stat_orders (set_side d s b) = ob_stat_orders b"
  "ob_stat_matches (set_side d s b) = ob_stat_matches b"
  "ob_stat_cancelled (set_side d s b) = ob_stat_cancelled b"
  "ob_stat_rejected (set_side d s b) = ob_stat_rejected b"
  "ob_stat_self_trade_prevented (set_side d s b) = ob_stat_self_trade_prevented b"
  by (simp_all add: set_side_def)

lemma set_side_same [simp]: "set_side d (book_side d b) b = b"
  by (simp add: set_side_def book_side_def)

subsection \<open>Representation\<close>

definition level_rep :: "SlotPool \<Rightarrow> Level \<Rightarrow> nat list \<Rightarrow> bool" where
  "level_rep sl l xs = (dlist (sl_nexts sl) (sl_prevs sl) (lv_head l) xs (lv_tail l) \<and>
     lv_count l = of_nat (length xs) \<and> lv_qty l = sum_list (map (sl_qtys sl) xs) \<and>
     (\<forall>x \<in> set xs. sl_prices sl x = lv_price l \<and> 0 < sl_qtys sl x))"

definition side_rep :: "bool \<Rightarrow> SlotPool \<Rightarrow> BookSide \<Rightarrow> nat list list \<Rightarrow> bool" where
  "side_rep d sl s L = (list_all2 (level_rep sl) (levels s) L \<and> best_first d (levels s) \<and>
     bs_count s \<le> kMaxLevels)"

definition side_code :: "bool \<Rightarrow> u8" where
  "side_code d = (if d then 0 else 1)"

definition entry_ok :: "bool \<Rightarrow> SlotPool \<Rightarrow> nat list list \<Rightarrow> nat list list \<Rightarrow> OrderId \<Rightarrow> nat \<times> u8 \<Rightarrow> bool" where
  "entry_ok d sl L L' oid v = (sl_ids sl (fst v) = oid \<and>
     (snd v = side_code d \<and> fst v \<in> set (concat L) \<or> snd v = side_code (\<not> d) \<and> fst v \<in> set (concat L')))"

definition book_rep :: "bool \<Rightarrow> OrderBook \<Rightarrow> nat list list \<Rightarrow> nat list list \<Rightarrow> nat list \<Rightarrow> bool" where
  "book_rep d b L L' F = (
     side_rep d (ob_slots b) (book_side d b) L \<and>
     side_rep (\<not> d) (ob_slots b) (book_side (\<not> d) b) L' \<and>
     pool_free (ob_slots b) F \<and>
     distinct (concat L @ concat L' @ F) \<and>
     set (concat L @ concat L' @ F) = {..<kMaxOrders} \<and>
     oidx.pairs_ok (entry_ok d (ob_slots b) L L') (ob_index b))"

text \<open>Between operations no level is empty.\<close>

definition no_empty :: "nat list list \<Rightarrow> bool" where
  "no_empty L = ([] \<notin> set L)"

text \<open>The index is complete when every live slot can be found under its id; then ids are unique.\<close>

definition complete :: "bool \<Rightarrow> OrderBook \<Rightarrow> nat list list \<Rightarrow> nat list list \<Rightarrow> bool" where
  "complete d b L L' = (
     (\<forall>x \<in> set (concat L). index_map (ob_index b) (sl_ids (ob_slots b) x) = Some (x, side_code d)) \<and>
     (\<forall>x \<in> set (concat L'). index_map (ob_index b) (sl_ids (ob_slots b) x) = Some (x, side_code (\<not> d))))"

definition book_inv :: "OrderBook \<Rightarrow> bool" where
  "book_inv b = (\<exists>L L' F. book_rep True b L L' F \<and> no_empty L \<and> no_empty L')"

definition book_inv_unique :: "OrderBook \<Rightarrow> bool" where
  "book_inv_unique b = (\<exists>L L' F. book_rep True b L L' F \<and> no_empty L \<and> no_empty L' \<and> complete True b L L')"

subsection \<open>Abstraction\<close>

definition abs_order :: "SlotPool \<Rightarrow> nat \<Rightarrow> RefOrder" where
  "abs_order sl x = \<lparr>ro_id = sl_ids sl x, ro_rem = sl_qtys sl x, ro_account = sl_accounts sl x\<rparr>"

definition abs_side :: "SlotPool \<Rightarrow> BookSide \<Rightarrow> RefSide" where
  "abs_side sl s = map (\<lambda>l. (lv_price l,
     map (abs_order sl) (walk (sl_nexts sl) (lv_head l) (unat (lv_count l))))) (levels s)"

definition abs_book :: "OrderBook \<Rightarrow> RefBook" where
  "abs_book b = \<lparr>rb_bids = abs_side (ob_slots b) (ob_bids b), rb_asks = abs_side (ob_slots b) (ob_asks b)\<rparr>"

definition abs_levels :: "SlotPool \<Rightarrow> Level list \<Rightarrow> nat list list \<Rightarrow> RefSide" where
  "abs_levels sl ls L = map2 (\<lambda>l xs. (lv_price l, map (abs_order sl) xs)) ls L"

definition report_fill :: "ExecutionReport \<Rightarrow> Fill" where
  "report_fill r = \<lparr>f_aggr = r_order_id r, f_passive = r_contra_order_id r, f_px = r_exec_price r,
     f_qty = r_exec_qty r\<rparr>"

lemma abs_order_sel [simp]:
  "ro_id (abs_order sl x) = sl_ids sl x" "ro_rem (abs_order sl x) = sl_qtys sl x"
  "ro_account (abs_order sl x) = sl_accounts sl x"
  by (simp_all add: abs_order_def)

lemma abs_levels_simps [simp]:
  "abs_levels sl [] [] = []"
  "abs_levels sl (l # ls) (xs # L) = (lv_price l, map (abs_order sl) xs) # abs_levels sl ls L"
  by (simp_all add: abs_levels_def)

lemma abs_levels_append:
  "length ls = length L \<Longrightarrow> abs_levels sl (ls @ ms) (L @ M) = abs_levels sl ls L @ abs_levels sl ms M"
  by (simp add: abs_levels_def)

lemma abs_levels_prices: "length ls = length L \<Longrightarrow> map fst (abs_levels sl ls L) = map lv_price ls"
  by (induction ls L rule: list_induct2) simp_all

lemma abs_levels_ids:
  "length ls = length L \<Longrightarrow> side_ids (abs_levels sl ls L) = map (sl_ids sl) (concat L)"
  by (induction ls L rule: list_induct2) simp_all

lemma abs_levels_orders:
  "length ls = length L \<Longrightarrow> concat (map snd (abs_levels sl ls L)) = map (abs_order sl) (concat L)"
  by (induction ls L rule: list_induct2) simp_all

lemma ref_side_abs: "ref_side d (abs_book b) = abs_side (ob_slots b) (book_side d b)"
  by (simp add: ref_side_def abs_book_def book_side_def)

lemma ref_book_eqI: "ref_side d rb = ref_side d rb' \<Longrightarrow> ref_side (\<not> d) rb = ref_side (\<not> d) rb' \<Longrightarrow> rb = rb'"
  by (cases d) (auto simp: ref_side_def)

subsection \<open>Sharing and framing\<close>

lemma level_rep_cong:
  assumes "\<And>x. x \<in> set xs \<Longrightarrow> sl_nexts sl' x = sl_nexts sl x \<and> sl_prevs sl' x = sl_prevs sl x \<and>
      sl_qtys sl' x = sl_qtys sl x \<and> sl_prices sl' x = sl_prices sl x"
  shows "level_rep sl' l xs = level_rep sl l xs"
proof -
  have "dlist (sl_nexts sl') (sl_prevs sl') h xs t = dlist (sl_nexts sl) (sl_prevs sl) h xs t" for h t
    using assms by (intro dlist_cong) auto
  moreover have "sum_list (map (sl_qtys sl') xs) = sum_list (map (sl_qtys sl) xs)"
    by (rule arg_cong [where f = sum_list]) (use assms in auto)
  ultimately show ?thesis using assms by (simp add: level_rep_def)
qed

lemma levels_rep_cong:
  assumes "\<And>x. x \<in> set (concat L) \<Longrightarrow> sl_nexts sl' x = sl_nexts sl x \<and> sl_prevs sl' x = sl_prevs sl x \<and>
      sl_qtys sl' x = sl_qtys sl x \<and> sl_prices sl' x = sl_prices sl x"
  shows "list_all2 (level_rep sl') ls L = list_all2 (level_rep sl) ls L"
proof -
  have "level_rep sl' l xs = level_rep sl l xs" if "xs \<in> set L" for l xs
    using assms that by (intro level_rep_cong) auto
  then show ?thesis by (metis (no_types, lifting) list_all2_mono_set)
qed

lemma side_rep_cong:
  assumes "\<And>x. x \<in> set (concat L) \<Longrightarrow> sl_nexts sl' x = sl_nexts sl x \<and> sl_prevs sl' x = sl_prevs sl x \<and>
      sl_qtys sl' x = sl_qtys sl x \<and> sl_prices sl' x = sl_prices sl x"
  shows "side_rep d sl' s L = side_rep d sl s L"
  using levels_rep_cong [OF assms] by (simp add: side_rep_def)

lemma abs_levels_cong:
  assumes "\<And>x. x \<in> set (concat L) \<Longrightarrow> abs_order sl' x = abs_order sl x"
  shows "abs_levels sl' ls L = abs_levels sl ls L"
proof -
  have "map (abs_order sl') xs = map (abs_order sl) xs" if "xs \<in> set L" for xs
    using assms that by auto
  then show ?thesis unfolding abs_levels_def
    by (intro map_cong refl) (auto dest: set_zip_rightD)
qed

lemma book_rep_sym: "book_rep d b L L' F \<longleftrightarrow> book_rep (\<not> d) b L' L F"
proof -
  have "entry_ok (\<not> d) sl L' L = entry_ok d sl L L'" for sl
    by (auto simp: entry_ok_def fun_eq_iff)
  moreover have "set (concat L' @ concat L @ F) = set (concat L @ concat L' @ F)" by auto
  moreover have "distinct (concat L' @ concat L @ F) = distinct (concat L @ concat L' @ F)"
    by (auto simp: distinct_append)
  ultimately show ?thesis unfolding book_rep_def by auto
qed

lemma complete_sym: "complete d b L L' \<longleftrightarrow> complete (\<not> d) b L' L"
  by (auto simp: complete_def)

lemma live_slot: "book_rep d b L L' F \<Longrightarrow> x \<in> set (concat L @ concat L' @ F) \<Longrightarrow> x < kMaxOrders"
  unfolding book_rep_def by (metis lessThan_iff)

lemma level_length:
  assumes "book_rep d b L L' F" "xs \<in> set L"
  shows "length xs \<le> kMaxOrders"
proof (rule distinct_subset_length)
  show "distinct xs" using assms by (auto simp: book_rep_def distinct_concat_iff)
  show "set xs \<subseteq> {..<kMaxOrders}" using assms live_slot [OF assms(1)] by fastforce
qed

lemma level_count_unat:
  assumes "book_rep d b L L' F" "xs \<in> set L" "level_rep (ob_slots b) l xs"
  shows "unat (lv_count l) = length xs" "lv_count l = 0 \<longleftrightarrow> xs = []"
proof -
  have small: "length xs < 2 ^ LENGTH(32)" using level_length [OF assms(1,2)] by (simp add: kMaxOrders_def)
  have cnt: "lv_count l = of_nat (length xs)" using assms(3) by (simp add: level_rep_def)
  show "unat (lv_count l) = length xs" using small cnt by (simp add: unat_of_nat_small)
  show "lv_count l = 0 \<longleftrightarrow> xs = []" using small cnt of_nat_eq_0_small [of "length xs", where 'a = 32] by simp
qed

lemma abs_side_rep:
  assumes "book_rep d b L L' F"
  shows "abs_side (ob_slots b) (book_side d b) = abs_levels (ob_slots b) (levels (book_side d b)) L"
proof -
  let ?sl = "ob_slots b"
  have "list_all2 (level_rep ?sl) (levels (book_side d b)) L" using assms by (simp add: book_rep_def side_rep_def)
  moreover have "walk (sl_nexts ?sl) (lv_head l) (unat (lv_count l)) = xs"
    if "level_rep ?sl l xs" "xs \<in> set L" for l xs
    using that level_count_unat [OF assms that(2,1)] dlist_walk by (fastforce simp: level_rep_def)
  ultimately have "list_all2 (\<lambda>l xs. walk (sl_nexts ?sl) (lv_head l) (unat (lv_count l)) = xs)
      (levels (book_side d b)) L"
    by (rule list_all2_mono_set) blast
  then show ?thesis unfolding abs_side_def abs_levels_def
    by (auto simp: list_all2_conv_all_nth intro!: nth_equalityI)
qed

lemma abs_book_rep:
  assumes "book_rep d b L L' F"
  shows "ref_side d (abs_book b) = abs_levels (ob_slots b) (levels (book_side d b)) L"
    and "ref_side (\<not> d) (abs_book b) = abs_levels (ob_slots b) (levels (book_side (\<not> d) b)) L'"
  using abs_side_rep [OF assms] abs_side_rep [of "\<not> d" b L' L F] assms
  by (simp_all add: ref_side_abs book_rep_sym [of d])

subsection \<open>A new book\<close>

lemma new_book_rep: "book_rep d (new_book sy cb raw) [] [] [0..<kMaxOrders]"
proof -
  have side: "bs_count (book_side d (new_book sy cb raw)) = 0" for d
    by (simp add: new_book_def book_side_def)
  then have "levels (book_side d (new_book sy cb raw)) = []" for d by (simp add: levels_empty)
  with side show ?thesis
    by (auto simp: book_rep_def side_rep_def best_first_def pool_free_init new_book_def oidx.pairs_ok_def
        index_inv_init)
qed

lemma complete_new: "complete d (new_book sy cb raw) [] []"
  by (simp add: complete_def)

subsection \<open>Editing one queue\<close>

text \<open>\<open>edits d i X b b'\<close>: from \<open>b\<close> to \<open>b'\<close> only level \<open>i\<close> of side \<open>d\<close> and the slots in \<open>X\<close> have
  changed, and the level has kept its price.\<close>

definition same_slot :: "SlotPool \<Rightarrow> SlotPool \<Rightarrow> nat \<Rightarrow> bool" where
  "same_slot sl sl' x = (sl_nexts sl' x = sl_nexts sl x \<and> sl_prevs sl' x = sl_prevs sl x \<and>
     sl_qtys sl' x = sl_qtys sl x \<and> sl_prices sl' x = sl_prices sl x \<and>
     sl_ids sl' x = sl_ids sl x \<and> sl_accounts sl' x = sl_accounts sl x)"

definition edits :: "bool \<Rightarrow> nat \<Rightarrow> nat set \<Rightarrow> OrderBook \<Rightarrow> OrderBook \<Rightarrow> bool" where
  "edits d i X b b' = (bs_count (book_side d b') = bs_count (book_side d b) \<and>
     (\<forall>j. j \<noteq> i \<longrightarrow> level_at (book_side d b') j = level_at (book_side d b) j) \<and>
     bs_prices (book_side d b') i = bs_prices (book_side d b) i \<and>
     book_side (\<not> d) b' = book_side (\<not> d) b \<and>
     (\<forall>x. x \<notin> X \<longrightarrow> same_slot (ob_slots b) (ob_slots b') x))"

lemma rep_split:
  assumes "book_rep d b (L1 @ xs # L2) L' F"
  obtains A B where "levels (book_side d b) = A @ level_at (book_side d b) (length L1) # B" "length A = length L1"
    "list_all2 (level_rep (ob_slots b)) A L1"
    "level_rep (ob_slots b) (level_at (book_side d b) (length L1)) xs"
    "list_all2 (level_rep (ob_slots b)) B L2"
proof -
  have "list_all2 (level_rep (ob_slots b)) (levels (book_side d b)) (L1 @ xs # L2)"
    using assms by (simp add: book_rep_def side_rep_def)
  then obtain A l B where "levels (book_side d b) = A @ l # B" "length A = length L1"
      "list_all2 (level_rep (ob_slots b)) A L1" "level_rep (ob_slots b) l xs"
      "list_all2 (level_rep (ob_slots b)) B L2"
    by (auto simp: list_all2_append2 list_all2_Cons2)
  then show thesis using that levels_split(2) by metis
qed

lemma rep_level_at:
  assumes rep: "book_rep d b (L1 @ xs # L2) L' F"
  shows "level_rep (ob_slots b) (level_at (book_side d b) (length L1)) xs" "length L1 < bs_count (book_side d b)"
proof -
  from rep obtain A B where "levels (book_side d b) = A @ level_at (book_side d b) (length L1) # B"
    "length A = length L1" and lev: "level_rep (ob_slots b) (level_at (book_side d b) (length L1)) xs"
    by (rule rep_split)
  then show "length L1 < bs_count (book_side d b)" using levels_split(1) by metis
  show "level_rep (ob_slots b) (level_at (book_side d b) (length L1)) xs" by (rule lev)
qed

lemma edit_book_rep:
  assumes rep: "book_rep d b (L1 @ xs # L2) L' F" and ed: "edits d (length L1) (set (xs @ F)) b b'"
    and lev: "level_rep (ob_slots b') (level_at (book_side d b') (length L1)) xs'"
    and pool: "pool_free (ob_slots b') F'"
    and slots: "distinct (xs' @ F')" "set (xs' @ F') = set (xs @ F)"
    and idx: "oidx.pairs_ok (entry_ok d (ob_slots b') (L1 @ xs' # L2) L') (ob_index b')"
  shows "book_rep d b' (L1 @ xs' # L2) L' F'"
proof -
  from rep obtain A B where AB: "levels (book_side d b) = A @ level_at (book_side d b) (length L1) # B"
    "length A = length L1" "list_all2 (level_rep (ob_slots b)) A L1"
    "list_all2 (level_rep (ob_slots b)) B L2" by (rule rep_split)
  have dist: "distinct (concat L1 @ xs @ concat L2 @ concat L' @ F)"
    using rep by (simp add: book_rep_def)
  have same: "same_slot (ob_slots b) (ob_slots b') x" if "x \<in> set (concat L1 @ concat L2 @ concat L')" for x
  proof -
    from that dist have "x \<notin> set (xs @ F)" by auto
    then show ?thesis using ed by (simp add: edits_def)
  qed
  let ?l = "level_at (book_side d b') (length L1)"
  have lv: "levels (book_side d b') = A @ ?l # B"
    using levels_upd_split [OF AB(1), of "book_side d b'"] ed AB(2) by (simp add: edits_def)
  have "list_all2 (level_rep (ob_slots b')) A L1"
    by (rule levels_rep_cong [THEN iffD2, OF _ AB(3)]) (use same in \<open>auto simp: same_slot_def\<close>)
  moreover have "list_all2 (level_rep (ob_slots b')) B L2"
    by (rule levels_rep_cong [THEN iffD2, OF _ AB(4)]) (use same in \<open>auto simp: same_slot_def\<close>)
  ultimately have "list_all2 (level_rep (ob_slots b')) (levels (book_side d b')) (L1 @ xs' # L2)"
    using lev AB(2) by (simp add: lv list_all2_appendI)
  moreover have "best_first d (levels (book_side d b')) = best_first d (levels (book_side d b))"
    by (rule best_first_same_prices) (use ed in \<open>simp add: lv AB(1) edits_def\<close>)
  moreover have "side_rep (\<not> d) (ob_slots b') (book_side (\<not> d) b) L'
      = side_rep (\<not> d) (ob_slots b) (book_side (\<not> d) b) L'"
    by (rule side_rep_cong) (use same in \<open>auto simp: same_slot_def\<close>)
  moreover have "distinct (concat (L1 @ xs' # L2) @ concat L' @ F')"
    using distinct_exchange [of "concat L1" xs "concat L2 @ concat L'" F, OF _ slots] dist by simp
  moreover have "set (concat (L1 @ xs' # L2) @ concat L' @ F') = {..<kMaxOrders}"
  proof -
    have "set (concat (L1 @ xs' # L2) @ concat L' @ F')
        = set (concat L1 @ concat L2 @ concat L') \<union> set (xs' @ F')" by auto
    also have "\<dots> = set (concat (L1 @ xs # L2) @ concat L' @ F)" unfolding slots(2) by auto
    finally show ?thesis using rep by (simp add: book_rep_def)
  qed
  ultimately show ?thesis
    using rep ed pool idx unfolding book_rep_def side_rep_def edits_def by simp
qed

lemma abs_levels_split:
  assumes "abs_levels sl ls (L1 @ xs # L2) = S1 @ (px, q) # S2" "length S1 = length L1"
    "ls = A @ l # B" "length A = length L1" "length B = length L2"
  shows "S1 = abs_levels sl A L1" "px = lv_price l" "q = map (abs_order sl) xs" "S2 = abs_levels sl B L2"
proof -
  have "abs_levels sl ls (L1 @ xs # L2) = abs_levels sl A L1 @ (lv_price l, map (abs_order sl) xs) # abs_levels sl B L2"
    using assms by (simp add: abs_levels_append)
  moreover have "length (abs_levels sl A L1) = length S1" using assms by (simp add: abs_levels_def)
  ultimately show "S1 = abs_levels sl A L1" "px = lv_price l" "q = map (abs_order sl) xs" "S2 = abs_levels sl B L2"
    using assms(1) by auto
qed

lemma rep_queue_at:
  assumes rep: "book_rep d b (L1 @ xs # L2) L' F"
    and abs: "ref_side d (abs_book b) = S1 @ (px, q) # S2" "length S1 = length L1"
  shows "px = bs_prices (book_side d b) (length L1)" "q = map (abs_order (ob_slots b)) xs"
proof -
  from rep obtain A B where AB: "levels (book_side d b) = A @ level_at (book_side d b) (length L1) # B"
    "length A = length L1" "length B = length L2" by (rule rep_split) (metis list_all2_lengthD)
  have "abs_levels (ob_slots b) (levels (book_side d b)) (L1 @ xs # L2) = S1 @ (px, q) # S2"
    using abs_book_rep(1) [OF rep] abs(1) by simp
  note S = abs_levels_split [OF this abs(2) AB]
  from S(2,3) show "px = bs_prices (book_side d b) (length L1)" "q = map (abs_order (ob_slots b)) xs"
    by simp_all
qed

lemma edit_abs:
  assumes rep: "book_rep d b (L1 @ xs # L2) L' F" and ed: "edits d (length L1) (set (xs @ F)) b b'"
    and rep': "book_rep d b' (L1 @ xs' # L2) L' F'"
    and abs: "ref_side d (abs_book b) = S1 @ (px, q) # S2" "length S1 = length L1"
  shows "abs_book b' = ref_set_side d (S1 @ (px, map (abs_order (ob_slots b')) xs') # S2) (abs_book b)"
proof (rule ref_book_eqI [of d])
  from rep obtain A B where AB: "levels (book_side d b) = A @ level_at (book_side d b) (length L1) # B"
    "length A = length L1" "length B = length L2" by (rule rep_split) (metis list_all2_lengthD)
  let ?l = "level_at (book_side d b') (length L1)"
  have lv: "levels (book_side d b') = A @ ?l # B"
    using levels_upd_split [OF AB(1), of "book_side d b'"] ed AB(2) by (simp add: edits_def)
  have dist: "distinct (concat L1 @ xs @ concat L2 @ concat L' @ F)"
    using rep by (simp add: book_rep_def)
  have same: "abs_order (ob_slots b') x = abs_order (ob_slots b) x"
    if "x \<in> set (concat L1 @ concat L2 @ concat L')" for x
  proof -
    from that dist have "x \<notin> set (xs @ F)" by auto
    then show ?thesis using ed by (simp add: edits_def same_slot_def abs_order_def)
  qed
  have "abs_levels (ob_slots b) (levels (book_side d b)) (L1 @ xs # L2) = S1 @ (px, q) # S2"
    using abs_book_rep(1) [OF rep] abs(1) by simp
  note S = abs_levels_split [OF this abs(2) AB]
  have "abs_levels (ob_slots b') A L1 = S1" "abs_levels (ob_slots b') B L2 = S2"
    unfolding S(1,4) using same by (auto intro!: abs_levels_cong)
  moreover have "px = lv_price ?l" using S(2) ed by (simp add: edits_def)
  ultimately show "ref_side d (abs_book b')
      = ref_side d (ref_set_side d (S1 @ (px, map (abs_order (ob_slots b')) xs') # S2) (abs_book b))"
    using abs_book_rep(1) [OF rep'] AB(2) by (simp add: lv abs_levels_append)
  have "abs_levels (ob_slots b') (levels (book_side (\<not> d) b)) L' = abs_levels (ob_slots b) (levels (book_side (\<not> d) b)) L'"
    using same by (intro abs_levels_cong) auto
  then show "ref_side (\<not> d) (abs_book b')
      = ref_side (\<not> d) (ref_set_side d (S1 @ (px, map (abs_order (ob_slots b')) xs') # S2) (abs_book b))"
    using abs_book_rep(2) [OF rep'] abs_book_rep(2) [OF rep] ed by (simp add: edits_def)
qed

text \<open>An emptied level is removed; a level is created empty.\<close>

lemma drop_level_rep:
  assumes rep: "book_rep d b (L1 @ [] # L2) L' F" and i: "i = length L1"
  defines "b' \<equiv> set_side d (remove_level i (book_side d b)) b"
  shows "book_rep d b' (L1 @ L2) L' F"
proof -
  from rep obtain A B where AB: "levels (book_side d b) = A @ level_at (book_side d b) (length L1) # B"
    "length A = length L1" "list_all2 (level_rep (ob_slots b)) A L1"
    "list_all2 (level_rep (ob_slots b)) B L2" by (rule rep_split)
  have lv: "levels (book_side d b') = A @ B" "bs_count (book_side d b') = bs_count (book_side d b) - 1"
    using remove_level_levels [OF AB(1)] AB(2) by (simp_all add: b'_def i)
  have "best_first d (A @ B)" "bs_count (book_side d b) \<le> kMaxLevels"
    using rep AB(1) by (auto simp: side_rep_def book_rep_def intro: best_first_remove)
  then have "side_rep d (ob_slots b') (book_side d b') (L1 @ L2)"
    using list_all2_appendI [OF AB(3,4)] lv by (simp add: side_rep_def) (simp add: b'_def)
  moreover have "entry_ok d (ob_slots b) (L1 @ L2) L' = entry_ok d (ob_slots b) (L1 @ [] # L2) L'"
    by (simp add: entry_ok_def fun_eq_iff)
  ultimately show ?thesis using rep by (simp add: book_rep_def b'_def)
qed

lemma drop_level_abs:
  assumes rep: "book_rep d b (L1 @ [] # L2) L' F" and i: "i = length L1"
    and abs: "ref_side d (abs_book b) = S1 @ (px, q) # S2" "length S1 = length L1"
  defines "b' \<equiv> set_side d (remove_level i (book_side d b)) b"
  shows "abs_book b' = ref_set_side d (S1 @ S2) (abs_book b)"
proof (rule ref_book_eqI [of d])
  from rep obtain A B where AB: "levels (book_side d b) = A @ level_at (book_side d b) (length L1) # B"
    "length A = length L1" "length B = length L2" by (rule rep_split) (metis list_all2_lengthD)
  have rep': "book_rep d b' (L1 @ L2) L' F" using drop_level_rep [OF rep i] by (simp add: b'_def)
  have lv: "levels (book_side d b') = A @ B"
    using remove_level_levels [OF AB(1)] AB(2) by (simp add: b'_def i)
  have "abs_levels (ob_slots b) (levels (book_side d b)) (L1 @ [] # L2) = S1 @ (px, q) # S2"
    using abs_book_rep(1) [OF rep] abs(1) by simp
  note S = abs_levels_split [OF this abs(2) AB]
  show "ref_side d (abs_book b') = ref_side d (ref_set_side d (S1 @ S2) (abs_book b))"
    using abs_book_rep(1) [OF rep'] AB(2) S(1,4) by (simp add: lv abs_levels_append) (simp add: b'_def)
  show "ref_side (\<not> d) (abs_book b') = ref_side (\<not> d) (ref_set_side d (S1 @ S2) (abs_book b))"
    by (simp add: ref_side_abs b'_def)
qed

subsection \<open>The index while a queue is edited\<close>

lemma entry_ok_weaken:
  "entry_ok d sl L L' k v \<Longrightarrow> sl_ids sl' (fst v) = sl_ids sl (fst v) \<Longrightarrow>
     (fst v \<in> set (concat L) \<Longrightarrow> fst v \<in> set (concat M)) \<Longrightarrow> entry_ok d sl' M L' k v"
  by (auto simp: entry_ok_def)

lemma same_pairs:
  assumes "book_rep d b (L1 @ xs # L2) L' F" "sl_ids sl' = sl_ids (ob_slots b)" "set xs' = set xs"
  shows "oidx.pairs_ok (entry_ok d sl' (L1 @ xs' # L2) L') (ob_index b)"
  using assms unfolding book_rep_def by (auto elim!: oidx.pairs_ok_mono entry_ok_weaken)

lemma remove_pairs:
  assumes "book_rep d b (L1 @ (ys @ s # zs) # L2) L' F" "sl_ids sl' = sl_ids (ob_slots b)"
  obtains r t' where "index_remove (ob_index b) (sl_ids (ob_slots b) s) = Some (r, t')"
    "oidx.pairs_ok (entry_ok d sl' (L1 @ (ys @ zs) # L2) L') t'"
    "index_map t' = (index_map (ob_index b))(sl_ids (ob_slots b) s := None)"
proof -
  let ?k = "sl_ids (ob_slots b) s"
  have "oidx.pairs_ok (entry_ok d (ob_slots b) (L1 @ (ys @ s # zs) # L2) L') (ob_index b)"
    using assms(1) by (simp add: book_rep_def)
  then obtain r t' where t': "index_remove (ob_index b) ?k = Some (r, t')"
    "oidx.pairs_ok (\<lambda>k v. k \<noteq> ?k \<and> entry_ok d (ob_slots b) (L1 @ (ys @ s # zs) # L2) L' k v) t'"
    "index_map t' = (index_map (ob_index b))(?k := None)" by (rule oidx.erase_pairs_ok)
  have "oidx.pairs_ok (entry_ok d sl' (L1 @ (ys @ zs) # L2) L') t'"
    using t'(2) by (rule oidx.pairs_ok_mono) (use assms(2) in \<open>auto simp: entry_ok_def\<close>)
  with t' show thesis using that by blast
qed

lemma index_map_other:
  assumes "m (f s) = Some (s, c)" "s \<notin> X" "\<forall>x \<in> X. m (f x) = Some (x, e)"
  shows "\<forall>x \<in> X. (m(f s := None)) (f x) = Some (x, e)"
  using assms by (metis fun_upd_apply option.inject prod.inject)

lemma complete_remove:
  assumes "book_rep d b (L1 @ (ys @ s # zs) # L2) L' F" "complete d b (L1 @ (ys @ s # zs) # L2) L'"
    "sl_ids (ob_slots b') = sl_ids (ob_slots b)"
    "index_map (ob_index b') = (index_map (ob_index b))(sl_ids (ob_slots b) s := None)"
  shows "complete d b' (L1 @ (ys @ zs) # L2) L'"
proof -
  have found: "index_map (ob_index b) (sl_ids (ob_slots b) s) = Some (s, side_code d)"
    using assms(2) by (simp add: complete_def)
  have "s \<notin> set (concat (L1 @ (ys @ zs) # L2) @ concat L')"
    using assms(1) by (auto simp: book_rep_def)
  then show ?thesis
    using assms(2) unfolding complete_def assms(3,4)
    by (intro conjI index_map_other [where c = "side_code d"] found) auto
qed

text \<open>Everything an edit of the queues leaves alone.\<close>

definition same_conf :: "OrderBook \<Rightarrow> OrderBook \<Rightarrow> bool" where
  "same_conf b b' = (ob_match_cb b' = ob_match_cb b \<and> ob_symbol b' = ob_symbol b \<and>
     ob_stat_orders b' = ob_stat_orders b \<and> ob_stat_cancelled b' = ob_stat_cancelled b \<and>
     ob_stat_rejected b' = ob_stat_rejected b \<and>
     ob_stat_self_trade_prevented b' = ob_stat_self_trade_prevented b)"

lemma same_conf_refl [simp]: "same_conf b b"
  by (simp add: same_conf_def)

lemma same_conf_trans: "same_conf a b \<Longrightarrow> same_conf b c \<Longrightarrow> same_conf a c"
  by (simp add: same_conf_def)

lemma ref_set_side_twice [simp]: "ref_set_side d s (ref_set_side d s' rb) = ref_set_side d s rb"
  by (simp add: ref_set_side_def)

lemma ref_set_side_same: "ref_side d rb = s \<Longrightarrow> ref_set_side d s rb = rb"
  by (auto simp: ref_set_side_def ref_side_def)

text \<open>Reading the first level through the abstraction.\<close>

lemma rep_first:
  assumes rep: "book_rep d b (xs # L) L' F" and abs: "ref_side d (abs_book b) = (px, q) # S"
  shows "q = map (abs_order (ob_slots b)) xs" "px = bs_prices (book_side d b) 0"
    "level_rep (ob_slots b) (level_at (book_side d b) 0) xs" "0 < bs_count (book_side d b)"
proof -
  have rep0: "book_rep d b ([] @ xs # L) L' F" using rep by simp
  show "level_rep (ob_slots b) (level_at (book_side d b) 0) xs" "0 < bs_count (book_side d b)"
    using rep_level_at [OF rep0] by simp_all
  show "q = map (abs_order (ob_slots b)) xs" "px = bs_prices (book_side d b) 0"
    using rep_queue_at [OF rep0, of "[]"] abs by simp_all
qed

lemma rep_no_level:
  assumes "book_rep d b L L' F"
  shows "length (ref_side d (abs_book b)) = length L" "bs_count (book_side d b) = length L"
proof -
  have "length (levels (book_side d b)) = length L"
    using assms by (auto simp: book_rep_def side_rep_def dest: list_all2_lengthD)
  then show "length (ref_side d (abs_book b)) = length L" "bs_count (book_side d b) = length L"
    using abs_book_rep(1) [OF assms] by (simp_all add: abs_levels_def)
qed

text \<open>The counters play no part in the representation.\<close>

lemma book_rep_stats [simp]:
  "book_rep d (b\<lparr>ob_stat_orders := n\<rparr>) L L' F = book_rep d b L L' F"
  "book_rep d (b\<lparr>ob_stat_cancelled := n\<rparr>) L L' F = book_rep d b L L' F"
  "book_rep d (b\<lparr>ob_stat_rejected := n\<rparr>) L L' F = book_rep d b L L' F"
  "book_rep d (b\<lparr>ob_stat_self_trade_prevented := n\<rparr>) L L' F = book_rep d b L L' F"
  by (simp_all add: book_rep_def)

lemma complete_stats [simp]:
  "complete d (b\<lparr>ob_stat_orders := n\<rparr>) L L' = complete d b L L'"
  "complete d (b\<lparr>ob_stat_cancelled := n\<rparr>) L L' = complete d b L L'"
  "complete d (b\<lparr>ob_stat_rejected := n\<rparr>) L L' = complete d b L L'"
  "complete d (b\<lparr>ob_stat_self_trade_prevented := n\<rparr>) L L' = complete d b L L'"
  by (simp_all add: complete_def)

lemma abs_book_stats [simp]:
  "abs_book (b\<lparr>ob_stat_orders := n\<rparr>) = abs_book b"
  "abs_book (b\<lparr>ob_stat_cancelled := n\<rparr>) = abs_book b"
  "abs_book (b\<lparr>ob_stat_rejected := n\<rparr>) = abs_book b"
  "abs_book (b\<lparr>ob_stat_self_trade_prevented := n\<rparr>) = abs_book b"
  by (simp_all add: abs_book_def)

end
