(* ===== verification/Book_Match.thy ===== *)
theory Book_Match
  imports Book_Rep
begin

text \<open>
  \<^verbatim>\<open>OrderBook::try_match\<close> and \<^verbatim>\<open>available_liquidity\<close> against the abstract specification: the inner loop
  refines \<open>sweep_queue\<close>, the outer loop \<open>sweep\<close>, and the liquidity walk decides the same
  fill-or-kill question as \<open>liquidity\<close>.  All of them return.
\<close>

subsection \<open>One fill\<close>

text \<open>The reports of a run of fills: each carries what is left of the aggressor after it.\<close>

fun fill_reports :: "SymbolId \<Rightarrow> Order \<Rightarrow> Qty \<Rightarrow> Fill list \<Rightarrow> ExecutionReport list" where
  "fill_reports sy od n [] = []"
| "fill_reports sy od n (f # fs) = \<lparr>
     r_order_id = f_aggr f, r_contra_order_id = f_passive f, r_exec_price = f_px f, r_exec_qty = f_qty f,
     r_leaves_qty = n - f_qty f, r_symbol = sy, r_side = o_side od,
     r_exec_type = (if n - f_qty f = 0 then ExecFill else ExecPartialFill)\<rparr> # fill_reports sy od (n - f_qty f) fs"

definition emitted :: "OrderBook \<Rightarrow> Order \<Rightarrow> Qty \<Rightarrow> Fill list \<Rightarrow> ExecutionReport list" where
  "emitted b od n fs = (if ob_match_cb b then fill_reports (ob_symbol b) od n fs else [])"

text \<open>What matching keeps, beside the representation: completeness of the index, the configuration,
  and the other counters; each fill counts one match.\<close>

definition matched ::
  "bool \<Rightarrow> OrderBook \<Rightarrow> nat list list \<Rightarrow> nat list list \<Rightarrow> nat \<Rightarrow> OrderBook \<Rightarrow> nat list list \<Rightarrow> nat list \<Rightarrow> bool" where
  "matched p b L L' k b' M F' = (book_rep p b' M L' F' \<and>
     (complete p b L L' \<longrightarrow> complete p b' M L') \<and> same_conf b b' \<and>
     ob_stat_matches b' = ob_stat_matches b + of_nat k)"

lemma matched_trans:
  "matched p b L L' j b' M F' \<Longrightarrow> matched p b' M L' k b'' N F'' \<Longrightarrow> matched p b L L' (j + k) b'' N F''"
  by (auto simp: matched_def ac_simps intro: same_conf_trans)

lemma matched_refl: "book_rep p b L L' F \<Longrightarrow> matched p b L L' 0 b L F"
  by (simp add: matched_def)

lemma emitted_Cons: "emitted b od n (f # fs) = emitted b od n [f] @ emitted b od (n - f_qty f) fs"
  by (simp add: emitted_def)

lemma emitted_same_conf: "same_conf b b' \<Longrightarrow> emitted b' od n fs = emitted b od n fs"
  by (simp add: emitted_def same_conf_def)

lemma match_step_full:
  assumes rep: "book_rep p b ((s # ys) # L) L' F" and abs: "ref_side p (abs_book b) = (px, r # q) # S"
    and le: "ro_rem r \<le> n"
  obtains b' where
    "match_step p px s (od\<lparr>o_qty_remaining := n\<rparr>) b =
       Some (od\<lparr>o_qty_remaining := n - ro_rem r\<rparr>, b', emitted b od n [mk_fill od px r (ro_rem r)])"
    "matched p b ((s # ys) # L) L' 1 b' (ys # L) (s # F)"
    "abs_book b' = ref_set_side p ((px, q) # S) (abs_book b)"
proof -
  define sl where "sl = ob_slots b"
  define sd where "sd = book_side p b"
  define nxt where "nxt = sl_nexts sl s"
  define sl' where "sl' = free_slot s (sl\<lparr>sl_qtys := (sl_qtys sl)(s := 0),
     sl_prevs := (if nxt \<noteq> NULL_IDX then (sl_prevs sl)(nxt := NULL_IDX) else sl_prevs sl)\<rparr>)"
  define sd' where "sd' = sd\<lparr>bs_qtys := (bs_qtys sd)(0 := bs_qtys sd 0 - sl_qtys sl s),
     bs_head_idxs := (bs_head_idxs sd)(0 := nxt),
     bs_tail_idxs := (if nxt \<noteq> NULL_IDX then bs_tail_idxs sd else (bs_tail_idxs sd)(0 := NULL_IDX)),
     bs_order_counts := (bs_order_counts sd)(0 := bs_order_counts sd 0 - 1)\<rparr>"
  note first = rep_first [OF rep abs]
  have r: "r = abs_order sl s" "q = map (abs_order sl) ys" using first(1) by (simp_all add: sl_def)
  have lev: "level_rep sl (level_at sd 0) (s # ys)" using first(3) by (simp add: sl_def sd_def)
  have ids: "sl_ids sl' = sl_ids (ob_slots b)" by (simp add: sl'_def sl_def)
  obtain c t' where t': "index_remove (ob_index b) (sl_ids (ob_slots b) s) = Some (c, t')"
    "oidx.pairs_ok (entry_ok p sl' (ys # L) L') t'"
    "index_map t' = (index_map (ob_index b))(sl_ids (ob_slots b) s := None)"
    by (rule remove_pairs [of p b "[]" "[]" s ys L L' F sl']) (use rep ids in simp_all)
  define b' where "b' = set_side p sd' (b\<lparr>ob_slots := sl', ob_index := t', ob_stat_matches := ob_stat_matches b + 1\<rparr>)"
  have step: "match_step p px s (od\<lparr>o_qty_remaining := n\<rparr>) b =
       Some (od\<lparr>o_qty_remaining := n - ro_rem r\<rparr>, b', emitted b od n [mk_fill od px r (ro_rem r)])"
    using le t'(1)
    by (auto simp: match_step_def dequeue_filled_def Let_def min_absorb2 b'_def sd'_def sl'_def nxt_def r
        sl_def sd_def emitted_def fill_report_def mk_fill_def abs_order_def set_side_def book_side_def)
  have dist: "distinct (s # ys)" "distinct (ys @ s # F)" "s \<notin> set F" "s < kMaxOrders"
    using rep live_slot [OF rep, of s] by (auto simp: book_rep_def)
  have lev': "level_rep sl' (level_at sd' 0) ys"
    using lev dlist_pop_head [of "sl_nexts sl" "sl_prevs sl" "bs_head_idxs sd 0" s ys "bs_tail_idxs sd 0"] dist
    by (auto simp: level_rep_def sl'_def sd'_def nxt_def)
  have "nxt = NULL_IDX \<or> nxt \<in> set ys"
    using lev dlist_neighbours(1) [of _ _ _ "[]"] by (fastforce simp: level_rep_def nxt_def)
  then have ed: "edits p 0 (set ((s # ys) @ F)) b b'"
    by (auto simp: edits_def same_slot_def b'_def sd'_def sl'_def nxt_def sl_def sd_def level_at_def)
  have "pool_free sl F" using rep by (simp add: book_rep_def sl_def)
  then have "pool_free (sl\<lparr>sl_qtys := x, sl_prevs := y\<rparr>) F" for x y by (simp add: pool_free_def)
  then have pool: "pool_free sl' (s # F)"
    using dist unfolding sl'_def by (intro free_slot_pool) auto
  have rep': "book_rep p b' (ys # L) L' (s # F)"
    using edit_book_rep [of p b "[]" "s # ys" L L' F b' ys "s # F"] rep ed lev' pool dist t'(2)
    by (simp add: b'_def)
  moreover have "complete p b' (ys # L) L'" if "complete p b ((s # ys) # L) L'"
    using complete_remove [of p b "[]" "[]" s ys L L' F b'] rep that t'(3) by (simp add: b'_def ids)
  ultimately have "matched p b ((s # ys) # L) L' 1 b' (ys # L) (s # F)"
    by (simp add: matched_def same_conf_def) (simp add: b'_def)
  moreover have "map (abs_order (ob_slots b')) ys = q"
    unfolding r using dist by (auto simp: abs_order_def b'_def sl'_def)
  then have "abs_book b' = ref_set_side p ((px, q) # S) (abs_book b)"
    using edit_abs [of p b "[]" "s # ys" L L' F b' ys "s # F" "[]"] rep ed rep' abs by simp
  ultimately show thesis using step that by blast
qed

lemma match_step_partly:
  assumes rep: "book_rep p b ((s # ys) # L) L' F" and abs: "ref_side p (abs_book b) = (px, r # q) # S"
    and less: "n < ro_rem r"
  obtains b' where
    "match_step p px s (od\<lparr>o_qty_remaining := n\<rparr>) b =
       Some (od\<lparr>o_qty_remaining := 0\<rparr>, b', emitted b od n [mk_fill od px r n])"
    "matched p b ((s # ys) # L) L' 1 b' ((s # ys) # L) F"
    "abs_book b' = ref_set_side p ((px, r\<lparr>ro_rem := ro_rem r - n\<rparr> # q) # S) (abs_book b)"
proof -
  define sl where "sl = ob_slots b"
  define sd where "sd = book_side p b"
  define sl' where "sl' = sl\<lparr>sl_qtys := (sl_qtys sl)(s := sl_qtys sl s - n)\<rparr>"
  define sd' where "sd' = sd\<lparr>bs_qtys := (bs_qtys sd)(0 := bs_qtys sd 0 - n)\<rparr>"
  define b' where "b' = set_side p sd' (b\<lparr>ob_slots := sl', ob_stat_matches := ob_stat_matches b + 1\<rparr>)"
  note first = rep_first [OF rep abs]
  have r: "r = abs_order sl s" "q = map (abs_order sl) ys" using first(1) by (simp_all add: sl_def)
  have lev: "level_rep sl (level_at sd 0) (s # ys)" using first(3) by (simp add: sl_def sd_def)
  have less': "n < sl_qtys sl s" using less r by (simp add: abs_order_def)
  then have "sl_qtys sl s - n \<noteq> 0" by auto
  with less' have step: "match_step p px s (od\<lparr>o_qty_remaining := n\<rparr>) b =
       Some (od\<lparr>o_qty_remaining := 0\<rparr>, b', emitted b od n [mk_fill od px r n])"
    by (auto simp: match_step_def Let_def min_absorb1 b'_def sd'_def sl'_def r
        sl_def sd_def emitted_def fill_report_def mk_fill_def abs_order_def set_side_def book_side_def)
  have dist: "distinct (s # ys)" "distinct ((s # ys) @ F)" using rep by (auto simp: book_rep_def)
  have lev': "level_rep sl' (level_at sd' 0) (s # ys)"
    using lev dist less' by (auto simp: level_rep_def sl'_def sd'_def word_sub_pos)
  have ed: "edits p 0 (set ((s # ys) @ F)) b b'"
    by (auto simp: edits_def same_slot_def b'_def sd'_def sl'_def sl_def sd_def level_at_def)
  have pool: "pool_free sl' F" using rep by (simp add: book_rep_def sl_def sl'_def pool_free_def)
  have pairs: "oidx.pairs_ok (entry_ok p sl' ((s # ys) # L) L') (ob_index b)"
    using same_pairs [of p b "[]" "s # ys" L L' F sl'] rep by (simp add: sl'_def sl_def)
  have rep': "book_rep p b' ((s # ys) # L) L' F"
    using edit_book_rep [of p b "[]" "s # ys" L L' F b' "s # ys" F] rep ed lev' pool dist pairs
    by (simp add: b'_def)
  moreover have "complete p b' L1 L' = complete p b L1 L'" for L1
    by (simp add: complete_def b'_def sl'_def sl_def)
  ultimately have "matched p b ((s # ys) # L) L' 1 b' ((s # ys) # L) F"
    by (simp add: matched_def same_conf_def) (simp add: b'_def)
  moreover have "map (abs_order (ob_slots b')) (s # ys) = r\<lparr>ro_rem := ro_rem r - n\<rparr> # q"
    unfolding r using dist by (auto simp: abs_order_def b'_def sl'_def)
  then have "abs_book b' = ref_set_side p ((px, r\<lparr>ro_rem := ro_rem r - n\<rparr> # q) # S) (abs_book b)"
    using edit_abs [of p b "[]" "s # ys" L L' F b' "s # ys" F "[]"] rep ed rep' abs by simp
  ultimately show thesis using step that by blast
qed

subsection \<open>The inner loop refines \<open>sweep_queue\<close>\<close>

lemma wall_abs [simp]: "stp_wall od sl s \<longleftrightarrow> ref_wall od (abs_order sl s)"
  by (simp add: stp_wall_def ref_wall_def abs_order_def)

lemma ref_wall_rem [simp]: "ref_wall (od\<lparr>o_qty_remaining := n\<rparr>) r = ref_wall od r"
  by (simp add: ref_wall_def)

lemma price_blocks_ref: "price_blocks od px = ref_blocks od px"
  by (auto simp: price_blocks_def ref_blocks_def better_def)

lemma ref_blocks_rem [simp]: "ref_blocks (od\<lparr>o_qty_remaining := n\<rparr>) px = ref_blocks od px"
  by (simp add: ref_blocks_def is_buy_def)

lemma rep_head:
  assumes "book_rep d b (xs # L) L' F" "ref_side d (abs_book b) = (px, q) # S"
  shows "bs_head_idxs (book_side d b) 0 = NULL_IDX \<longleftrightarrow> xs = []"
    and "xs = s # ys \<Longrightarrow> bs_head_idxs (book_side d b) 0 = s"
  using rep_first(3) [OF assms] dlist_head_null dlist_head_Cons by (fastforce simp: level_rep_def)+

lemma rep_head_Cons:
  assumes "book_rep d b (xs # L) L' F" "ref_side d (abs_book b) = (px, r # q) # S"
  obtains s ys where "xs = s # ys" "r = abs_order (ob_slots b) s" "bs_head_idxs (book_side d b) 0 = s"
    "s \<noteq> NULL_IDX"
proof -
  have "map (abs_order (ob_slots b)) xs = r # q" using rep_first(1) [OF assms] by simp
  then obtain s ys where xs: "xs = s # ys" "r = abs_order (ob_slots b) s" by (auto simp: map_eq_Cons_conv)
  with rep_head [OF assms] have "bs_head_idxs (book_side d b) 0 = s" "s \<noteq> NULL_IDX" by auto
  with xs show thesis by (rule that)
qed

lemma match_level_stop:
  "bs_head_idxs (book_side p b) 0 = NULL_IDX \<or> n = 0 \<Longrightarrow>
     match_level p px (od\<lparr>o_qty_remaining := n\<rparr>) b out = Some (False, od\<lparr>o_qty_remaining := n\<rparr>, b, out)"
  by (subst match_level.simps) auto

lemma match_level_unchanged:
  assumes "match_level p px o1 b out = Some (w, o2, b, out)"
    "book_rep p b (xs # L) L' F" "ref_side p (abs_book b) = (px, q) # S"
  shows "\<exists>b' xs' F'. match_level p px o1 b out = Some (w, o2, b', out @ emitted b od n []) \<and>
         matched p b (xs # L) L' (length []) b' (xs' # L) F' \<and>
         abs_book b' = ref_set_side p ((px, q) # S) (abs_book b)"
proof -
  have "emitted b od n [] = []" by (simp add: emitted_def)
  moreover have "matched p b (xs # L) L' (length []) b (xs # L) F" using matched_refl [OF assms(2)] by simp
  moreover have "abs_book b = ref_set_side p ((px, q) # S) (abs_book b)"
    using ref_set_side_same [OF assms(3)] by simp
  ultimately show ?thesis using assms(1) by (metis append_Nil2)
qed

lemma match_level_refines:
  assumes "sweep_queue od px n q = (n', w, q', fs)"
    and "book_rep p b (xs # L) L' F" "ref_side p (abs_book b) = (px, q) # S"
  shows "\<exists>b' xs' F'. match_level p px (od\<lparr>o_qty_remaining := n\<rparr>) b out =
           Some (w, od\<lparr>o_qty_remaining := n'\<rparr>, b', out @ emitted b od n fs) \<and>
         matched p b (xs # L) L' (length fs) b' (xs' # L) F' \<and>
         abs_book b' = ref_set_side p ((px, q') # S) (abs_book b)"
  using assms
proof (induction arbitrary: b xs F out rule: sweep_queue_induct)
  case (empty n)
  then have "xs = []" using rep_first(1) by fastforce
  then have "match_level p px (od\<lparr>o_qty_remaining := n\<rparr>) b out = Some (False, od\<lparr>o_qty_remaining := n\<rparr>, b, out)"
    using rep_head(1) [OF empty] by (intro match_level_stop) simp
  then show ?case using empty by (rule match_level_unchanged)
next
  case (filled r q)
  have "match_level p px (od\<lparr>o_qty_remaining := 0\<rparr>) b out = Some (False, od\<lparr>o_qty_remaining := 0\<rparr>, b, out)"
    by (intro match_level_stop) simp
  then show ?case using filled by (rule match_level_unchanged)
next
  case (wall n r q)
  obtain s ys where xs: "xs = s # ys" "r = abs_order (ob_slots b) s" "bs_head_idxs (book_side p b) 0 = s"
    "s \<noteq> NULL_IDX" using wall(3,4) by (rule rep_head_Cons)
  with wall(1,2) have
    "match_level p px (od\<lparr>o_qty_remaining := n\<rparr>) b out = Some (True, od\<lparr>o_qty_remaining := n\<rparr>, b, out)"
    by (subst match_level.simps) (auto simp: word_neq_0_conv)
  then show ?case using wall(3,4) by (rule match_level_unchanged)
next
  case (full n r q n' w q' fs)
  obtain s ys where xs: "xs = s # ys" "r = abs_order (ob_slots b) s" "bs_head_idxs (book_side p b) 0 = s"
    "s \<noteq> NULL_IDX" using full(6,7) by (rule rep_head_Cons)
  let ?f = "mk_fill od px r (ro_rem r)"
  obtain b1 where b1: "match_step p px s (od\<lparr>o_qty_remaining := n\<rparr>) b =
      Some (od\<lparr>o_qty_remaining := n - ro_rem r\<rparr>, b1, emitted b od n [?f])"
    "matched p b ((s # ys) # L) L' 1 b1 (ys # L) (s # F)"
    "abs_book b1 = ref_set_side p ((px, q) # S) (abs_book b)"
    using match_step_full full(3,6,7) unfolding xs(1) by metis
  then have "book_rep p b1 (ys # L) L' (s # F)" "ref_side p (abs_book b1) = (px, q) # S"
    by (simp_all add: matched_def)
  from full.IH [OF this] obtain b' xs' F' where b':
    "match_level p px (od\<lparr>o_qty_remaining := n - ro_rem r\<rparr>) b1 (out @ emitted b od n [?f]) =
       Some (w, od\<lparr>o_qty_remaining := n'\<rparr>, b', (out @ emitted b od n [?f]) @ emitted b1 od (n - ro_rem r) fs)"
    "matched p b1 (ys # L) L' (length fs) b' (xs' # L) F'"
    "abs_book b' = ref_set_side p ((px, q') # S) (abs_book b1)" by blast
  have "emitted b1 od (n - ro_rem r) fs = emitted b od (n - ro_rem r) fs"
    using b1(2) by (intro emitted_same_conf) (simp add: matched_def)
  then have rpts: "emitted b od n (?f # fs) = emitted b od n [?f] @ emitted b1 od (n - ro_rem r) fs"
    using emitted_Cons [of b od n ?f fs] by simp
  from xs full(1,2) b1(1) b'(1) have
    "match_level p px (od\<lparr>o_qty_remaining := n\<rparr>) b out =
       Some (w, od\<lparr>o_qty_remaining := n'\<rparr>, b', out @ emitted b od n (?f # fs))"
    unfolding rpts by (subst match_level.simps) (simp add: word_neq_0_conv)
  moreover have "matched p b (xs # L) L' (length (?f # fs)) b' (xs' # L) F'"
    using matched_trans [OF b1(2) b'(2)] xs by simp
  ultimately show ?case using b'(3) b1(3) by auto
next
  case (partly n r q)
  obtain s ys where xs: "xs = s # ys" "r = abs_order (ob_slots b) s" "bs_head_idxs (book_side p b) 0 = s"
    "s \<noteq> NULL_IDX" using partly(4,5) by (rule rep_head_Cons)
  obtain b1 where b1: "match_step p px s (od\<lparr>o_qty_remaining := n\<rparr>) b =
      Some (od\<lparr>o_qty_remaining := 0\<rparr>, b1, emitted b od n [mk_fill od px r n])"
    "matched p b ((s # ys) # L) L' 1 b1 ((s # ys) # L) F"
    "abs_book b1 = ref_set_side p ((px, r\<lparr>ro_rem := ro_rem r - n\<rparr> # q) # S) (abs_book b)"
    using match_step_partly partly(3,4,5) unfolding xs(1) by metis
  from partly(1,2) b1(1) xs have
    "match_level p px (od\<lparr>o_qty_remaining := n\<rparr>) b out =
       Some (False, od\<lparr>o_qty_remaining := 0\<rparr>, b1, out @ emitted b od n [mk_fill od px r n])"
    by (subst match_level.simps) (simp add: word_neq_0_conv match_level_stop)
  with b1 xs show ?case by auto
qed

subsection \<open>The outer loop refines \<open>sweep\<close>\<close>

lemma fill_reports_append:
  "fill_reports sy od n (gs @ fs) = fill_reports sy od n gs @ fill_reports sy od (n - sum_list (map f_qty gs)) fs"
  by (induction gs arbitrary: n) (simp_all add: diff_diff_eq)

lemma sweep_queue_rem: "sweep_queue od px n q = (n', w, q', fs) \<Longrightarrow> n' = n - sum_list (map f_qty fs)"
  by (induction rule: sweep_queue_induct) (simp_all add: diff_diff_eq)

lemma emitted_append:
  "sweep_queue od px n q = (m, w, q', gs) \<Longrightarrow> emitted b od n (gs @ fs) = emitted b od n gs @ emitted b od m fs"
  using sweep_queue_rem by (fastforce simp: emitted_def fill_reports_append)

lemma try_match_stop:
  "n = 0 \<or> bs_count (book_side p b) = 0 \<or> ref_blocks od (bs_prices (book_side p b) 0) \<Longrightarrow>
     try_match_loop p (od\<lparr>o_qty_remaining := n\<rparr>) b out = Some (False, od\<lparr>o_qty_remaining := n\<rparr>, b, out)"
  by (subst try_match_loop.simps) (auto simp: price_blocks_ref)

lemma try_match_level:
  assumes "n \<noteq> 0" "bs_count (book_side p b) > 0" "\<not> ref_blocks od (bs_prices (book_side p b) 0)"
    "match_level p (bs_prices (book_side p b) 0) (od\<lparr>o_qty_remaining := n\<rparr>) b out = Some (w, od', b', out')"
  shows "try_match_loop p (od\<lparr>o_qty_remaining := n\<rparr>) b out =
    (if w then Some (True, od', b', out') else try_match_loop p od' (drop_exhausted p b') out')"
  using assms by (subst try_match_loop.simps) (simp add: price_blocks_ref word_neq_0_conv)

text \<open>Removing the level when its queue is exhausted.\<close>

lemma drop_exhausted_matched:
  assumes m: "matched p b L0 L' k b' (xs # L) F'" and abs: "ref_side p (abs_book b') = (px, q) # S"
  shows "matched p b L0 L' k (drop_exhausted p b') (if q = [] then L else xs # L) F'"
    and "abs_book (drop_exhausted p b') = (if q = [] then ref_set_side p S (abs_book b') else abs_book b')"
proof -
  have rep: "book_rep p b' ([] @ xs # L) L' F'" using m by (simp add: matched_def)
  note first = rep_first [OF rep [simplified] abs]
  have cnt: "bs_order_counts (book_side p b') 0 = 0 \<longleftrightarrow> q = []"
    using level_count_unat(2) [OF rep _ first(3)] first(1) by simp
  have "complete p (set_side p s b') L L' = complete p b' ([] # L) L'" for s by (simp add: complete_def)
  moreover have "same_conf b (set_side p s b') = same_conf b b'" for s by (simp add: same_conf_def)
  ultimately show "matched p b L0 L' k (drop_exhausted p b') (if q = [] then L else xs # L) F'"
    using m cnt drop_level_rep [of p b' "[]" L L' F' 0] first(1)
    by (auto simp: drop_exhausted_def matched_def)
  show "abs_book (drop_exhausted p b') = (if q = [] then ref_set_side p S (abs_book b') else abs_book b')"
    using cnt drop_level_abs [of p b' "[]" L L' F' 0 "[]" px q S] rep abs first(1)
    by (auto simp: drop_exhausted_def)
qed

lemma try_match_loop_refines:
  assumes "sweep od n S = (n', w, S', fs)"
    and "book_rep p b L L' F" "no_empty L" "ref_side p (abs_book b) = S"
  shows "\<exists>b' M F'. try_match_loop p (od\<lparr>o_qty_remaining := n\<rparr>) b out =
           Some (w, od\<lparr>o_qty_remaining := n'\<rparr>, b', out @ emitted b od n fs) \<and>
         matched p b L L' (length fs) b' M F' \<and> no_empty M \<and>
         abs_book b' = ref_set_side p S' (abs_book b)"
  using assms
proof (induction arbitrary: b L F out rule: sweep_induct)
  case (empty n)
  then have "bs_count (book_side p b) = 0" using rep_no_level [OF empty(1)] by simp
  then have "try_match_loop p (od\<lparr>o_qty_remaining := n\<rparr>) b out = Some (False, od\<lparr>o_qty_remaining := n\<rparr>, b, out)"
    by (intro try_match_stop) simp
  with empty matched_refl [OF empty(1)] ref_set_side_same show ?case by (fastforce simp: emitted_def)
next
  case (stop n px q rest)
  then obtain xs L2 where L: "L = xs # L2" using rep_no_level(1) [OF stop(2)] by (cases L) auto
  have "try_match_loop p (od\<lparr>o_qty_remaining := n\<rparr>) b out = Some (False, od\<lparr>o_qty_remaining := n\<rparr>, b, out)"
    using stop(1) rep_first(2) [OF stop(2) [unfolded L] stop(4)] by (intro try_match_stop) auto
  with stop matched_refl [OF stop(2)] ref_set_side_same show ?case by (fastforce simp: emitted_def)
next
  case (wall n px q rest n' q' fs)
  then obtain xs L2 where L: "L = xs # L2" using rep_no_level(1) [OF wall(4)] by (cases L) auto
  note first = rep_first [OF wall(4) [unfolded L] wall(6)]
  obtain b' xs' F' where b':
    "match_level p px (od\<lparr>o_qty_remaining := n\<rparr>) b out =
       Some (True, od\<lparr>o_qty_remaining := n'\<rparr>, b', out @ emitted b od n fs)"
    "matched p b (xs # L2) L' (length fs) b' (xs' # L2) F'"
    "abs_book b' = ref_set_side p ((px, q') # rest) (abs_book b)"
    using match_level_refines [OF wall(3) wall(4) [unfolded L] wall(6)] by blast
  have "try_match_loop p (od\<lparr>o_qty_remaining := n\<rparr>) b out =
       Some (True, od\<lparr>o_qty_remaining := n'\<rparr>, b', out @ emitted b od n fs)"
    using try_match_level [of n p b od out] wall(1,2) first(2,4) b'(1) by simp
  moreover have "no_empty (xs' # L2)"
  proof -
    have "q' = map (abs_order (ob_slots b')) xs'"
      using rep_first(1) [of p b' xs' L2 L' F' px q' rest] b'(2,3) by (simp add: matched_def)
    then show ?thesis using sweep_queue_outcome [OF wall(3)] wall(5) L by (auto simp: no_empty_def)
  qed
  ultimately show ?case using b'(2,3) L by blast
next
  case (advance n px q rest m gs n' w s' fs)
  then obtain xs L2 where L: "L = xs # L2" using rep_no_level(1) [OF advance(6)] by (cases L) auto
  note first = rep_first [OF advance(6) [unfolded L] advance(8)]
  obtain b1 xs' F1 where b1:
    "match_level p px (od\<lparr>o_qty_remaining := n\<rparr>) b out =
       Some (False, od\<lparr>o_qty_remaining := m\<rparr>, b1, out @ emitted b od n gs)"
    "matched p b (xs # L2) L' (length gs) b1 (xs' # L2) F1"
    "abs_book b1 = ref_set_side p ((px, []) # rest) (abs_book b)"
    using match_level_refines [OF advance(3) advance(6) [unfolded L] advance(8)] by blast
  define b2 where "b2 = drop_exhausted p b1"
  have b2: "matched p b (xs # L2) L' (length gs) b2 L2 F1" "abs_book b2 = ref_set_side p rest (abs_book b)"
    using drop_exhausted_matched [OF b1(2), of px "[]" rest] b1(3) by (simp_all add: b2_def)
  then have "book_rep p b2 L2 L' F1" "no_empty L2" "ref_side p (abs_book b2) = rest"
    using advance(7) L by (simp_all add: matched_def no_empty_def)
  from advance.IH [OF this] obtain b' M F' where b':
    "try_match_loop p (od\<lparr>o_qty_remaining := m\<rparr>) b2 (out @ emitted b od n gs) =
       Some (w, od\<lparr>o_qty_remaining := n'\<rparr>, b', (out @ emitted b od n gs) @ emitted b2 od m fs)"
    "matched p b2 L2 L' (length fs) b' M F'" "no_empty M"
    "abs_book b' = ref_set_side p s' (abs_book b2)" by blast
  have "emitted b2 od m fs = emitted b od m fs"
    using b2(1) by (intro emitted_same_conf) (simp add: matched_def)
  then have "try_match_loop p (od\<lparr>o_qty_remaining := n\<rparr>) b out =
       Some (w, od\<lparr>o_qty_remaining := n'\<rparr>, b', out @ emitted b od n (gs @ fs))"
    using try_match_level [of n p b od out] advance(1,2) first(2,4) b1(1) b'(1) emitted_append [OF advance(3)]
    by (simp add: b2_def)
  moreover have "matched p b L L' (length (gs @ fs)) b' M F'"
    using matched_trans [OF b2(1) b'(2)] L by simp
  ultimately show ?case using b'(3,4) b2(2) by auto
next
  case (partly n px q rest n' q' fs)
  then obtain xs L2 where L: "L = xs # L2" using rep_no_level(1) [OF partly(5)] by (cases L) auto
  note first = rep_first [OF partly(5) [unfolded L] partly(7)]
  obtain b1 xs' F1 where b1:
    "match_level p px (od\<lparr>o_qty_remaining := n\<rparr>) b out =
       Some (False, od\<lparr>o_qty_remaining := n'\<rparr>, b1, out @ emitted b od n fs)"
    "matched p b (xs # L2) L' (length fs) b1 (xs' # L2) F1"
    "abs_book b1 = ref_set_side p ((px, q') # rest) (abs_book b)"
    using match_level_refines [OF partly(4) partly(5) [unfolded L] partly(7)] by blast
  define b2 where "b2 = drop_exhausted p b1"
  have b2: "matched p b (xs # L2) L' (length fs) b2 (xs' # L2) F1" "abs_book b2 = abs_book b1"
    using drop_exhausted_matched [OF b1(2), of px q' rest] b1(3) partly(3) by (simp_all add: b2_def)
  have "n' = 0" using sweep_queue_outcome [OF partly(4)] partly(3) by simp
  then have "try_match_loop p (od\<lparr>o_qty_remaining := n\<rparr>) b out =
       Some (False, od\<lparr>o_qty_remaining := n'\<rparr>, b2, out @ emitted b od n fs)"
    using try_match_level [of n p b od out] partly(1,2) first(2,4) b1(1) by (simp add: b2_def try_match_stop)
  moreover have "no_empty (xs' # L2)"
  proof -
    have "q' = map (abs_order (ob_slots b1)) xs'"
      using rep_first(1) [of p b1 xs' L2 L' F1 px q' rest] b1(2,3) by (simp add: matched_def)
    then show ?thesis using partly(3,6) L by (auto simp: no_empty_def)
  qed
  ultimately show ?case using b2 b1(3) L by auto
qed

subsection \<open>The liquidity walk\<close>

lemma unat_add_qty:
  fixes tot :: u64 and q :: Qty
  assumes "unat tot < 2 ^ 32"
  shows "unat (tot + ucast q) = unat tot + unat q"
proof -
  have "unat q < 2 ^ 32" using unat_u32_less [of q] by simp
  then have "unat tot + unat (ucast q :: u64) < 2 ^ LENGTH(64)" using assms by simp
  then show ?thesis by (simp add: unat_word_ariths)
qed

lemma le_qty_iff: "(ucast (q :: Qty) \<le> (t :: u64)) \<longleftrightarrow> unat q \<le> unat t"
  by (simp add: word_le_nat_alt)

text \<open>One queue: enough quantity stops the walk with a sufficient total; otherwise the total is exact.\<close>

lemma avail_queue_spec:
  assumes "dseg (sl_nexts sl) pv p h xs t NULL_IDX" "NULL_IDX \<notin> set xs"
    and "unat tot < unat (o_qty_remaining od)"
  shows "\<exists>r. avail_queue sl od h tot = Some r \<and>
     (let (n, w) = liq_queue od (map (abs_order sl) xs)
      in if unat (o_qty_remaining od) \<le> unat tot + n
         then \<exists>u. r = Inl u \<and> unat (o_qty_remaining od) \<le> unat u
         else \<exists>u. r = (if w then Inl u else Inr u) \<and> unat u = unat tot + n)"
  using assms
proof (induction xs arbitrary: p h tot)
  case Nil
  then show ?case by (subst avail_queue.simps) simp
next
  case (Cons x xs)
  then have h: "h = x" "h \<noteq> NULL_IDX" by auto
  have small: "unat tot < 2 ^ 32" using Cons.prems(3) unat_u32_less [of "o_qty_remaining od"] by simp
  let ?tot1 = "tot + ucast (sl_qtys sl x)"
  have tot1: "unat ?tot1 = unat tot + unat (sl_qtys sl x)" using small by (rule unat_add_qty)
  obtain n w where nw: "liq_queue od (map (abs_order sl) xs) = (n, w)" by fastforce
  show ?case
  proof (cases "ref_wall od (abs_order sl x)")
    case True
    with h Cons.prems(3) show ?thesis by (subst avail_queue.simps) simp
  next
    case noWall: False
    show ?thesis
    proof (cases "unat (o_qty_remaining od) \<le> unat ?tot1")
      case True
      then have "avail_queue sl od h tot = Some (Inl ?tot1)"
        using h noWall by (subst avail_queue.simps) (simp add: Let_def le_qty_iff)
      with True noWall nw tot1 show ?thesis by simp
    next
      case False
      then have "avail_queue sl od h tot = avail_queue sl od (sl_nexts sl x) ?tot1"
        using h noWall by (subst avail_queue.simps) (simp add: Let_def le_qty_iff)
      moreover have "dseg (sl_nexts sl) pv x (sl_nexts sl x) xs t NULL_IDX" using Cons.prems(1) by simp
      ultimately show ?thesis
        using Cons.IH [of x "sl_nexts sl x" ?tot1] Cons.prems(2) False noWall nw tot1
        by (simp add: add.assoc cong: if_cong split del: if_split)
    qed
  qed
qed

lemma avail_levels_spec:
  assumes "levels sd = A @ B" "list_all2 (level_rep sl) B M" "unat tot < unat (o_qty_remaining od)"
  shows "\<exists>u. avail_levels sl sd od (length A) tot = Some u \<and>
     (let n = liquidity od (abs_levels sl B M)
      in if unat (o_qty_remaining od) \<le> unat tot + n then unat (o_qty_remaining od) \<le> unat u
         else unat u = unat tot + n)"
  using assms
proof (induction B arbitrary: A M tot)
  case Nil
  then have "\<not> length A < bs_count sd" by (metis append_Nil2 length_levels less_irrefl)
  with Nil show ?case by (subst avail_levels.simps) simp
next
  case (Cons l B)
  then obtain xs M' where M: "M = xs # M'" "level_rep sl l xs" "list_all2 (level_rep sl) B M'"
    by (auto simp: list_all2_Cons1)
  note l = levels_split [OF Cons.prems(1)]
  show ?case
  proof (cases "ref_blocks od (lv_price l)")
    case True
    with l M Cons.prems(3) show ?thesis by (subst avail_levels.simps) (simp add: price_blocks_ref)
  next
    case open_level: False
    obtain n w where nw: "liq_queue od (map (abs_order sl) xs) = (n, w)" by fastforce
    have "dseg (sl_nexts sl) (sl_prevs sl) NULL_IDX (lv_head l) xs (lv_tail l) NULL_IDX" "NULL_IDX \<notin> set xs"
      using M(2) by (auto simp: level_rep_def dlist_def)
    from avail_queue_spec [OF this Cons.prems(3)] obtain r where
      r: "avail_queue sl od (bs_head_idxs sd (length A)) tot = Some r"
      "if unat (o_qty_remaining od) \<le> unat tot + n
         then \<exists>u. r = Inl u \<and> unat (o_qty_remaining od) \<le> unat u
         else \<exists>u. r = (if w then Inl u else Inr u) \<and> unat u = unat tot + n"
      unfolding nw using l(2) by auto
    have step: "avail_levels sl sd od (length A) tot =
        (case r of Inl t \<Rightarrow> Some t | Inr t \<Rightarrow> avail_levels sl sd od (length (A @ [l])) t)"
      using l open_level r(1) by (subst avail_levels.simps) (simp add: price_blocks_ref split: sum.split)
    show ?thesis
    proof (cases "unat (o_qty_remaining od) \<le> unat tot + n \<or> w")
      case True
      with r(2) step open_level nw M(1) show ?thesis by (auto split: if_splits)
    next
      case False
      then obtain u where u: "r = Inr u" "unat u = unat tot + n" "unat u < unat (o_qty_remaining od)"
        using r(2) by auto
      with Cons.IH [of "A @ [l]" M' u] Cons.prems(1) M(3) step open_level nw M(1) False show ?thesis
        by (simp add: add.assoc Let_def cong: if_cong split del: if_split)
    qed
  qed
qed

lemma avail_levels_zero:
  assumes "o_qty_remaining od = 0"
  shows "\<exists>u. avail_levels sl sd od i tot = Some u"
proof (induction "bs_count sd - i" arbitrary: i tot)
  case 0
  then show ?case by (subst avail_levels.simps) simp
next
  case (Suc k)
  have "\<exists>r. avail_queue sl od h tot = Some r" for h
    using assms by (subst avail_queue.simps) (auto simp: Let_def)
  then obtain r where r: "avail_queue sl od (bs_head_idxs sd i) tot = Some r" by blast
  obtain u where "avail_levels sl sd od (i + 1) (projr r) = Some u" using Suc by fastforce
  with r show ?case by (subst avail_levels.simps) (auto split: sum.splits)
qed

lemma unat_clamp: "unat (ucast (min (t :: u64) 0xFFFFFFFF) :: Qty) = min (unat t) (2 ^ 32 - 1)"
proof -
  have "unat (min t 0xFFFFFFFF) = min (unat t) (2 ^ 32 - 1)" by (simp add: min_def word_le_nat_alt)
  moreover from this have "unat (min t 0xFFFFFFFF) < 2 ^ 32" by simp
  ultimately show ?thesis by (simp add: unat_ucast_eq_mod)
qed

lemma available_liquidity_refines:
  assumes rep: "book_rep (\<not> is_buy od) b L L' F"
  shows "\<exists>q. available_liquidity od b = Some q \<and>
     (q < o_qty_remaining od \<longleftrightarrow> liquidity od (ref_side (\<not> is_buy od) (abs_book b)) < unat (o_qty_remaining od))"
proof (cases "o_qty_remaining od = 0")
  case True
  then show ?thesis using avail_levels_zero [OF True] by (fastforce simp: available_liquidity_def)
next
  case False
  let ?sd = "book_side (\<not> is_buy od) b"
  have "list_all2 (level_rep (ob_slots b)) (levels ?sd) L" using rep by (simp add: book_rep_def side_rep_def)
  with False avail_levels_spec [of ?sd "[]" "levels ?sd" "ob_slots b" L 0 od]
  obtain u where u: "avail_levels (ob_slots b) ?sd od 0 0 = Some u"
    "let n = liquidity od (ref_side (\<not> is_buy od) (abs_book b))
     in if unat (o_qty_remaining od) \<le> n then unat (o_qty_remaining od) \<le> unat u else unat u = n"
    unfolding abs_book_rep(1) [OF rep] by (auto simp: unat_gt_0 Let_def)
  have "unat (o_qty_remaining od) < 2 ^ 32" using unat_u32_less [of "o_qty_remaining od"] by simp
  with u show ?thesis
    by (auto simp: available_liquidity_def word_less_nat_alt unat_clamp Let_def split: if_splits)
qed

end
