(* ===== verification/Book_Rest.thy ===== *)
theory Book_Rest
  imports Book_Rep
begin

text \<open>
  Booking the remainder of a limit order (\<^verbatim>\<open>order_book.cpp\<close> 203-254) against \<open>enqueue\<close>: finding or
  creating the level, allocating a slot, appending to the queue and entering the index, with the
  two capacity rejections and the roll-back of a level created in vain.
\<close>

subsection \<open>Room in the index\<close>

lemma index_room:
  assumes "book_rep d b L L' F"
  shows "card (dom (index_map (ob_index b))) < kTableSize - 1"
proof -
  have "dom (index_map (ob_index b)) \<subseteq> sl_ids (ob_slots b) ` {..<kMaxOrders}"
  proof
    fix k assume "k \<in> dom (index_map (ob_index b))"
    then obtain v where "index_map (ob_index b) k = Some v" by auto
    then have "entry_ok d (ob_slots b) L L' k v"
      using assms oidx.pairs_okD unfolding book_rep_def by blast
    then have "k = sl_ids (ob_slots b) (fst v)" "fst v \<in> set (concat L @ concat L' @ F)"
      by (auto simp: entry_ok_def)
    then show "k \<in> sl_ids (ob_slots b) ` {..<kMaxOrders}" using live_slot [OF assms] by blast
  qed
  then have "card (dom (index_map (ob_index b))) \<le> kMaxOrders"
    by (metis card_image_le card_lessThan card_mono finite_imageI finite_lessThan le_trans)
  then show ?thesis by (simp add: kMaxOrders_def kTableSize_def)
qed

lemma add_pairs:
  assumes rep: "book_rep d b (L1 @ xs # L2) L' (s # F)"
    and ids: "sl_ids sl' = (sl_ids (ob_slots b))(s := oid)"
  obtains t' where "index_insert (ob_index b) oid s (side_code d) = Some (True, t')"
    "oidx.pairs_ok (entry_ok d sl' (L1 @ (xs @ [s]) # L2) L') t'"
    "index_map t' = (index_map (ob_index b))(oid \<mapsto> (s, side_code d))"
proof -
  have s: "s < kMaxOrders" "s \<notin> set (concat (L1 @ xs # L2) @ concat L')"
    using rep live_slot [OF rep, of s] by (auto simp: book_rep_def)
  have "oidx.pairs_ok (entry_ok d (ob_slots b) (L1 @ xs # L2) L') (ob_index b)"
    using rep by (simp add: book_rep_def)
  then have pairs: "oidx.pairs_ok (entry_ok d sl' (L1 @ (xs @ [s]) # L2) L') (ob_index b)"
    by (rule oidx.pairs_ok_mono) (use s(2) in \<open>auto simp: entry_ok_def ids\<close>)
  have valid: "slot_valid (s, side_code d)"
    using slot_not_null [OF s(1)] by (simp add: slot_valid_def kEmpty_def NULL_IDX_def)
  have "entry_ok d sl' (L1 @ (xs @ [s]) # L2) L' oid (s, side_code d)"
    by (simp add: entry_ok_def ids)
  from oidx.store_pairs_ok [OF pairs valid this index_room [OF rep]] that show thesis by auto
qed

lemma complete_add:
  assumes rep: "book_rep d b (L1 @ xs # L2) L' (s # F)" and comp: "complete d b (L1 @ xs # L2) L'"
    and ids: "sl_ids (ob_slots b') = (sl_ids (ob_slots b))(s := oid)"
    and idx: "index_map (ob_index b') = (index_map (ob_index b))(oid \<mapsto> (s, side_code d))"
    and fresh: "oid \<notin> sl_ids (ob_slots b) ` set (concat (L1 @ xs # L2) @ concat L')"
  shows "complete d b' (L1 @ (xs @ [s]) # L2) L'"
proof -
  have "s \<notin> set (concat (L1 @ xs # L2) @ concat L')" using rep by (auto simp: book_rep_def)
  moreover have "sl_ids (ob_slots b) x \<noteq> oid" if "x \<in> set (concat (L1 @ xs # L2) @ concat L')" for x
    using fresh that by blast
  ultimately show ?thesis
    using comp unfolding complete_def ids idx by auto
qed

subsection \<open>Appending to a queue\<close>

text \<open>The book after \<^verbatim>\<open>slots_.alloc()\<close>, the append and the index insertion.\<close>

definition append_new :: "bool \<Rightarrow> nat \<Rightarrow> nat \<Rightarrow> Order \<Rightarrow> OrderIndex \<Rightarrow> OrderBook \<Rightarrow> OrderBook" where
  "append_new d i s od t b =
     (append_order d i s od (b\<lparr>ob_slots := snd (slot_alloc (ob_slots b))\<rparr>))\<lparr>ob_index := t\<rparr>"

lemma append_new_frame:
  "same_conf b (append_new d i s od t b)" "ob_stat_matches (append_new d i s od t b) = ob_stat_matches b"
  "ob_index (append_new d i s od t b) = t"
  by (auto simp: append_new_def append_order_def same_conf_def Let_def split: prod.split)

lemma append_new_ids: "sl_ids (ob_slots (append_new d i s od t b)) = (sl_ids (ob_slots b))(s := o_id od)"
  by (auto simp: append_new_def append_order_def Let_def)

lemma append_new_level:
  assumes lev: "level_rep (ob_slots b) (level_at (book_side d b) i) xs"
    and s: "s < kMaxOrders" "s \<notin> set xs" "distinct xs"
    and od: "o_price od = bs_prices (book_side d b) i" "o_qty_remaining od > 0"
  shows "level_rep (ob_slots (append_new d i s od t b)) (level_at (book_side d (append_new d i s od t b)) i) (xs @ [s])"
proof (cases "xs = []")
  case True
  with lev s od show ?thesis
    by (auto simp: append_new_def append_order_def Let_def level_rep_def slot_not_null dlist_singleton)
next
  case False
  let ?sl = "ob_slots b" and ?sd = "book_side d b"
  have dl: "dlist (sl_nexts ?sl) (sl_prevs ?sl) (bs_head_idxs ?sd i) xs (bs_tail_idxs ?sd i)"
    using lev by (simp add: level_rep_def)
  then have t: "bs_tail_idxs ?sd i \<in> set xs" "bs_head_idxs ?sd i \<noteq> NULL_IDX"
    using dlist_tail False dlist_head_null by (metis last_in_set, metis)
  then have ne: "bs_tail_idxs ?sd i \<noteq> s" using s by auto
  have "dlist ((sl_nexts ?sl)(s := NULL_IDX, bs_tail_idxs ?sd i := s)) ((sl_prevs ?sl)(s := bs_tail_idxs ?sd i))
      (bs_head_idxs ?sd i) (xs @ [s]) s"
    using dlist_append_new [OF dl s(2) slot_not_null [OF s(1)] False s(3)] ne by (simp add: fun_upd_twist)
  with lev s od t(2) ne show ?thesis
    by (auto simp: append_new_def append_order_def Let_def level_rep_def)
qed

lemma append_new_edits:
  assumes "level_rep (ob_slots b) (level_at (book_side d b) i) xs" "s \<in> X" "set xs \<subseteq> X"
  shows "edits d i X b (append_new d i s od t b)"
proof -
  have "bs_tail_idxs (book_side d b) i \<in> X" if "bs_head_idxs (book_side d b) i \<noteq> NULL_IDX"
    using assms that dlist_tail dlist_head_null
    by (fastforce simp: level_rep_def)
  with assms(2) show ?thesis
    by (auto simp: edits_def same_slot_def append_new_def append_order_def Let_def level_at_def)
qed

lemma append_new_refines:
  assumes rep: "book_rep d b (L1 @ xs # L2) L' (s # F)"
    and abs: "ref_side d (abs_book b) = S1 @ (px, q) # S2" "length S1 = length L1"
    and od: "o_price od = bs_prices (book_side d b) (length L1)" "o_qty_remaining od > 0"
  obtains t where "index_insert (ob_index b) (o_id od) s (side_code d) = Some (True, t)"
    "book_rep d (append_new d (length L1) s od t b) (L1 @ (xs @ [s]) # L2) L' F"
    "abs_book (append_new d (length L1) s od t b) = ref_set_side d
       (S1 @ (px, q @ [\<lparr>ro_id = o_id od, ro_rem = o_qty_remaining od, ro_account = o_account_id od\<rparr>]) # S2)
       (abs_book b)"
    "complete d b (L1 @ xs # L2) L' \<Longrightarrow>
       o_id od \<notin> sl_ids (ob_slots b) ` set (concat (L1 @ xs # L2) @ concat L') \<Longrightarrow>
       complete d (append_new d (length L1) s od t b) (L1 @ (xs @ [s]) # L2) L'"
proof -
  let ?i = "length L1"
  define sl' where "sl' = ob_slots (append_new d ?i s od (ob_index b) b)"
  have slots: "ob_slots (append_new d ?i s od t b) = sl'" for t by (simp add: sl'_def append_new_def)
  have ids: "sl_ids sl' = (sl_ids (ob_slots b))(s := o_id od)" by (simp add: sl'_def append_new_ids)
  obtain t where t: "index_insert (ob_index b) (o_id od) s (side_code d) = Some (True, t)"
    "oidx.pairs_ok (entry_ok d sl' (L1 @ (xs @ [s]) # L2) L') t"
    "index_map t = (index_map (ob_index b))(o_id od \<mapsto> (s, side_code d))"
    using rep ids by (rule add_pairs)
  let ?b = "append_new d ?i s od t b"
  have lev: "level_rep (ob_slots b) (level_at (book_side d b) ?i) xs"
    using rep by (rule rep_split)
  have s: "s < kMaxOrders" "s \<notin> set xs" "distinct xs" "distinct ((xs @ [s]) @ F)"
    using rep live_slot [OF rep, of s] by (auto simp: book_rep_def)
  have ed: "edits d ?i (set (xs @ s # F)) b ?b" using lev by (rule append_new_edits) auto
  have "pool_free (snd (slot_alloc (ob_slots b))) F"
    using slot_alloc_next(2) rep unfolding book_rep_def by blast
  then have pool: "pool_free (ob_slots ?b) F"
    by (simp add: append_new_def append_order_def Let_def pool_free_def)
  have rep': "book_rep d ?b (L1 @ (xs @ [s]) # L2) L' F"
    using append_new_level [OF lev s(1-3) od] t(2)
    by (intro edit_book_rep [OF rep ed _ pool s(4)]) (auto simp: slots append_new_frame)
  have "map (abs_order (ob_slots ?b)) (xs @ [s])
      = q @ [\<lparr>ro_id = o_id od, ro_rem = o_qty_remaining od, ro_account = o_account_id od\<rparr>]"
  proof -
    have "q = map (abs_order (ob_slots b)) xs" using rep abs by (rule rep_queue_at)
    then show ?thesis
      using s(2) by (auto simp: append_new_def append_order_def Let_def abs_order_def)
  qed
  then have "abs_book ?b = ref_set_side d
      (S1 @ (px, q @ [\<lparr>ro_id = o_id od, ro_rem = o_qty_remaining od, ro_account = o_account_id od\<rparr>]) # S2)
      (abs_book b)" using edit_abs [OF rep ed rep' abs] by simp
  moreover have "complete d ?b (L1 @ (xs @ [s]) # L2) L'"
    if "complete d b (L1 @ xs # L2) L'" "o_id od \<notin> sl_ids (ob_slots b) ` set (concat (L1 @ xs # L2) @ concat L')"
    using complete_add [OF rep that(1) _ _ that(2), of ?b] t(3) by (simp add: append_new_ids append_new_frame)
  ultimately show thesis using that t(1) rep' by blast
qed

subsection \<open>Creating a level\<close>

lemma new_level_refines:
  assumes rep: "book_rep d b L L' F" and px: "px \<notin> lv_price ` set (levels (book_side d b))"
    and room: "bs_count (book_side d b) < kMaxLevels"
  obtains L1 L2 S1 S2 s' where "insert_level px d (book_side d b) = (int (length L1), s')"
    "L = L1 @ L2" "length S1 = length L1" "ref_side d (abs_book b) = S1 @ S2"
    "book_rep d (set_side d s' b) (L1 @ [] # L2) L' F"
    "abs_book (set_side d s' b) = ref_set_side d (S1 @ (px, []) # S2) (abs_book b)"
    "\<And>p. p \<in> fst ` set S1 \<Longrightarrow> better d p px" "S2 \<noteq> [] \<Longrightarrow> \<not> better d (fst (hd S2)) px"
    "px \<notin> fst ` set S2"
proof -
  obtain A B s' where ins: "insert_level px d (book_side d b) = (int (length A), s')"
    "levels (book_side d b) = A @ B" "levels s' = A @ empty_level px # B" "bs_count s' = bs_count (book_side d b) + 1"
    "\<And>l. l \<in> set A \<Longrightarrow> better d (lv_price l) px" "B \<noteq> [] \<Longrightarrow> \<not> better d (lv_price (hd B)) px"
    using room by (rule insert_level_levels [where p = px and d = d]) blast
  have la: "list_all2 (level_rep (ob_slots b)) (A @ B) L" "best_first d (A @ B)"
    using rep ins(2) by (simp_all add: book_rep_def side_rep_def)
  then obtain L1 L2 where L: "L = L1 @ L2" "length L1 = length A" "list_all2 (level_rep (ob_slots b)) A L1"
    "list_all2 (level_rep (ob_slots b)) B L2" by (auto simp: list_all2_append1 dest: list_all2_lengthD)
  let ?b = "set_side d s' b"
  have "level_rep (ob_slots b) (empty_level px) []" by (simp add: level_rep_def empty_level_def)
  then have "list_all2 (level_rep (ob_slots b)) (levels s') (L1 @ [] # L2)"
    using L by (simp add: ins(3) list_all2_appendI)
  moreover have "best_first d (levels s')"
    unfolding ins(3) using la(2) px ins(5,6)
    by (intro insert_level_best_first [where p = px]) (auto simp: ins(2) empty_level_def)
  ultimately have rep': "book_rep d ?b (L1 @ [] # L2) L' F"
    using rep room ins(4) by (simp add: book_rep_def side_rep_def L(1) entry_ok_def [abs_def])
  let ?S1 = "abs_levels (ob_slots b) A L1" and ?S2 = "abs_levels (ob_slots b) B L2"
  have abs: "ref_side d (abs_book b) = ?S1 @ ?S2"
    using abs_book_rep(1) [OF rep] L(1,2) by (simp add: ins(2) abs_levels_append)
  have "abs_book ?b = ref_set_side d (?S1 @ (px, []) # ?S2) (abs_book b)"
    using abs_book_rep(1) [OF rep'] L(2)
    by (intro ref_book_eqI [of d]) (simp_all add: ins(3) abs_levels_append ref_side_abs empty_level_def)
  moreover have "map fst ?S1 = map lv_price A" "map fst ?S2 = map lv_price B"
    using L(2) list_all2_lengthD [OF L(4)] by (simp_all add: abs_levels_prices)
  then have img: "fst ` set ?S1 = lv_price ` set A" "fst ` set ?S2 = lv_price ` set B"
    and hd: "?S2 \<noteq> [] \<Longrightarrow> B \<noteq> [] \<and> fst (hd ?S2) = lv_price (hd B)"
    by (metis list.set_map, metis list.set_map, metis list.map_disc_iff hd_map)
  moreover have "better d p px" if "p \<in> fst ` set ?S1" for p using that ins(5) unfolding img by blast
  moreover have "px \<notin> fst ` set ?S2" using px ins(2) unfolding img by auto
  moreover have "length ?S1 = length L1" using L(2) by (simp add: abs_levels_def)
  ultimately show thesis
    using that [of L1 s' L2 ?S1 ?S2] ins(1,6) L(1,2) abs rep' by metis
qed

lemma enqueue_new_level:
  assumes "\<And>p. p \<in> fst ` set S1 \<Longrightarrow> better d p px" "S2 \<noteq> [] \<Longrightarrow> \<not> better d (fst (hd S2)) px" "px \<notin> fst ` set S2"
  shows "enqueue d px r (S1 @ S2) = S1 @ (px, [r]) # S2"
  using assms
proof (induction S1)
  case Nil
  then show ?case by (cases S2) (auto simp: image_iff)
next
  case (Cons l S1)
  obtain p q where l: "l = (p, q)" by fastforce
  from Cons.prems(1) [of p] l have "better d p px" by simp
  then have "p \<noteq> px" by auto
  with \<open>better d p px\<close> Cons l show ?case by auto
qed

lemma enqueue_level:
  assumes "\<And>p. p \<in> fst ` set S1 \<Longrightarrow> better d p px"
  shows "enqueue d px r (S1 @ (px, q) # S2) = S1 @ (px, q @ [r]) # S2"
  using assms
proof (induction S1)
  case (Cons l S1)
  obtain p q where l: "l = (p, q)" by fastforce
  from Cons.prems(1) [of p] l have "better d p px" by simp
  then have "p \<noteq> px" by auto
  with \<open>better d p px\<close> Cons l show ?case by auto
qed simp

subsection \<open>Booking refines \<open>enqueue\<close>\<close>

lemma resting_count_rep:
  assumes "book_rep d b L L' F"
  shows "resting_count (abs_book b) + length F = kMaxOrders"
proof -
  have "resting_count (abs_book b) = length (concat (map snd (ref_side d (abs_book b))))
      + length (concat (map snd (ref_side (\<not> d) (abs_book b))))"
    by (cases d) (simp_all add: resting_count_def ref_side_def)
  also have "\<dots> = length (concat L @ concat L')"
    using abs_book_rep [OF assms] rep_no_level [OF assms] assms [unfolded book_rep_sym [of d]]
      rep_no_level [of "\<not> d" b L' L F]
    by (simp add: abs_levels_orders)
  finally have "resting_count (abs_book b) + length F = length (concat L @ concat L' @ F)" by simp
  also have "\<dots> = card (set (concat L @ concat L' @ F))"
    using assms by (metis book_rep_def distinct_card)
  also have "\<dots> = kMaxOrders" using assms by (simp only: book_rep_def card_lessThan)
  finally show ?thesis .
qed

lemma side_price_list:
  assumes "book_rep d b L L' F"
  shows "map fst (ref_side d (abs_book b)) = map lv_price (levels (book_side d b))"
  using abs_book_rep(1) [OF assms] rep_no_level(2) [OF assms] by (simp add: abs_levels_prices)

lemma side_prices_rep:
  assumes "book_rep d b L L' F"
  shows "fst ` set (ref_side d (abs_book b)) = lv_price ` set (levels (book_side d b))"
  using side_price_list [OF assms] by (metis list.set_map)

lemma sorted_before:
  assumes "book_rep d b L L' F" "ref_side d (abs_book b) = S1 @ (px, q) # S2" "p \<in> fst ` set S1"
  shows "better d p px"
proof -
  have "sorted_wrt (better d) (map lv_price (levels (book_side d b)))"
    using assms(1) by (simp add: best_first_def sorted_wrt_map book_rep_def side_rep_def)
  then have "sorted_wrt (better d) (map fst (S1 @ (px, q) # S2))"
    using side_price_list [OF assms(1)] assms(2) by simp
  then show ?thesis using assms(3) by (auto simp: sorted_wrt_append)
qed

text \<open>The end of \<open>rest_order\<close>, once the level is known: no slot, or append and index.\<close>

lemma rest_order_full:
  assumes "pool_free (ob_slots b) []" "d = is_buy od"
  shows "find_level (book_side d b) (o_price od) = int i \<Longrightarrow>
      rest_order od b = Some (False, b\<lparr>ob_stat_rejected := ob_stat_rejected b + 1\<rparr>)"
    and "find_level (book_side d b) (o_price od) < 0 \<Longrightarrow>
      insert_level (o_price od) d (book_side d b) = (int i, s') \<Longrightarrow>
      rest_order od b = Some (False,
        (set_side d (remove_level i s') (set_side d s' b))\<lparr>ob_stat_rejected := ob_stat_rejected b + 1\<rparr>)"
  using slot_alloc_empty [OF assms(1)] assms(2) by (auto simp: rest_order_def Let_def set_side_def book_side_def)

lemma rest_order_append:
  assumes "pool_free (ob_slots b) (s # F)" "d = is_buy od"
    "index_insert (ob_index b) (o_id od) s (side_code d) = Some (True, t)"
  shows "find_level (book_side d b) (o_price od) = int i \<Longrightarrow>
      rest_order od b = Some (True, append_new d i s od t b)"
    and "find_level (book_side d b) (o_price od) < 0 \<Longrightarrow>
      insert_level (o_price od) d (book_side d b) = (int i, s') \<Longrightarrow>
      rest_order od b = Some (True, append_new d i s od t (set_side d s' b))"
proof -
  have s: "s \<noteq> NULL_IDX" "fst (slot_alloc (ob_slots b)) = s"
    using slot_alloc_next(1) [OF assms(1)] assms(1) by (auto simp: pool_free_def)
  have idx: "ob_index (append_order d i s od b') = ob_index b'" for b'
    by (auto simp: append_order_def Let_def)
  show "find_level (book_side d b) (o_price od) = int i \<Longrightarrow>
      rest_order od b = Some (True, append_new d i s od t b)"
    "find_level (book_side d b) (o_price od) < 0 \<Longrightarrow>
      insert_level (o_price od) d (book_side d b) = (int i, s') \<Longrightarrow>
      rest_order od b = Some (True, append_new d i s od t (set_side d s' b))"
    using s assms(2,3) idx
    by (auto simp: rest_order_def Let_def append_new_def case_prod_unfold side_code_def)
qed

text \<open>\<open>rested od b L L' cap b' M F'\<close>: what booking \<open>od\<close> in \<open>b\<close> must lead to, \<open>cap\<close> telling whether a
  capacity limit rejects it.\<close>

definition rested :: "Order \<Rightarrow> OrderBook \<Rightarrow> nat list list \<Rightarrow> nat list list \<Rightarrow> bool \<Rightarrow> OrderBook \<Rightarrow>
    nat list list \<Rightarrow> nat list \<Rightarrow> bool" where
  "rested od b L L' cap b' M F' = (let d = is_buy od;
       r = \<lparr>ro_id = o_id od, ro_rem = o_qty_remaining od, ro_account = o_account_id od\<rparr>
     in book_rep d b' M L' F' \<and> no_empty M \<and>
        abs_book b' = (if cap then abs_book b
          else ref_set_side d (enqueue d (o_price od) r (ref_side d (abs_book b))) (abs_book b)) \<and>
        (complete d b L L' \<and> o_id od \<notin> sl_ids (ob_slots b) ` set (concat L @ concat L') \<longrightarrow> complete d b' M L') \<and>
        same_conf (b\<lparr>ob_stat_rejected := ob_stat_rejected b + of_bool cap\<rparr>) b' \<and>
        ob_stat_matches b' = ob_stat_matches b)"

lemma rested_rejected:
  "book_rep (is_buy od) b L L' F \<Longrightarrow> no_empty L \<Longrightarrow>
     rested od b L L' True (b\<lparr>ob_stat_rejected := ob_stat_rejected b + 1\<rparr>) L F"
  by (simp add: rested_def same_conf_def)

lemma rest_found:
  assumes rep: "book_rep (is_buy od) b L L' F" and ne: "no_empty L" and pos: "o_qty_remaining od > 0"
    and found: "\<not> find_level (book_side (is_buy od) b) (o_price od) < 0"
  shows "\<exists>b' M F'. rest_order od b = Some (F \<noteq> [], b') \<and> rested od b L L' (F = []) b' M F'"
proof -
  define d where "d = is_buy od"
  let ?s = "book_side d b" and ?p = "o_price od"
  have pool: "pool_free (ob_slots b) F" using rep by (simp add: book_rep_def)
  obtain A l B where lv: "levels ?s = A @ l # B" "find_level ?s ?p = int (length A)" "lv_price l = ?p"
    using found unfolding d_def [symmetric] by (rule find_level_present)
  have len: "length A < length L" using rep_no_level(2) [OF rep] levels_split(1) [OF lv(1)] by (simp add: d_def)
  then obtain L1 xs L2 where L: "L = L1 @ xs # L2" "length L1 = length A"
    by (metis id_take_nth_drop length_take min.absorb4)
  have "length A < length (ref_side d (abs_book b))" using len rep_no_level(1) [OF rep] by (simp add: d_def)
  then obtain S1 px q S2 where abs: "ref_side d (abs_book b) = S1 @ (px, q) # S2" "length S1 = length L1"
    using L(2) by (metis id_take_nth_drop length_take min.absorb4 surj_pair)
  note rep1 = rep [folded d_def, unfolded L(1)]
  have px: "px = ?p" "?p = bs_prices ?s (length L1)"
    using rep_queue_at(1) [OF rep1 abs] levels_split(2) [OF lv(1)] lv(3) L(2) by simp_all
  show ?thesis
  proof (cases F)
    case Nil
    with pool have "rest_order od b = Some (False, b\<lparr>ob_stat_rejected := ob_stat_rejected b + 1\<rparr>)"
      using lv(2) by (intro rest_order_full(1) [OF _ refl]) (simp_all add: d_def)
    with Nil rested_rejected [OF rep ne] show ?thesis by auto
  next
    case (Cons s F')
    let ?r = "\<lparr>ro_id = o_id od, ro_rem = o_qty_remaining od, ro_account = o_account_id od\<rparr>"
    obtain t where t: "index_insert (ob_index b) (o_id od) s (side_code d) = Some (True, t)"
      "book_rep d (append_new d (length L1) s od t b) (L1 @ (xs @ [s]) # L2) L' F'"
      "abs_book (append_new d (length L1) s od t b) = ref_set_side d (S1 @ (px, q @ [?r]) # S2) (abs_book b)"
      "complete d b (L1 @ xs # L2) L' \<Longrightarrow>
         o_id od \<notin> sl_ids (ob_slots b) ` set (concat (L1 @ xs # L2) @ concat L') \<Longrightarrow>
         complete d (append_new d (length L1) s od t b) (L1 @ (xs @ [s]) # L2) L'"
      using rep1 [unfolded Cons] abs px(2) pos by (rule append_new_refines) blast
    have "rest_order od b = Some (True, append_new d (length L1) s od t b)"
      using rest_order_append(1) [OF pool [unfolded Cons] _ t(1)] lv(2) L(2) by (simp add: d_def)
    moreover have "enqueue d ?p ?r (ref_side d (abs_book b)) = S1 @ (px, q @ [?r]) # S2"
      unfolding abs(1) px(1) using sorted_before [OF rep1 abs(1)] px(1) by (intro enqueue_level) simp
    moreover have "no_empty (L1 @ (xs @ [s]) # L2)" using ne L(1) by (auto simp: no_empty_def)
    ultimately have "rested od b L L' False (append_new d (length L1) s od t b) (L1 @ (xs @ [s]) # L2) F'"
      using t(2-4) L(1) append_new_frame by (simp add: rested_def Let_def d_def)
    with Cons \<open>rest_order od b = _\<close> show ?thesis by auto
  qed
qed

lemma rest_create:
  assumes rep: "book_rep (is_buy od) b L L' F" and ne: "no_empty L" and pos: "o_qty_remaining od > 0"
    and absent: "find_level (book_side (is_buy od) b) (o_price od) < 0"
    and room: "bs_count (book_side (is_buy od) b) < kMaxLevels"
  shows "\<exists>b' M F'. rest_order od b = Some (F \<noteq> [], b') \<and> rested od b L L' (F = []) b' M F'"
proof -
  define d where "d = is_buy od"
  let ?s = "book_side d b" and ?p = "o_price od"
  have pool: "pool_free (ob_slots b) F" using rep by (simp add: book_rep_def)
  have px: "?p \<notin> lv_price ` set (levels ?s)" using absent find_level_absent by (simp add: d_def)
  obtain L1 L2 S1 S2 s' where ins: "insert_level ?p d ?s = (int (length L1), s')"
    "L = L1 @ L2" "length S1 = length L1" "ref_side d (abs_book b) = S1 @ S2"
    "book_rep d (set_side d s' b) (L1 @ [] # L2) L' F"
    "abs_book (set_side d s' b) = ref_set_side d (S1 @ (?p, []) # S2) (abs_book b)"
    and pos_ok: "\<And>p. p \<in> fst ` set S1 \<Longrightarrow> better d p ?p" "S2 \<noteq> [] \<Longrightarrow> \<not> better d (fst (hd S2)) ?p"
    "?p \<notin> fst ` set S2"
    using rep [folded d_def] px room [folded d_def] by (rule new_level_refines) blast
  let ?b = "set_side d s' b"
  have abs1: "ref_side d (abs_book ?b) = S1 @ (?p, []) # S2" using ins(6) by simp
  show ?thesis
  proof (cases F)
    case Nil
    let ?b' = "set_side d (remove_level (length L1) s') ?b"
    have rest: "rest_order od b = Some (False, ?b'\<lparr>ob_stat_rejected := ob_stat_rejected b + 1\<rparr>)"
      using pool Nil absent ins(1) by (intro rest_order_full(2)) (simp_all add: d_def)
    have "book_rep d ?b' L L' F" using drop_level_rep [OF ins(5) refl] ins(2) by simp
    moreover have "abs_book ?b' = abs_book b"
      using drop_level_abs [OF ins(5) refl abs1 ins(3)] ins(4,6) by (simp add: ref_set_side_same)
    moreover have "complete d ?b' L L' = complete d b L L'" by (simp add: complete_def)
    ultimately have "rested od b L L' True (?b'\<lparr>ob_stat_rejected := ob_stat_rejected b + 1\<rparr>) L F"
      using ne by (simp add: rested_def same_conf_def d_def)
    with rest Nil show ?thesis by auto
  next
    case (Cons s F')
    let ?r = "\<lparr>ro_id = o_id od, ro_rem = o_qty_remaining od, ro_account = o_account_id od\<rparr>"
    have pr: "?p = bs_prices (book_side d ?b) (length L1)" using rep_queue_at(1) [OF ins(5) abs1 ins(3)] .
    obtain t where t: "index_insert (ob_index ?b) (o_id od) s (side_code d) = Some (True, t)"
      "book_rep d (append_new d (length L1) s od t ?b) (L1 @ ([] @ [s]) # L2) L' F'"
      "abs_book (append_new d (length L1) s od t ?b) = ref_set_side d (S1 @ (?p, [] @ [?r]) # S2) (abs_book ?b)"
      "complete d ?b (L1 @ [] # L2) L' \<Longrightarrow>
         o_id od \<notin> sl_ids (ob_slots ?b) ` set (concat (L1 @ [] # L2) @ concat L') \<Longrightarrow>
         complete d (append_new d (length L1) s od t ?b) (L1 @ ([] @ [s]) # L2) L'"
      using ins(5) [unfolded Cons] abs1 ins(3) pr pos by (rule append_new_refines) blast
    have rest: "rest_order od b = Some (True, append_new d (length L1) s od t ?b)"
      using rest_order_append(2) [OF pool [unfolded Cons], of d od t "length L1" s'] t(1) absent ins(1)
      by (simp add: d_def)
    have "enqueue d ?p ?r (ref_side d (abs_book b)) = S1 @ (?p, [?r]) # S2"
      unfolding ins(4) using pos_ok by (rule enqueue_new_level)
    moreover have "no_empty (L1 @ ([] @ [s]) # L2)" using ne ins(2) by (auto simp: no_empty_def)
    moreover have "complete d ?b (L1 @ [] # L2) L' = complete d b L L'" by (simp add: complete_def ins(2))
    ultimately have "rested od b L L' False (append_new d (length L1) s od t ?b) (L1 @ ([] @ [s]) # L2) F'"
      using t(2-4) ins(2,6) append_new_frame [where b = ?b and i = "length L1" and d = d and s = s and od = od and t = t]
      by (simp add: rested_def Let_def d_def same_conf_def)
    with Cons rest show ?thesis by auto
  qed
qed

lemma rest_order_refines:
  fixes od :: Order and b :: OrderBook
  defines "cap \<equiv> at_capacity od kMaxLevels kMaxOrders (abs_book b)"
  assumes rep: "book_rep (is_buy od) b L L' F" and ne: "no_empty L" and pos: "o_qty_remaining od > 0"
  shows "\<exists>b' M F'. rest_order od b = Some (\<not> cap, b') \<and> rested od b L L' cap b' M F'"
proof -
  let ?s = "book_side (is_buy od) b" and ?p = "o_price od"
  have full: "resting_count (abs_book b) \<ge> kMaxOrders \<longleftrightarrow> F = []"
    using resting_count_rep [OF rep] by (cases F) auto
  have absent: "find_level ?s ?p < 0 \<longleftrightarrow> ?p \<notin> fst ` set (ref_side (is_buy od) (abs_book b))"
    using side_prices_rep [OF rep] find_level_absent by simp
  have cap: "cap \<longleftrightarrow> F = [] \<or> find_level ?s ?p < 0 \<and> bs_count ?s \<ge> kMaxLevels"
    using full absent rep_no_level [OF rep] by (simp add: cap_def at_capacity_def)
  consider (nolevel) "find_level ?s ?p < 0" "bs_count ?s \<ge> kMaxLevels"
    | (create) "find_level ?s ?p < 0" "bs_count ?s < kMaxLevels" | (found) "\<not> find_level ?s ?p < 0" by linarith
  then show ?thesis
  proof cases
    case nolevel
    then have "rest_order od b = Some (False, b\<lparr>ob_stat_rejected := ob_stat_rejected b + 1\<rparr>)"
      by (simp add: rest_order_def insert_level_full)
    with nolevel rested_rejected [OF rep ne] show ?thesis by (auto simp: cap)
  next
    case create
    with rest_create [OF rep ne pos create] show ?thesis by (simp add: cap)
  next
    case found
    with rest_found [OF rep ne pos found] show ?thesis by (simp add: cap)
  qed
qed

end
