(* ===== verification/Ref_Laws.thy ===== *)
theory Ref_Laws
  imports Ref_Book
begin

text \<open>
  What \<open>ref_add\<close> does as a whole: quantity is conserved, fills follow price-time priority, resting
  orders of the aggressor's own account are not touched, fill-or-kill is all or nothing, and nothing
  of an immediate order rests.
\<close>

text \<open>Whether the specification drops a remainder at a wall.\<close>

definition walled :: "Order \<Rightarrow> RefBook \<Rightarrow> bool" where
  "walled od rb = (\<not> never_rests od \<and>
     (let (n', w, _) = sweep od (o_qty_remaining od) (ref_side (\<not> is_buy od) rb) in w \<and> n' \<noteq> 0))"

text \<open>The four ways \<open>ref_add\<close> ends: killed, done after matching, rejected for capacity, booked.\<close>

lemma ref_add_cases [consumes 1, case_names killed matched rejected booked]:
  assumes add: "ref_add ml mo od rb = (acc, rb', fs)"
    and killed: "o_type od = FOK \<Longrightarrow> liquidity od (ref_side (\<not> is_buy od) rb) < unat (o_qty_remaining od) \<Longrightarrow>
      acc = False \<Longrightarrow> rb' = rb \<Longrightarrow> fs = [] \<Longrightarrow> P"
    and matched: "\<And>n' w s. sweep od (o_qty_remaining od) (ref_side (\<not> is_buy od) rb) = (n', w, s, fs) \<Longrightarrow>
      \<not> (o_type od = FOK \<and> liquidity od (ref_side (\<not> is_buy od) rb) < unat (o_qty_remaining od)) \<Longrightarrow>
      n' = 0 \<or> w \<or> never_rests od \<Longrightarrow> acc = True \<Longrightarrow> rb' = ref_set_side (\<not> is_buy od) s rb \<Longrightarrow> P"
    and rejected: "\<And>n' s. sweep od (o_qty_remaining od) (ref_side (\<not> is_buy od) rb) = (n', False, s, fs) \<Longrightarrow>
      n' \<noteq> 0 \<Longrightarrow> \<not> never_rests od \<Longrightarrow> at_capacity od ml mo (ref_set_side (\<not> is_buy od) s rb) \<Longrightarrow>
      acc = False \<Longrightarrow> rb' = ref_set_side (\<not> is_buy od) s rb \<Longrightarrow> P"
    and booked: "\<And>n' s. sweep od (o_qty_remaining od) (ref_side (\<not> is_buy od) rb) = (n', False, s, fs) \<Longrightarrow>
      n' \<noteq> 0 \<Longrightarrow> \<not> never_rests od \<Longrightarrow> \<not> at_capacity od ml mo (ref_set_side (\<not> is_buy od) s rb) \<Longrightarrow>
      acc = True \<Longrightarrow> rb' = ref_set_side (is_buy od) (enqueue (is_buy od) (o_price od)
        \<lparr>ro_id = o_id od, ro_rem = n', ro_account = o_account_id od\<rparr> (ref_side (is_buy od) rb))
        (ref_set_side (\<not> is_buy od) s rb) \<Longrightarrow> P"
  shows P
proof (cases "o_type od = FOK \<and> liquidity od (ref_side (\<not> is_buy od) rb) < unat (o_qty_remaining od)")
  case True
  with add have "acc = False" "rb' = rb" "fs = []" by (simp_all add: ref_add_def Let_def)
  then show ?thesis using True by (intro killed) simp_all
next
  case live: False
  obtain n' w s gs where sw: "sweep od (o_qty_remaining od) (ref_side (\<not> is_buy od) rb) = (n', w, s, gs)"
    by (metis prod_cases4)
  let ?rb1 = "ref_set_side (\<not> is_buy od) s rb"
  have add': "(if n' = 0 \<or> w \<or> never_rests od then (True, ?rb1, gs)
      else if at_capacity od ml mo ?rb1 then (False, ?rb1, gs)
      else (True, ref_set_side (is_buy od) (enqueue (is_buy od) (o_price od)
        \<lparr>ro_id = o_id od, ro_rem = n', ro_account = o_account_id od\<rparr> (ref_side (is_buy od) rb)) ?rb1, gs))
      = (acc, rb', fs)"
    using add live sw by (auto simp: ref_add_def Let_def)
  show ?thesis
  proof (cases "n' = 0 \<or> w \<or> never_rests od")
    case True
    with add' have "acc = True" "rb' = ?rb1" "fs = gs" by simp_all
    then show ?thesis using sw live True by (intro matched [of n' w s]) simp_all
  next
    case False
    note moving = False
    show ?thesis
    proof (cases "at_capacity od ml mo ?rb1")
      case True
      with moving add' have "acc = False" "rb' = ?rb1" "fs = gs" by simp_all
      then show ?thesis using sw moving True by (intro rejected [of n' s]) simp_all
    next
      case False
      with moving add' show ?thesis using sw by (intro booked [of n' s]) simp_all
    qed
  qed
qed

lemma ref_side_set_other [simp]:
  "ref_side e (ref_set_side d s rb) = (if e = d then s else ref_side e rb)"
  by (cases e; cases d) (simp_all add: ref_side_def ref_set_side_def)

text \<open>Conservation: what the passive side loses is what the fills say; the rest of the order is booked
  on its own side or, if it may not rest, gone.\<close>

definition rests :: "bool \<Rightarrow> Order \<Rightarrow> RefBook \<Rightarrow> bool" where
  "rests acc od rb = (acc \<and> \<not> never_rests od \<and> \<not> walled od rb)"

lemma ref_add_conserves:
  assumes "ref_add ml mo od rb = (acc, rb', fs)"
  shows "side_total (ref_side (\<not> is_buy od) rb) = side_total (ref_side (\<not> is_buy od) rb') + fill_total fs"
    and "fill_total fs \<le> unat (o_qty_remaining od)"
    and "side_total (ref_side (is_buy od) rb') = side_total (ref_side (is_buy od) rb)
      + (if rests acc od rb then unat (o_qty_remaining od) - fill_total fs else 0)"
proof -
  have "side_total (ref_side (\<not> is_buy od) rb) = side_total (ref_side (\<not> is_buy od) rb') + fill_total fs \<and>
    fill_total fs \<le> unat (o_qty_remaining od) \<and>
    side_total (ref_side (is_buy od) rb') = side_total (ref_side (is_buy od) rb)
      + (if rests acc od rb then unat (o_qty_remaining od) - fill_total fs else 0)"
    using assms
  proof (cases rule: ref_add_cases)
    case (matched n' w s)
    with sweep_conserves [OF matched(1)] show ?thesis by (auto simp: rests_def walled_def)
  next
    case (rejected n' s)
    with sweep_conserves [OF rejected(1)] show ?thesis by (auto simp: rests_def)
  next
    case (booked n' s)
    with sweep_conserves [OF booked(1)] show ?thesis by (auto simp: rests_def walled_def enqueue_total)
  qed (simp add: rests_def)
  then show "side_total (ref_side (\<not> is_buy od) rb) = side_total (ref_side (\<not> is_buy od) rb') + fill_total fs"
    "fill_total fs \<le> unat (o_qty_remaining od)"
    "side_total (ref_side (is_buy od) rb') = side_total (ref_side (is_buy od) rb)
      + (if rests acc od rb then unat (o_qty_remaining od) - fill_total fs else 0)" by blast+
qed

lemma ref_add_priority:
  assumes "ref_add ml mo od rb = (acc, rb', fs)" "side_ok (\<not> is_buy od) (ref_side (\<not> is_buy od) rb)"
  shows "takes_prefix od (priced (ref_side (\<not> is_buy od) rb)) fs" "\<forall>f \<in> set fs. \<not> ref_blocks od (f_px f)"
  using assms(1) by (cases rule: ref_add_cases; use sweep_priority sweep_within_limit assms(2) in fastforce)+

text \<open>Orders of the aggressor's own account are left as they are.\<close>

lemma priced_simps [simp]:
  "priced [] = []" "priced ((px, q) # s) = map (Pair px) q @ priced s"
  by (simp_all add: priced_def)

lemma sweep_queue_own:
  "sweep_queue od px n q = (n', w, q', fs) \<Longrightarrow> filter (ref_wall od) q' = filter (ref_wall od) q"
  by (induction rule: sweep_queue_induct) (auto simp: ref_wall_def)

lemma filter_priced_queue:
  "filter (\<lambda>(px, r). P r) (map (Pair px) q) = map (Pair px) (filter P q)"
  by (induction q) auto

lemma sweep_own:
  "sweep od n s = (n', w, s', fs) \<Longrightarrow>
     filter (\<lambda>(px, r). ref_wall od r) (priced s') = filter (\<lambda>(px, r). ref_wall od r) (priced s)"
proof (induction rule: sweep_induct)
  case (advance n px q rest m gs n' w s' fs)
  with sweep_queue_own [OF advance(3)] show ?case by (auto simp: filter_priced_queue)
qed (auto simp: filter_priced_queue dest: sweep_queue_own)

lemma ref_add_own:
  assumes "ref_add ml mo od rb = (acc, rb', fs)"
  shows "filter (\<lambda>(px, r). ref_wall od r) (priced (ref_side (\<not> is_buy od) rb'))
      = filter (\<lambda>(px, r). ref_wall od r) (priced (ref_side (\<not> is_buy od) rb))"
  using assms by (cases rule: ref_add_cases) (auto dest: sweep_own)

text \<open>Fill-or-kill and immediate orders; rejection.\<close>

lemma ref_add_fok:
  assumes "ref_add ml mo od rb = (acc, rb', fs)" "o_type od = FOK"
  shows "acc \<longleftrightarrow> unat (o_qty_remaining od) \<le> liquidity od (ref_side (\<not> is_buy od) rb)"
    and "acc \<Longrightarrow> fill_total fs = unat (o_qty_remaining od)"
    and "\<not> acc \<Longrightarrow> rb' = rb \<and> fs = []"
proof -
  have "(acc \<longleftrightarrow> unat (o_qty_remaining od) \<le> liquidity od (ref_side (\<not> is_buy od) rb)) \<and>
    (acc \<longrightarrow> fill_total fs = unat (o_qty_remaining od)) \<and> (\<not> acc \<longrightarrow> rb' = rb \<and> fs = [])"
    using assms(1)
  proof (cases rule: ref_add_cases)
    case (matched n' w s)
    then have le: "unat (o_qty_remaining od) \<le> liquidity od (ref_side (\<not> is_buy od) rb)" using assms(2) by simp
    then have "n' = 0" using sweep_filled_iff [OF matched(1)] by simp
    with sweep_conserves [OF matched(1)] le matched(4) show ?thesis by simp
  qed (use assms(2) in \<open>auto simp: never_rests_def\<close>)
  then show "acc \<longleftrightarrow> unat (o_qty_remaining od) \<le> liquidity od (ref_side (\<not> is_buy od) rb)"
    "acc \<Longrightarrow> fill_total fs = unat (o_qty_remaining od)" "\<not> acc \<Longrightarrow> rb' = rb \<and> fs = []" by blast+
qed

lemma ref_add_not_resting:
  assumes "ref_add ml mo od rb = (acc, rb', fs)" "never_rests od \<or> \<not> acc"
  shows "ref_side (is_buy od) rb' = ref_side (is_buy od) rb"
  using assms(1) by (cases rule: ref_add_cases) (use assms(2) in auto)

end
