(* ===== verification/Book_Add.thy ===== *)
theory Book_Add
  imports Book_Match Book_Rest Ref_Laws
begin

text \<open>
  \<^verbatim>\<open>OrderBook::add_order\<close> as a whole against \<open>ref_add\<close>: from a well-formed book it returns, with the
  same answer, the same fills and the same book as the specification, and the book is well formed
  again.
\<close>

subsection \<open>The invariant from either side\<close>

lemma book_inv_iff: "book_inv b \<longleftrightarrow> (\<exists>L L' F. book_rep d b L L' F \<and> no_empty L \<and> no_empty L')"
proof (cases d)
  case False
  then show ?thesis using book_rep_sym [of False b] unfolding book_inv_def by auto
qed (simp add: book_inv_def)

lemma book_inv_unique_iff:
  "book_inv_unique b \<longleftrightarrow> (\<exists>L L' F. book_rep d b L L' F \<and> no_empty L \<and> no_empty L' \<and> complete d b L L')"
proof (cases d)
  case False
  then show ?thesis using book_rep_sym [of False b] complete_sym [of False b] unfolding book_inv_unique_def by auto
qed (simp add: book_inv_unique_def)

lemma book_inv_unique_inv: "book_inv_unique b \<Longrightarrow> book_inv b"
  by (auto simp: book_inv_def book_inv_unique_def)

lemma ref_ids_sides: "set (ref_ids rb) = set (side_ids (ref_side d rb)) \<union> set (side_ids (ref_side (\<not> d) rb))"
  by (cases d) (auto simp: ref_ids_def ref_side_def)

lemma side_ids_rep:
  assumes "book_rep d b L L' F"
  shows "side_ids (ref_side d (abs_book b)) = map (sl_ids (ob_slots b)) (concat L)"
    and "side_ids (ref_side (\<not> d) (abs_book b)) = map (sl_ids (ob_slots b)) (concat L')"
proof -
  have rep': "book_rep (\<not> d) b L' L F" using assms book_rep_sym by blast
  show "side_ids (ref_side d (abs_book b)) = map (sl_ids (ob_slots b)) (concat L)"
    using abs_book_rep(1) [OF assms] rep_no_level(2) [OF assms] by (simp add: abs_levels_ids)
  show "side_ids (ref_side (\<not> d) (abs_book b)) = map (sl_ids (ob_slots b)) (concat L')"
    using abs_book_rep(1) [OF rep'] rep_no_level(2) [OF rep'] by (simp add: abs_levels_ids)
qed

lemma ref_ids_rep:
  assumes "book_rep d b L L' F"
  shows "set (ref_ids (abs_book b)) = sl_ids (ob_slots b) ` set (concat L @ concat L')"
proof -
  have "set (ref_ids (abs_book b)) = set (map (sl_ids (ob_slots b)) (concat L)) \<union> set (map (sl_ids (ob_slots b)) (concat L'))"
    using side_ids_rep [OF assms] by (simp only: ref_ids_sides [of _ d])
  then show ?thesis by (simp add: image_Un)
qed

subsection \<open>Matching\<close>

lemma try_match_refines:
  assumes rep: "book_rep (\<not> is_buy od) b L L' F" "no_empty L"
    and sw: "sweep od (o_qty_remaining od) (ref_side (\<not> is_buy od) (abs_book b)) = (n', w, s, fs)"
  obtains b' M F' where
    "try_match od b = Some (w, od\<lparr>o_qty_remaining := n'\<rparr>, b', emitted b od (o_qty_remaining od) fs)"
    "matched (\<not> is_buy od) b L L' (length fs) b' M F'" "no_empty M"
    "abs_book b' = ref_set_side (\<not> is_buy od) s (abs_book b)"
  using try_match_loop_refines [OF sw rep refl, of "[]"] that by (auto simp: try_match_def)

subsection \<open>Adding an order\<close>

text \<open>\<open>counted b acc w k b'\<close>: counters and configuration after \<open>add_order\<close> with \<open>k\<close> fills; \<open>w\<close> tells that the
  remainder was dropped at a self-trade wall.\<close>

definition counted :: "OrderBook \<Rightarrow> bool \<Rightarrow> bool \<Rightarrow> nat \<Rightarrow> OrderBook \<Rightarrow> bool" where
  "counted b acc w k b' = (
     ob_match_cb b' = ob_match_cb b \<and> ob_symbol b' = ob_symbol b \<and>
     ob_stat_orders b' = ob_stat_orders b + 1 \<and>
     ob_stat_matches b' = ob_stat_matches b + of_nat k \<and>
     ob_stat_cancelled b' = ob_stat_cancelled b \<and>
     ob_stat_rejected b' = ob_stat_rejected b + of_bool (\<not> acc) \<and>
     ob_stat_self_trade_prevented b' = ob_stat_self_trade_prevented b + of_bool w)"

definition add_ok :: "Order \<Rightarrow> OrderBook \<Rightarrow> bool \<Rightarrow> RefBook \<Rightarrow> Fill list \<Rightarrow> OrderBook \<Rightarrow> bool" where
  "add_ok od b acc rb' fs b' = (book_inv b' \<and> abs_book b' = rb' \<and>
     counted b acc (walled od (abs_book b)) (length fs) b' \<and>
     (book_inv_unique b \<and> o_id od \<notin> set (ref_ids (abs_book b)) \<longrightarrow> book_inv_unique b'))"

lemma at_capacity_rem [simp]: "at_capacity (od\<lparr>o_qty_remaining := n\<rparr>) ml mo rb = at_capacity od ml mo rb"
  by (simp add: at_capacity_def is_buy_def)

lemma is_buy_rem [simp]: "is_buy (od\<lparr>o_qty_remaining := n\<rparr>) = is_buy od"
  by (simp add: is_buy_def)

definition add_rep :: "Order \<Rightarrow> OrderBook \<Rightarrow> nat list list \<Rightarrow> nat list list \<Rightarrow> bool \<Rightarrow> RefBook \<Rightarrow> Fill list \<Rightarrow>
    OrderBook \<Rightarrow> bool" where
  "add_rep od b L L' acc rb' fs b' = (\<exists>M M' F'. book_rep (is_buy od) b' M M' F' \<and> no_empty M \<and> no_empty M' \<and>
     abs_book b' = rb' \<and> counted b acc (walled od (abs_book b)) (length fs) b' \<and>
     (complete (is_buy od) b L L' \<and> o_id od \<notin> set (ref_ids (abs_book b)) \<longrightarrow> complete (is_buy od) b' M M'))"

lemma add_repI:
  assumes "book_rep (is_buy od) b' M M' F'" "no_empty M" "no_empty M'" "abs_book b' = rb'"
    "counted b acc w (length fs) b'" "w = walled od (abs_book b)"
    "complete (is_buy od) b L L' \<Longrightarrow> o_id od \<notin> set (ref_ids (abs_book b)) \<Longrightarrow> complete (is_buy od) b' M M'"
  shows "add_rep od b L L' acc rb' fs b'"
  using assms unfolding add_rep_def by blast

lemma add_killed:
  assumes rep: "book_rep (is_buy od) b L L' F" "no_empty L" "no_empty L'"
    and fok: "o_type od = FOK" "liquidity od (ref_side (\<not> is_buy od) (abs_book b)) < unat (o_qty_remaining od)"
  shows "\<exists>b'. add_order od b = Some (False, b', []) \<and> add_rep od b L L' False (abs_book b) [] b'"
proof -
  let ?b0 = "b\<lparr>ob_stat_orders := ob_stat_orders b + 1\<rparr>"
  have "book_rep (\<not> is_buy od) ?b0 L' L F" using rep(1) book_rep_sym by simp
  from available_liquidity_refines [OF this] fok(2)
  obtain q where "available_liquidity od ?b0 = Some q" "q < o_qty_remaining od" by auto
  then have "add_order od b = Some (False, ?b0\<lparr>ob_stat_rejected := ob_stat_rejected b + 1\<rparr>, [])"
    using fok(1) by (simp add: add_order_def)
  moreover have "counted b False (walled od (abs_book b)) 0 (?b0\<lparr>ob_stat_rejected := ob_stat_rejected b + 1\<rparr>)"
    using fok(1) by (simp add: counted_def walled_def never_rests_def)
  ultimately show ?thesis using rep unfolding add_rep_def by fastforce
qed

text \<open>The common part of all other cases: the book after matching.\<close>

lemma add_matched:
  assumes rep: "book_rep (is_buy od) b L L' F" "no_empty L'"
    and sw: "sweep od (o_qty_remaining od) (ref_side (\<not> is_buy od) (abs_book b)) = (n', w, s, fs)"
  obtains b1 M' F' where
    "try_match od (b\<lparr>ob_stat_orders := ob_stat_orders b + 1\<rparr>) =
       Some (w, od\<lparr>o_qty_remaining := n'\<rparr>, b1, emitted b od (o_qty_remaining od) fs)"
    "book_rep (is_buy od) b1 L M' F'" "no_empty M'" "abs_book b1 = ref_set_side (\<not> is_buy od) s (abs_book b)"
    "complete (is_buy od) b L L' \<Longrightarrow> complete (is_buy od) b1 L M'"
    "counted b True False (length fs) b1" "set (ref_ids (abs_book b1)) \<subseteq> set (ref_ids (abs_book b))"
proof -
  let ?b0 = "b\<lparr>ob_stat_orders := ob_stat_orders b + 1\<rparr>" and ?p = "\<not> is_buy od"
  have "book_rep ?p ?b0 L' L F" using rep(1) book_rep_sym by simp
  then obtain b1 M' F' where b1:
    "try_match od ?b0 = Some (w, od\<lparr>o_qty_remaining := n'\<rparr>, b1, emitted ?b0 od (o_qty_remaining od) fs)"
    "matched ?p ?b0 L' L (length fs) b1 M' F'" "no_empty M'" "abs_book b1 = ref_set_side ?p s (abs_book b)"
    by (rule try_match_refines [OF _ rep(2)]) (use sw in simp_all)
  have "emitted ?b0 od (o_qty_remaining od) fs = emitted b od (o_qty_remaining od) fs"
    by (simp add: emitted_def)
  moreover have "book_rep (is_buy od) b1 L M' F'"
    using b1(2) book_rep_sym by (auto simp: matched_def)
  moreover have "complete (is_buy od) b L L' \<Longrightarrow> complete (is_buy od) b1 L M'"
    using b1(2) complete_sym by (auto simp: matched_def)
  moreover have "counted b True False (length fs) b1"
    using b1(2) by (auto simp: matched_def counted_def same_conf_def)
  moreover have "set (ref_ids (abs_book b1)) \<subseteq> set (ref_ids (abs_book b))"
    using sweep_ids [OF sw] unfolding b1(4) by (auto simp: ref_ids_sides [of _ ?p])
  ultimately show thesis using that b1(1,3,4) by simp
qed

lemma counted_extra:
  "counted b True False k b1 \<Longrightarrow>
     counted b True True k (b1\<lparr>ob_stat_self_trade_prevented := ob_stat_self_trade_prevented b1 + 1\<rparr>)"
  "counted b True False k b1 \<Longrightarrow> same_conf (b1\<lparr>ob_stat_rejected := ob_stat_rejected b1 + of_bool c\<rparr>) b2 \<Longrightarrow>
     ob_stat_matches b2 = ob_stat_matches b1 \<Longrightarrow> counted b (\<not> c) False k b2"
  by (auto simp: counted_def same_conf_def)

lemma add_not_killed:
  assumes rep: "book_rep (is_buy od) b L L' F" "no_empty L" "no_empty L'"
    and live: "\<not> (o_type od = FOK \<and> liquidity od (ref_side (\<not> is_buy od) (abs_book b)) < unat (o_qty_remaining od))"
    and ref: "ref_add kMaxLevels kMaxOrders od (abs_book b) = (acc, rb', fs)"
  shows "\<exists>b'. add_order od b = Some (acc, b', emitted b od (o_qty_remaining od) fs) \<and> add_rep od b L L' acc rb' fs b'"
proof -
  let ?b0 = "b\<lparr>ob_stat_orders := ob_stat_orders b + 1\<rparr>" and ?p = "\<not> is_buy od"
  obtain n' w s gs where sw: "sweep od (o_qty_remaining od) (ref_side ?p (abs_book b)) = (n', w, s, gs)"
    by (metis prod_cases4)
  obtain b1 M' F' where b1: "try_match od ?b0 =
       Some (w, od\<lparr>o_qty_remaining := n'\<rparr>, b1, emitted b od (o_qty_remaining od) gs)"
    "book_rep (is_buy od) b1 L M' F'" "no_empty M'" "abs_book b1 = ref_set_side ?p s (abs_book b)"
    and comp: "complete (is_buy od) b L L' \<Longrightarrow> complete (is_buy od) b1 L M'"
    and cnt: "counted b True False (length gs) b1" and ids: "set (ref_ids (abs_book b1)) \<subseteq> set (ref_ids (abs_book b))"
    using rep(1,3) sw by (rule add_matched) blast
  have fs: "fs = gs" using ref live sw by (auto simp: ref_add_def Let_def split: if_splits)
  have wd: "walled od (abs_book b) \<longleftrightarrow> \<not> never_rests od \<and> w \<and> n' \<noteq> 0" using sw by (simp add: walled_def)
  have killed: "(if o_type od = FOK then map_option (\<lambda>q. q < o_qty_remaining od) (available_liquidity od ?b0)
      else Some False) = Some False"
  proof -
    have "book_rep ?p ?b0 L' L F" using rep(1) book_rep_sym by simp
    from available_liquidity_refines [OF this] live show ?thesis by auto
  qed
  consider (stop) "n' = 0 \<or> never_rests od" | (wall) "n' \<noteq> 0" "\<not> never_rests od" w
    | (rest) "n' \<noteq> 0" "\<not> never_rests od" "\<not> w" by blast
  then show ?thesis
  proof cases
    case stop
    have add: "add_order od b = Some (True, b1, emitted b od (o_qty_remaining od) gs)"
      using stop killed b1(1) by (auto simp: add_order_def Let_def never_rests_def is_filled_def split: if_splits)
    have "acc = True" "rb' = abs_book b1"
      using ref live sw stop b1(4) by (auto simp: ref_add_def Let_def split: if_splits)
    moreover have "add_rep od b L L' True (abs_book b1) gs b1"
      using b1(2) rep(2) b1(3) refl cnt by (rule add_repI) (use comp stop wd in auto)
    ultimately show ?thesis using add fs by blast
  next
    case wall
    let ?b' = "b1\<lparr>ob_stat_self_trade_prevented := ob_stat_self_trade_prevented b1 + 1\<rparr>"
    have add: "add_order od b = Some (True, ?b', emitted b od (o_qty_remaining od) gs)"
      using wall b1(1) by (auto simp: add_order_def Let_def never_rests_def is_filled_def split: if_splits)
    have "acc = True" "rb' = abs_book b1"
      using ref live sw wall b1(4) by (auto simp: ref_add_def Let_def split: if_splits)
    moreover have "add_rep od b L L' True (abs_book b1) gs ?b'"
      by (rule add_repI [OF _ rep(2) b1(3) _ counted_extra(1) [OF cnt], where F' = F'])
        (use b1(2) comp wall wd in auto)
    ultimately show ?thesis using add fs by blast
  next
    case rest
    let ?o1 = "od\<lparr>o_qty_remaining := n'\<rparr>"
    define cap where "cap = at_capacity od kMaxLevels kMaxOrders (abs_book b1)"
    have pos: "o_qty_remaining ?o1 > 0" using rest(1) by (simp add: word_neq_0_conv)
    obtain b' M F'' where b': "rest_order ?o1 b1 = Some (\<not> cap, b')" "rested ?o1 b1 L M' cap b' M F''"
      using rest_order_refines [of ?o1 b1 L M' F'] b1(2) rep(2) pos by (auto simp: cap_def)
    have add: "add_order od b = Some (\<not> cap, b', emitted b od (o_qty_remaining od) gs)"
      using rest b1(1) b'(1) by (auto simp: add_order_def Let_def never_rests_def is_filled_def split: if_splits)
    have "acc = (\<not> cap)" "rb' = abs_book b'"
      using ref live sw rest b1(4) b'(2) by (auto simp: ref_add_def Let_def cap_def rested_def split: if_splits)
    moreover have "add_rep od b L L' (\<not> cap) (abs_book b') gs b'"
    proof -
      have fresh: "o_id od \<notin> sl_ids (ob_slots b1) ` set (concat L @ concat M')"
        if "o_id od \<notin> set (ref_ids (abs_book b))"
        using that ids ref_ids_rep [OF b1(2)] by blast
      have "counted b (\<not> cap) False (length gs) b'"
        using b'(2) counted_extra(2) [OF cnt, of cap b'] by (simp add: rested_def Let_def)
      then show ?thesis
        by (rule add_repI [where M = M and M' = M' and F' = F'' and w = False, rotated 4])
          (use b'(2) b1(3) comp rest wd fresh in \<open>auto simp: rested_def Let_def\<close>)
    qed
    ultimately show ?thesis using add fs by blast
  qed
qed

lemma add_order_rep:
  assumes rep: "book_rep (is_buy od) b L L' F" "no_empty L" "no_empty L'"
    and ref: "ref_add kMaxLevels kMaxOrders od (abs_book b) = (acc, rb', fs)"
  shows "\<exists>b'. add_order od b = Some (acc, b', emitted b od (o_qty_remaining od) fs) \<and> add_rep od b L L' acc rb' fs b'"
proof (cases "o_type od = FOK \<and> liquidity od (ref_side (\<not> is_buy od) (abs_book b)) < unat (o_qty_remaining od)")
  case True
  with ref have "acc = False" "rb' = abs_book b" "fs = []" by (auto simp: ref_add_def Let_def)
  with add_killed [OF rep] True show ?thesis by (auto simp: emitted_def)
next
  case False
  then show ?thesis using rep ref by (intro add_not_killed)
qed

lemma add_order_refines_aux:
  assumes inv: "book_inv b" and ref: "ref_add kMaxLevels kMaxOrders od (abs_book b) = (acc, rb', fs)"
  shows "\<exists>b'. add_order od b = Some (acc, b', emitted b od (o_qty_remaining od) fs) \<and> add_ok od b acc rb' fs b'"
proof (cases "book_inv_unique b")
  case True
  then obtain L L' F where rep: "book_rep (is_buy od) b L L' F" "no_empty L" "no_empty L'" "complete (is_buy od) b L L'"
    using book_inv_unique_iff by blast
  from add_order_rep [OF rep(1-3) ref] rep(4) show ?thesis
    unfolding add_rep_def add_ok_def book_inv_iff [of _ "is_buy od"] book_inv_unique_iff [of _ "is_buy od"] by blast
next
  case False
  obtain L L' F where rep: "book_rep (is_buy od) b L L' F" "no_empty L" "no_empty L'"
    using inv book_inv_iff by blast
  from add_order_rep [OF rep ref] False show ?thesis
    unfolding add_rep_def add_ok_def book_inv_iff [of _ "is_buy od"] by blast
qed

end
