(* ===== verification/Book_Cancel.thy ===== *)
theory Book_Cancel
  imports Book_Add
begin

text \<open>
  \<^verbatim>\<open>OrderBook::cancel_order\<close> and \<^verbatim>\<open>modify_order\<close> against \<open>ref_cancel\<close> and \<open>ref_modify\<close>.  Both find the
  slot through the index and the level through the slot's price, and then edit one queue in place:
  unlink, unlink and re-append, or change a quantity.
\<close>

subsection \<open>Queue surgery\<close>

text \<open>A slot is taken out of the middle of a queue; \<open>m\<close> is what its quantity has been set to before.\<close>

definition unlinked :: "bool \<Rightarrow> nat \<Rightarrow> nat \<Rightarrow> Qty \<Rightarrow> OrderIndex \<Rightarrow> OrderBook \<Rightarrow> OrderBook" where
  "unlinked d i s m t b = (let sl = ob_slots b; sd = book_side d b;
       nx = sl_nexts sl; pv = sl_prevs sl
     in set_side d (sd\<lparr>bs_qtys := (bs_qtys sd)(i := bs_qtys sd i - sl_qtys sl s),
          bs_order_counts := (bs_order_counts sd)(i := bs_order_counts sd i - 1),
          bs_head_idxs := (if pv s \<noteq> NULL_IDX then bs_head_idxs sd else (bs_head_idxs sd)(i := nx s)),
          bs_tail_idxs := (if nx s \<noteq> NULL_IDX then bs_tail_idxs sd else (bs_tail_idxs sd)(i := pv s))\<rparr>)
        (b\<lparr>ob_slots := free_slot s (sl\<lparr>sl_qtys := (sl_qtys sl)(s := m),
             sl_nexts := unlink_nx nx pv s, sl_prevs := unlink_pv nx pv s\<rparr>), ob_index := t\<rparr>))"

definition drop_if_empty :: "bool \<Rightarrow> nat \<Rightarrow> OrderBook \<Rightarrow> OrderBook" where
  "drop_if_empty d i b = (if bs_order_counts (book_side d b) i = 0
     then set_side d (remove_level i (book_side d b)) b else b)"

definition take_out :: "bool \<Rightarrow> nat \<Rightarrow> nat \<Rightarrow> OrderBook \<Rightarrow> OrderBook" where
  "take_out d i s b = (let sd = book_side d b;
       b1 = unlink_slot d i s (set_side d
         (sd\<lparr>bs_qtys := (bs_qtys sd)(i := bs_qtys sd i - sl_qtys (ob_slots b) s),
             bs_order_counts := (bs_order_counts sd)(i := bs_order_counts sd i - 1)\<rparr>) b)
     in b1\<lparr>ob_slots := free_slot s (ob_slots b1)\<rparr>)"

lemma remove_order_take_out:
  "remove_order_from_level (side_code d) i s b = drop_if_empty d i (take_out d i s b)"
  by (simp add: remove_order_from_level_def drop_if_empty_def take_out_def Let_def side_code_def)

lemma drop_if_empty_index:
  "(drop_if_empty d i b)\<lparr>ob_index := t\<rparr> = drop_if_empty d i (b\<lparr>ob_index := t\<rparr>)"
  "ob_index (drop_if_empty d i b) = ob_index b"
  by (simp_all add: drop_if_empty_def set_side_def)

lemma take_out_unlinked:
  "(take_out d i s (set_order_qty d i s (bs_qtys (book_side d b) i - sl_qtys (ob_slots b) s + m) m b))\<lparr>ob_index := t\<rparr>
     = unlinked d i s m t b"
  by (cases d; cases "sl_prevs (ob_slots b) s = NULL_IDX"; cases "sl_nexts (ob_slots b) s = NULL_IDX")
    (simp_all add: take_out_def unlink_slot_def set_order_qty_def unlinked_def
      Let_def unlink_nx_def unlink_pv_def set_side_def book_side_def free_slot_def)

lemma take_out_index: "ob_index (take_out d i s b) = ob_index b"
  by (simp add: take_out_def unlink_slot_def Let_def)

lemma set_order_qty_index [simp]: "ob_index (set_order_qty d i s l m b) = ob_index b"
  by (simp add: set_order_qty_def Let_def)

lemma remove_order_index [simp]: "ob_index (remove_order_from_level (side_code d) i s b) = ob_index b"
  by (simp only: remove_order_take_out drop_if_empty_index take_out_index)

lemma remove_order_unlinked:
  "(remove_order_from_level (side_code d) i s
      (set_order_qty d i s (bs_qtys (book_side d b) i - sl_qtys (ob_slots b) s + m) m b))\<lparr>ob_index := t\<rparr>
    = drop_if_empty d i (unlinked d i s m t b)"
  by (simp only: remove_order_take_out drop_if_empty_index take_out_unlinked)

lemma unlinked_frame:
  "same_conf b (unlinked d i s m t b)" "ob_stat_matches (unlinked d i s m t b) = ob_stat_matches b"
  "ob_index (unlinked d i s m t b) = t" "sl_ids (ob_slots (unlinked d i s m t b)) = sl_ids (ob_slots b)"
  by (simp_all add: unlinked_def same_conf_def Let_def)

lemma unlinked_level:
  assumes lev: "level_rep (ob_slots b) (level_at (book_side d b) i) (ys @ s # zs)"
    and dist: "distinct (ys @ s # zs)"
  shows "level_rep (ob_slots (unlinked d i s m t b)) (level_at (book_side d (unlinked d i s m t b)) i) (ys @ zs)"
proof -
  have "dlist (sl_nexts (ob_slots b)) (sl_prevs (ob_slots b)) (bs_head_idxs (book_side d b) i) (ys @ s # zs)
      (bs_tail_idxs (book_side d b) i)" using lev by (simp add: level_rep_def)
  note dlist_unlink [OF this dist]
  then show ?thesis using lev dist by (auto simp: level_rep_def unlinked_def Let_def)
qed

lemma unlinked_edits:
  assumes lev: "level_rep (ob_slots b) (level_at (book_side d b) i) (ys @ s # zs)" and "set (ys @ s # zs) \<subseteq> X"
  shows "edits d i X b (unlinked d i s m t b)"
proof -
  have "dlist (sl_nexts (ob_slots b)) (sl_prevs (ob_slots b)) (bs_head_idxs (book_side d b) i) (ys @ s # zs)
      (bs_tail_idxs (book_side d b) i)" using lev by (simp add: level_rep_def)
  note nb = dlist_neighbours [OF this]
  have "s \<in> X" "sl_nexts (ob_slots b) s = NULL_IDX \<or> sl_nexts (ob_slots b) s \<in> X"
    "sl_prevs (ob_slots b) s = NULL_IDX \<or> sl_prevs (ob_slots b) s \<in> X"
    using nb assms(2) by auto
  then show ?thesis
    by (auto simp: edits_def same_slot_def unlinked_def Let_def level_at_def unlink_nx_def unlink_pv_def)
qed

lemma unlinked_refines:
  assumes rep: "book_rep d b (L1 @ (ys @ s # zs) # L2) L' F"
    and abs: "ref_side d (abs_book b) = S1 @ (px, q) # S2" "length S1 = length L1"
  obtains r t where "index_remove (ob_index b) (sl_ids (ob_slots b) s) = Some (r, t)"
    "book_rep d (unlinked d (length L1) s m t b) (L1 @ (ys @ zs) # L2) L' (s # F)"
    "abs_book (unlinked d (length L1) s m t b) =
       ref_set_side d (S1 @ (px, map (abs_order (ob_slots b)) (ys @ zs)) # S2) (abs_book b)"
    "complete d b (L1 @ (ys @ s # zs) # L2) L' \<Longrightarrow>
       complete d (unlinked d (length L1) s m t b) (L1 @ (ys @ zs) # L2) L'"
proof -
  let ?i = "length L1"
  define sl' where "sl' = ob_slots (unlinked d ?i s m (ob_index b) b)"
  have slots: "ob_slots (unlinked d ?i s m t b) = sl'" for t by (simp add: sl'_def unlinked_def Let_def)
  have ids: "sl_ids sl' = sl_ids (ob_slots b)" by (simp add: sl'_def unlinked_frame)
  obtain r t where t: "index_remove (ob_index b) (sl_ids (ob_slots b) s) = Some (r, t)"
    "oidx.pairs_ok (entry_ok d sl' (L1 @ (ys @ zs) # L2) L') t"
    "index_map t = (index_map (ob_index b))(sl_ids (ob_slots b) s := None)"
    using rep ids by (rule remove_pairs)
  let ?b = "unlinked d ?i s m t b"
  note lev = rep_level_at(1) [OF rep]
  have dist: "distinct (ys @ s # zs)" "distinct ((ys @ zs) @ s # F)" "s < kMaxOrders" "s \<notin> set F"
    using rep live_slot [OF rep, of s] by (auto simp: book_rep_def)
  have ed: "edits d ?i (set ((ys @ s # zs) @ F)) b ?b" using lev by (rule unlinked_edits) auto
  have "pool_free (ob_slots b) F" using rep by (simp add: book_rep_def)
  then have "pool_free ((ob_slots b)\<lparr>sl_qtys := x, sl_nexts := y, sl_prevs := z\<rparr>) F" for x y z
    by (simp add: pool_free_def)
  then have pool: "pool_free (ob_slots ?b) (s # F)"
    using dist(3,4) by (auto simp: unlinked_def Let_def intro: free_slot_pool)
  have rep': "book_rep d ?b (L1 @ (ys @ zs) # L2) L' (s # F)"
    using unlinked_level [OF lev dist(1), of m t] t(2) dist(2)
    by (intro edit_book_rep [OF rep ed _ pool]) (auto simp: slots unlinked_frame)
  moreover have mp: "map (abs_order (ob_slots ?b)) (ys @ zs) = map (abs_order (ob_slots b)) (ys @ zs)"
    using dist(1) by (auto simp: abs_order_def unlinked_def Let_def)
  have "abs_book ?b = ref_set_side d (S1 @ (px, map (abs_order (ob_slots b)) (ys @ zs)) # S2) (abs_book b)"
    using edit_abs [OF rep ed rep' abs] unfolding mp .
  moreover have "complete d ?b (L1 @ (ys @ zs) # L2) L'" if "complete d b (L1 @ (ys @ s # zs) # L2) L'"
    using rep that by (rule complete_remove) (simp_all add: unlinked_frame t(3))
  ultimately show thesis using that t(1) by blast
qed

lemma drop_if_empty_refines:
  assumes rep: "book_rep d b (L1 @ xs # L2) L' F"
    and abs: "ref_side d (abs_book b) = S1 @ (px, q) # S2" "length S1 = length L1"
  shows "book_rep d (drop_if_empty d (length L1) b) (L1 @ (if xs = [] then L2 else xs # L2)) L' F"
    and "abs_book (drop_if_empty d (length L1) b) = ref_set_side d (S1 @ (if xs = [] then S2 else (px, q) # S2)) (abs_book b)"
    and "complete d (drop_if_empty d (length L1) b) (L1 @ (if xs = [] then L2 else xs # L2)) L'
      = complete d b (L1 @ xs # L2) L'"
proof -
  have "bs_order_counts (book_side d b) (length L1) = 0 \<longleftrightarrow> xs = []"
    using level_count_unat(2) [OF rep _ rep_level_at(1) [OF rep]] by simp
  then show "book_rep d (drop_if_empty d (length L1) b) (L1 @ (if xs = [] then L2 else xs # L2)) L' F"
    "abs_book (drop_if_empty d (length L1) b) = ref_set_side d (S1 @ (if xs = [] then S2 else (px, q) # S2)) (abs_book b)"
    "complete d (drop_if_empty d (length L1) b) (L1 @ (if xs = [] then L2 else xs # L2)) L'
      = complete d b (L1 @ xs # L2) L'"
    using rep abs drop_level_rep [of d b L1 L2 L' F] drop_level_abs [of d b L1 L2 L' F _ S1 px q S2]
    by (auto simp: drop_if_empty_def ref_set_side_same complete_def)
qed

subsection \<open>Requeueing\<close>

text \<open>Unlink and append at the tail of the same level, with a new quantity.\<close>

definition requeued :: "bool \<Rightarrow> nat \<Rightarrow> nat \<Rightarrow> Qty \<Rightarrow> OrderBook \<Rightarrow> OrderBook" where
  "requeued d i s n b = (let b1 = relink_tail d i s (unlink_slot d i s b)
     in set_order_qty d i s (bs_qtys (book_side d b1) i + (n - sl_qtys (ob_slots b) s)) n b1)"

lemma unlink_slot_parts:
  "ob_slots (unlink_slot d i s b) = (ob_slots b)\<lparr>
     sl_nexts := unlink_nx (sl_nexts (ob_slots b)) (sl_prevs (ob_slots b)) s,
     sl_prevs := unlink_pv (sl_nexts (ob_slots b)) (sl_prevs (ob_slots b)) s\<rparr>"
  "book_side d (unlink_slot d i s b) = (book_side d b)\<lparr>
     bs_head_idxs := (if sl_prevs (ob_slots b) s \<noteq> NULL_IDX then bs_head_idxs (book_side d b)
       else (bs_head_idxs (book_side d b))(i := sl_nexts (ob_slots b) s)),
     bs_tail_idxs := (if sl_nexts (ob_slots b) s \<noteq> NULL_IDX then bs_tail_idxs (book_side d b)
       else (bs_tail_idxs (book_side d b))(i := sl_prevs (ob_slots b) s))\<rparr>"
  "book_side (\<not> d) (unlink_slot d i s b) = book_side (\<not> d) b"
  "same_conf b (unlink_slot d i s b)" "ob_stat_matches (unlink_slot d i s b) = ob_stat_matches b"
  "ob_index (unlink_slot d i s b) = ob_index b"
  by (auto simp: unlink_slot_def Let_def unlink_nx_def unlink_pv_def same_conf_def)

lemma unlink_slot_dlist:
  assumes "level_rep (ob_slots b) (level_at (book_side d b) i) (ys @ s # zs)" "distinct (ys @ s # zs)"
  defines "b' \<equiv> unlink_slot d i s b"
  shows "dlist (sl_nexts (ob_slots b')) (sl_prevs (ob_slots b')) (bs_head_idxs (book_side d b') i) (ys @ zs)
      (bs_tail_idxs (book_side d b') i)"
proof -
  have "dlist (sl_nexts (ob_slots b)) (sl_prevs (ob_slots b)) (bs_head_idxs (book_side d b) i) (ys @ s # zs)
      (bs_tail_idxs (book_side d b) i)" using assms(1) by (simp add: level_rep_def)
  from dlist_unlink [OF this assms(2)] show ?thesis
    by (auto simp: b'_def unlink_slot_parts split: if_splits)
qed

lemma requeued_frame:
  "same_conf b (requeued d i s n b)" "ob_stat_matches (requeued d i s n b) = ob_stat_matches b"
  "ob_index (requeued d i s n b) = ob_index b" "sl_ids (ob_slots (requeued d i s n b)) = sl_ids (ob_slots b)"
  using unlink_slot_parts(4-6) [where b = b and d = d and i = i and s = s]
  by (auto simp: requeued_def relink_tail_def set_order_qty_def Let_def same_conf_def unlink_slot_parts(1))

lemma requeued_level:
  assumes lev: "level_rep (ob_slots b) (level_at (book_side d b) i) (ys @ s # zs)"
    and dist: "distinct (ys @ s # zs)" and n: "n > 0"
  shows "level_rep (ob_slots (requeued d i s n b)) (level_at (book_side d (requeued d i s n b)) i) (ys @ zs @ [s])"
proof -
  let ?b = "unlink_slot d i s b" and ?r = "requeued d i s n b"
  define nx where "nx = sl_nexts (ob_slots ?b)"
  define pv where "pv = sl_prevs (ob_slots ?b)"
  define h where "h = bs_head_idxs (book_side d ?b) i"
  define t where "t = bs_tail_idxs (book_side d ?b) i"
  have dl: "dlist nx pv h (ys @ zs) t"
    using unlink_slot_dlist [OF lev dist] by (simp only: nx_def pv_def h_def t_def)
  have s: "s \<noteq> NULL_IDX" "s \<notin> set (ys @ zs)" "distinct (ys @ zs)"
    using lev dist by (auto simp: level_rep_def dlist_def)
  have "dlist (sl_nexts (ob_slots ?r)) (sl_prevs (ob_slots ?r)) (bs_head_idxs (book_side d ?r) i)
      ((ys @ zs) @ [s]) (bs_tail_idxs (book_side d ?r) i)"
  proof (cases "ys @ zs = []")
    case True
    then have "h = NULL_IDX" using dl by simp
    then show ?thesis using True s dlist_singleton [OF s(1), of nx pv]
      by (simp add: requeued_def relink_tail_def set_order_qty_def Let_def h_def nx_def pv_def)
  next
    case False
    then have "h \<noteq> NULL_IDX" using dlist_head_null [OF dl] by simp
    then show ?thesis using dlist_append_new [OF dl s(2,1) False s(3)]
      by (simp add: requeued_def relink_tail_def set_order_qty_def Let_def h_def nx_def pv_def t_def)
  qed
  then show ?thesis using lev s(2) n
    by (auto simp: level_rep_def requeued_def relink_tail_def set_order_qty_def Let_def unlink_slot_parts)
qed

lemma requeued_edits:
  assumes lev: "level_rep (ob_slots b) (level_at (book_side d b) i) (ys @ s # zs)"
    and dist: "distinct (ys @ s # zs)" and X: "set (ys @ s # zs) \<subseteq> X"
  shows "edits d i X b (requeued d i s n b)"
proof -
  let ?b = "unlink_slot d i s b"
  have dl: "dlist (sl_nexts (ob_slots b)) (sl_prevs (ob_slots b)) (bs_head_idxs (book_side d b) i) (ys @ s # zs)
      (bs_tail_idxs (book_side d b) i)" using lev by (simp add: level_rep_def)
  have "bs_head_idxs (book_side d ?b) i = NULL_IDX \<or> bs_tail_idxs (book_side d ?b) i \<in> X"
    using dlist_tail_in [OF unlink_slot_dlist [OF lev dist]] X by auto
  moreover have "s \<in> X" "sl_nexts (ob_slots b) s = NULL_IDX \<or> sl_nexts (ob_slots b) s \<in> X"
    "sl_prevs (ob_slots b) s = NULL_IDX \<or> sl_prevs (ob_slots b) s \<in> X"
    using dlist_neighbours [OF dl] X by auto
  ultimately show ?thesis
    by (auto simp: edits_def same_slot_def requeued_def relink_tail_def set_order_qty_def Let_def level_at_def
        unlink_slot_parts unlink_nx_def unlink_pv_def)
qed

text \<open>An edit that keeps the slots of a queue: a new order, a new quantity.\<close>

lemma same_slots_refines:
  assumes rep: "book_rep d b (L1 @ xs # L2) L' F" and ed: "edits d (length L1) (set (xs @ F)) b b'"
    and lev: "level_rep (ob_slots b') (level_at (book_side d b') (length L1)) xs'"
    and xs': "set xs' = set xs" "distinct xs'"
    and frame: "pool_free (ob_slots b') F" "ob_index b' = ob_index b" "sl_ids (ob_slots b') = sl_ids (ob_slots b)"
    and abs: "ref_side d (abs_book b) = S1 @ (px, q) # S2" "length S1 = length L1"
  shows "book_rep d b' (L1 @ xs' # L2) L' F"
    and "abs_book b' = ref_set_side d (S1 @ (px, map (abs_order (ob_slots b')) xs') # S2) (abs_book b)"
    and "complete d b' (L1 @ xs' # L2) L' = complete d b (L1 @ xs # L2) L'"
proof -
  have "distinct (xs' @ F)" using rep xs' by (auto simp: book_rep_def)
  then show rep': "book_rep d b' (L1 @ xs' # L2) L' F"
    using edit_book_rep [OF rep ed lev frame(1)] same_pairs [OF rep frame(3) xs'(1)] xs'(1) frame(2) by simp
  show "abs_book b' = ref_set_side d (S1 @ (px, map (abs_order (ob_slots b')) xs') # S2) (abs_book b)"
    by (rule edit_abs [OF rep ed rep' abs])
  show "complete d b' (L1 @ xs' # L2) L' = complete d b (L1 @ xs # L2) L'"
    by (simp add: complete_def frame(2,3) xs'(1))
qed

lemma requeued_refines:
  assumes rep: "book_rep d b (L1 @ (ys @ s # zs) # L2) L' F" and n: "n > 0"
    and abs: "ref_side d (abs_book b) = S1 @ (px, q) # S2" "length S1 = length L1"
  defines "b' \<equiv> requeued d (length L1) s n b"
  shows "book_rep d b' (L1 @ (ys @ zs @ [s]) # L2) L' F"
    and "abs_book b' = ref_set_side d (S1 @ (px, map (abs_order (ob_slots b)) (ys @ zs)
           @ [(abs_order (ob_slots b) s)\<lparr>ro_rem := n\<rparr>]) # S2) (abs_book b)"
    and "complete d b' (L1 @ (ys @ zs @ [s]) # L2) L' = complete d b (L1 @ (ys @ s # zs) # L2) L'"
proof -
  note lev = rep_level_at(1) [OF rep]
  have dist: "distinct (ys @ s # zs)" using rep by (auto simp: book_rep_def)
  have ed: "edits d (length L1) (set ((ys @ s # zs) @ F)) b b'"
    unfolding b'_def using lev dist by (rule requeued_edits) auto
  have "pool_free (ob_slots b) F" using rep by (simp add: book_rep_def)
  then have pool: "pool_free (ob_slots b') F"
    by (simp add: b'_def requeued_def relink_tail_def set_order_qty_def Let_def unlink_slot_parts pool_free_def)
  have lev': "level_rep (ob_slots b') (level_at (book_side d b') (length L1)) (ys @ zs @ [s])"
    unfolding b'_def using lev dist n by (rule requeued_level)
  have xs: "set (ys @ zs @ [s]) = set (ys @ s # zs)" "distinct (ys @ zs @ [s])" using dist by auto
  have frame: "ob_index b' = ob_index b" "sl_ids (ob_slots b') = sl_ids (ob_slots b)"
    by (simp_all add: b'_def requeued_frame)
  note res = same_slots_refines [OF rep ed lev' xs pool frame abs]
  show "book_rep d b' (L1 @ (ys @ zs @ [s]) # L2) L' F"
    "complete d b' (L1 @ (ys @ zs @ [s]) # L2) L' = complete d b (L1 @ (ys @ s # zs) # L2) L'"
    by (rule res(1)) (rule res(3))
  have "map (abs_order (ob_slots b')) (ys @ zs @ [s])
      = map (abs_order (ob_slots b)) (ys @ zs) @ [(abs_order (ob_slots b) s)\<lparr>ro_rem := n\<rparr>]"
    using dist by (auto simp: abs_order_def b'_def requeued_def relink_tail_def set_order_qty_def Let_def
        unlink_slot_parts)
  then show "abs_book b' = ref_set_side d (S1 @ (px, map (abs_order (ob_slots b)) (ys @ zs)
           @ [(abs_order (ob_slots b) s)\<lparr>ro_rem := n\<rparr>]) # S2) (abs_book b)"
    using res(2) by (simp only:)
qed

lemma resized_refines:
  assumes rep: "book_rep d b (L1 @ (ys @ s # zs) # L2) L' F" and n: "n > 0"
    and abs: "ref_side d (abs_book b) = S1 @ (px, q) # S2" "length S1 = length L1"
  defines "b' \<equiv> set_order_qty d (length L1) s
    (bs_qtys (book_side d b) (length L1) - (sl_qtys (ob_slots b) s - n)) n b"
  shows "book_rep d b' (L1 @ (ys @ s # zs) # L2) L' F"
    and "abs_book b' = ref_set_side d (S1 @ (px, map (abs_order (ob_slots b)) ys
           @ (abs_order (ob_slots b) s)\<lparr>ro_rem := n\<rparr> # map (abs_order (ob_slots b)) zs) # S2) (abs_book b)"
    and "complete d b' (L1 @ (ys @ s # zs) # L2) L' = complete d b (L1 @ (ys @ s # zs) # L2) L'"
proof -
  note lev = rep_level_at(1) [OF rep]
  have dist: "distinct (ys @ s # zs)" using rep by (auto simp: book_rep_def)
  have ed: "edits d (length L1) (set ((ys @ s # zs) @ F)) b b'"
    by (auto simp: b'_def edits_def same_slot_def set_order_qty_def Let_def level_at_def)
  have "pool_free (ob_slots b) F" using rep by (simp add: book_rep_def)
  then have pool: "pool_free (ob_slots b') F" by (simp add: b'_def set_order_qty_def Let_def pool_free_def)
  have lev': "level_rep (ob_slots b') (level_at (book_side d b') (length L1)) (ys @ s # zs)"
    using lev dist n by (auto simp: level_rep_def b'_def set_order_qty_def Let_def)
  have frame: "ob_index b' = ob_index b" "sl_ids (ob_slots b') = sl_ids (ob_slots b)"
    by (simp_all add: b'_def set_order_qty_def Let_def)
  note res = same_slots_refines [OF rep ed lev' refl dist pool frame abs]
  show "book_rep d b' (L1 @ (ys @ s # zs) # L2) L' F"
    "complete d b' (L1 @ (ys @ s # zs) # L2) L' = complete d b (L1 @ (ys @ s # zs) # L2) L'"
    by (rule res(1)) (rule res(3))
  have "map (abs_order (ob_slots b')) (ys @ s # zs) = map (abs_order (ob_slots b)) ys
      @ (abs_order (ob_slots b) s)\<lparr>ro_rem := n\<rparr> # map (abs_order (ob_slots b)) zs"
    using dist by (auto simp: abs_order_def b'_def set_order_qty_def Let_def)
  then show "abs_book b' = ref_set_side d (S1 @ (px, map (abs_order (ob_slots b)) ys
           @ (abs_order (ob_slots b) s)\<lparr>ro_rem := n\<rparr> # map (abs_order (ob_slots b)) zs) # S2) (abs_book b)"
    using res(2) by (simp only:)
qed

subsection \<open>Finding an order\<close>

lemma locate:
  assumes rep: "book_rep d b L L' F" and idx: "index_map (ob_index b) oid = Some (s, side_code d)"
  obtains L1 ys zs L2 S1 px S2 where "L = L1 @ (ys @ s # zs) # L2" "sl_ids (ob_slots b) s = oid"
    "ref_side d (abs_book b) = S1 @ (px, map (abs_order (ob_slots b)) (ys @ s # zs)) # S2"
    "length S1 = length L1"
    "find_level (book_side d b) (sl_prices (ob_slots b) s) = int (length L1)"
proof -
  have "entry_ok d (ob_slots b) L L' oid (s, side_code d)"
    using rep idx oidx.pairs_okD unfolding book_rep_def by blast
  then have s: "sl_ids (ob_slots b) s = oid" "s \<in> set (concat L)"
    by (auto simp: entry_ok_def side_code_def split: if_splits)
  then obtain xs where "xs \<in> set L" "s \<in> set xs" by auto
  then obtain L1 L2 ys zs where L: "L = L1 @ (ys @ s # zs) # L2" by (metis split_list)
  note rep1 = rep [unfolded L]
  have "length L1 < length (ref_side d (abs_book b))" using rep_no_level(1) [OF rep] L by simp
  then obtain S1 px q S2 where abs: "ref_side d (abs_book b) = S1 @ (px, q) # S2" "length S1 = length L1"
    by (metis id_take_nth_drop length_take min.absorb4 surj_pair)
  have q: "q = map (abs_order (ob_slots b)) (ys @ s # zs)" using rep1 abs by (rule rep_queue_at)
  from rep1 obtain A B where AB: "levels (book_side d b) = A @ level_at (book_side d b) (length L1) # B"
    "length A = length L1" "level_rep (ob_slots b) (level_at (book_side d b) (length L1)) (ys @ s # zs)"
    by (rule rep_split)
  have "best_first d (levels (book_side d b))" using rep by (simp add: book_rep_def side_rep_def)
  moreover have "sl_prices (ob_slots b) s = lv_price (level_at (book_side d b) (length L1))"
    using AB(3) by (simp add: level_rep_def)
  ultimately have "find_level (book_side d b) (sl_prices (ob_slots b) s) = int (length L1)"
    using find_level_unique [OF _ AB(1)] AB(2) by simp
  then show thesis using that L s(1) abs q by blast
qed

text \<open>The side stored in the index is one of the two.\<close>

lemma index_side:
  assumes "book_inv b" "index_map (ob_index b) oid = Some (s, c)"
  obtains d where "c = side_code d"
proof -
  obtain L L' F where "book_rep True b L L' F" using assms(1) by (auto simp: book_inv_def)
  then have "entry_ok True (ob_slots b) L L' oid (s, c)"
    using assms(2) oidx.pairs_okD unfolding book_rep_def by blast
  then show thesis using that by (auto simp: entry_ok_def)
qed

lemma complete_distinct:
  assumes rep: "book_rep d b L L' F" and comp: "complete d b L L'"
  shows "distinct (ref_ids (abs_book b))"
proof -
  let ?ids = "map (sl_ids (ob_slots b)) (concat L @ concat L')"
  have found: "\<exists>c. index_map (ob_index b) (sl_ids (ob_slots b) x) = Some (x, c)" if "x \<in> set (concat L @ concat L')" for x
    using comp that unfolding complete_def by fastforce
  have "inj_on (sl_ids (ob_slots b)) (set (concat L @ concat L'))"
  proof (rule inj_onI)
    fix x y assume xy: "x \<in> set (concat L @ concat L')" "y \<in> set (concat L @ concat L')"
      and eq: "sl_ids (ob_slots b) x = sl_ids (ob_slots b) y"
    show "x = y" using found [OF xy(1)] found [OF xy(2)] unfolding eq by auto
  qed
  moreover have "distinct (concat L @ concat L')" using rep unfolding book_rep_def distinct_append by auto
  ultimately have dist: "distinct ?ids" by (simp only: distinct_map)
  have "distinct (side_ids (ref_side d (abs_book b)) @ side_ids (ref_side (\<not> d) (abs_book b)))"
    using side_ids_rep [OF rep] dist by (simp only: map_append)
  then show ?thesis by (cases d) (auto simp: ref_ids_def ref_side_def)
qed

lemma ref_update_at:
  assumes dist: "distinct (ref_ids rb)" and abs: "ref_side d rb = S1 @ (px, q1 @ r # q2) # S2" and r: "ro_id r = oid"
  shows "ref_update oid f rb = (True, ref_set_side d
      (S1 @ (if f (q1 @ r # q2) = [] then S2 else (px, f (q1 @ r # q2)) # S2)) rb)"
    and "oid \<notin> ro_id ` set q1" "oid \<notin> ro_id ` set q2"
proof -
  have "distinct (side_ids (ref_side d rb) @ side_ids (ref_side (\<not> d) rb))"
    using dist by (cases d) (auto simp: ref_ids_def ref_side_def)
  then have d: "distinct (side_ids S1 @ map ro_id (q1 @ r # q2))" "oid \<notin> set (side_ids (ref_side (\<not> d) rb))"
    using abs r by auto
  then show "oid \<notin> ro_id ` set q1" "oid \<notin> ro_id ` set q2" using r by auto
  have mem: "oid \<in> set (side_ids (ref_side d rb))" using abs r by auto
  have "update_queue oid f (ref_side d rb)
      = S1 @ (if f (q1 @ r # q2) = [] then S2 else (px, f (q1 @ r # q2)) # S2)"
    unfolding abs using d(1) r by (intro update_queue_split) auto
  then show "ref_update oid f rb = (True, ref_set_side d
      (S1 @ (if f (q1 @ r # q2) = [] then S2 else (px, f (q1 @ r # q2)) # S2)) rb)"
    using mem d(2) by (cases d) (simp_all add: ref_update_def ref_side_def ref_set_side_def)
qed

text \<open>\<open>updated oid f d b L L' b'\<close>: \<open>b'\<close> represents \<open>b\<close> with \<open>f\<close> applied to the queue of \<open>oid\<close>.\<close>

definition updated :: "OrderId \<Rightarrow> (RefOrder list \<Rightarrow> RefOrder list) \<Rightarrow> bool \<Rightarrow> OrderBook \<Rightarrow> nat list list \<Rightarrow>
    nat list list \<Rightarrow> OrderBook \<Rightarrow> bool" where
  "updated oid f d b L L' b' = (\<exists>M F'. book_rep d b' M L' F' \<and> no_empty M \<and>
     ref_side (\<not> d) (abs_book b') = ref_side (\<not> d) (abs_book b) \<and>
     fst ` set (ref_side d (abs_book b')) \<subseteq> fst ` set (ref_side d (abs_book b)) \<and>
     (complete d b L L' \<longrightarrow> complete d b' M L' \<and> ref_update oid f (abs_book b) = (True, abs_book b')))"

lemma updatedI:
  assumes rep: "book_rep d b L L' F" and r: "ro_id r = oid"
    and abs: "ref_side d (abs_book b) = S1 @ (px, q1 @ r # q2) # S2"
    and rep': "book_rep d b' M L' F'" "no_empty M" "complete d b L L' \<Longrightarrow> complete d b' M L'"
    and abs': "abs_book b' = ref_set_side d (S1 @ (if q' = [] then S2 else (px, q') # S2)) (abs_book b)"
    and f: "oid \<notin> ro_id ` set q1 \<Longrightarrow> oid \<notin> ro_id ` set q2 \<Longrightarrow> f (q1 @ r # q2) = q'"
  shows "updated oid f d b L L' b'"
proof -
  have "ref_update oid f (abs_book b) = (True, abs_book b')" if "complete d b L L'"
    using ref_update_at(1) [OF complete_distinct [OF rep that] abs r, of f]
      f [OF ref_update_at(2,3) [OF complete_distinct [OF rep that] abs r]] abs' by simp
  moreover have "ref_side (\<not> d) (abs_book b') = ref_side (\<not> d) (abs_book b)"
    "fst ` set (ref_side d (abs_book b')) \<subseteq> fst ` set (ref_side d (abs_book b))"
    unfolding abs' abs by auto
  ultimately show ?thesis using rep' unfolding updated_def by blast
qed

subsection \<open>Cancel\<close>

lemma no_empty_edit: "no_empty (L1 @ xs # L2) \<Longrightarrow> no_empty (L1 @ (if ys = [] then L2 else ys # L2))"
  by (auto simp: no_empty_def)

text \<open>Removing the order, as \<^verbatim>\<open>cancel_order\<close> does and \<^verbatim>\<open>modify_order\<close> to quantity zero.\<close>

lemma removed_refines:
  assumes rep: "book_rep d b L L' F" "no_empty L" and L: "L = L1 @ (ys @ s # zs) # L2"
    and s: "sl_ids (ob_slots b) s = oid"
    and abs: "ref_side d (abs_book b) = S1 @ (px, map (abs_order (ob_slots b)) (ys @ s # zs)) # S2"
      "length S1 = length L1"
    and f: "\<And>q1 r q2. ro_id r = oid \<Longrightarrow> ro_rem r > 0 \<Longrightarrow> oid \<notin> ro_id ` set q1 \<Longrightarrow> oid \<notin> ro_id ` set q2 \<Longrightarrow>
      f (q1 @ r # q2) = q1 @ q2"
  obtains r t where "index_remove (ob_index b) oid = Some (r, t)"
    "updated oid f d b L L' (drop_if_empty d (length L1) (unlinked d (length L1) s m t b))"
proof -
  note rep1 = rep(1) [unfolded L]
  obtain r t where t: "index_remove (ob_index b) (sl_ids (ob_slots b) s) = Some (r, t)"
    "book_rep d (unlinked d (length L1) s m t b) (L1 @ (ys @ zs) # L2) L' (s # F)"
    "abs_book (unlinked d (length L1) s m t b) =
       ref_set_side d (S1 @ (px, map (abs_order (ob_slots b)) (ys @ zs)) # S2) (abs_book b)"
    "complete d b (L1 @ (ys @ s # zs) # L2) L' \<Longrightarrow>
       complete d (unlinked d (length L1) s m t b) (L1 @ (ys @ zs) # L2) L'"
    using rep1 abs by (rule unlinked_refines) blast
  let ?b = "unlinked d (length L1) s m t b"
  have abs1: "ref_side d (abs_book ?b) = S1 @ (px, map (abs_order (ob_slots b)) (ys @ zs)) # S2"
    using t(3) by simp
  note dr = drop_if_empty_refines [OF t(2) abs1 abs(2)]
  have rem: "0 < ro_rem (abs_order (ob_slots b) s)"
    using rep_level_at(1) [OF rep1] by (simp add: level_rep_def)
  have "updated oid f d b L L' (drop_if_empty d (length L1) ?b)"
  proof (rule updatedI [OF rep(1) _ _ dr(1)])
    show "ro_id (abs_order (ob_slots b) s) = oid" using s by simp
    show "ref_side d (abs_book b) = S1 @ (px, map (abs_order (ob_slots b)) ys
        @ abs_order (ob_slots b) s # map (abs_order (ob_slots b)) zs) # S2" using abs by simp
    show "no_empty (L1 @ (if ys @ zs = [] then L2 else (ys @ zs) # L2))"
      using rep(2) L by (intro no_empty_edit) simp
    show "complete d (drop_if_empty d (length L1) ?b) (L1 @ (if ys @ zs = [] then L2 else (ys @ zs) # L2)) L'"
      if "complete d b L L'" using dr(3) t(4) that L by simp
    show "abs_book (drop_if_empty d (length L1) ?b) = ref_set_side d
        (S1 @ (if map (abs_order (ob_slots b)) (ys @ zs) = [] then S2
               else (px, map (abs_order (ob_slots b)) (ys @ zs)) # S2)) (abs_book b)"
      using dr(2) t(3) by simp
  qed (use f rem s in simp)
  then show thesis using that t(1) s by blast
qed

lemma side_code_zero [simp]: "side_code d = 0 \<longleftrightarrow> d"
  by (simp add: side_code_def)

lemma set_order_qty_same:
  "set_order_qty d i s (bs_qtys (book_side d b) i) (sl_qtys (ob_slots b) s) b = b"
  by (simp add: set_order_qty_def Let_def)

lemma drop_unlinked_frame:
  "same_conf b (drop_if_empty d i (unlinked d i s m t b))"
  "ob_stat_matches (drop_if_empty d i (unlinked d i s m t b)) = ob_stat_matches b"
  using unlinked_frame(1,2) [where b = b and d = d and i = i and s = s and m = m and t = t]
  by (auto simp: drop_if_empty_def same_conf_def)

lemma index_lookup_rep: "book_rep d b L L' F \<Longrightarrow> index_lookup (ob_index b) oid = Some (index_map (ob_index b) oid)"
  unfolding book_rep_def oidx.pairs_ok_def by (rule index_lookup_entries(1)) blast

lemma updated_stat: "updated oid f d b L L' b' \<Longrightarrow> updated oid f d b L L' (b'\<lparr>ob_stat_cancelled := n\<rparr>)"
  by (simp add: updated_def)

lemma cancel_found:
  assumes rep: "book_rep d b L L' F" "no_empty L" and idx: "index_map (ob_index b) oid = Some (s, side_code d)"
  shows "\<exists>b'. cancel_order oid b = Some (True, b') \<and> updated oid (q_erase oid) d b L L' b' \<and>
     same_conf (b\<lparr>ob_stat_cancelled := ob_stat_cancelled b + 1\<rparr>) b' \<and> ob_stat_matches b' = ob_stat_matches b"
proof -
  obtain L1 ys zs L2 S1 px S2 where loc: "L = L1 @ (ys @ s # zs) # L2" "sl_ids (ob_slots b) s = oid"
    "ref_side d (abs_book b) = S1 @ (px, map (abs_order (ob_slots b)) (ys @ s # zs)) # S2"
    "length S1 = length L1" "find_level (book_side d b) (sl_prices (ob_slots b) s) = int (length L1)"
    using rep(1) idx by (rule locate)
  define m where "m = sl_qtys (ob_slots b) s"
  obtain r t where t: "index_remove (ob_index b) oid = Some (r, t)"
    "updated oid (q_erase oid) d b L L' (drop_if_empty d (length L1) (unlinked d (length L1) s m t b))"
    using rep loc(1-4) by (rule removed_refines [where m = m and f = "q_erase oid"]) (simp_all add: queue_ops_split)
  let ?b' = "drop_if_empty d (length L1) (unlinked d (length L1) s m t b)"
  let ?b1 = "remove_order_from_level (side_code d) (length L1) s b"
  have b': "?b1\<lparr>ob_index := t\<rparr> = ?b'"
    using remove_order_unlinked [where d = d and i = "length L1" and s = s and b = b and m = m and t = t]
      set_order_qty_same by (simp add: m_def)
  have "cancel_order oid b = Some (True, ?b1\<lparr>ob_index := t, ob_stat_cancelled := ob_stat_cancelled ?b1 + 1\<rparr>)"
    using idx index_lookup_rep [OF rep(1), of oid] loc(5) t(1) by (simp add: cancel_order_def Let_def)
  also have "\<dots> = Some (True, ?b'\<lparr>ob_stat_cancelled := ob_stat_cancelled ?b' + 1\<rparr>)"
    unfolding b' [symmetric] by simp
  finally have "cancel_order oid b = Some (True, ?b'\<lparr>ob_stat_cancelled := ob_stat_cancelled ?b' + 1\<rparr>)" .
  then show ?thesis
    using updated_stat [OF t(2)] drop_unlinked_frame [where b = b and d = d and i = "length L1" and s = s and m = m and t = t]
    by (auto simp: same_conf_def)
qed

subsection \<open>Modify\<close>

text \<open>The four ways \<^verbatim>\<open>modify_order\<close> goes on once the order is found.\<close>

lemma modify_found_eq:
  assumes "index_lookup (ob_index b) oid = Some (Some (s, side_code d))"
    "find_level (book_side d b) (sl_prices (ob_slots b) s) = int i" "index_remove (ob_index b) oid = Some (c, t)"
  shows "modify_order oid n b = Some (True,
     if n > sl_qtys (ob_slots b) s then requeued d i s n b
     else if n = sl_qtys (ob_slots b) s then b
     else let b1 = set_order_qty d i s (bs_qtys (book_side d b) i - (sl_qtys (ob_slots b) s - n)) n b
       in if n = 0 then (remove_order_from_level (side_code d) i s b1)\<lparr>ob_index := t\<rparr> else b1)"
  using assms by (auto simp: modify_order_def Let_def requeued_def)

lemma requeued_updated:
  assumes rep: "book_rep d b L L' F" "no_empty L" and L: "L = L1 @ (ys @ s # zs) # L2"
    and s: "sl_ids (ob_slots b) s = oid" "sl_qtys (ob_slots b) s < n"
    and abs: "ref_side d (abs_book b) = S1 @ (px, map (abs_order (ob_slots b)) (ys @ s # zs)) # S2"
      "length S1 = length L1"
  shows "updated oid (q_modify oid n) d b L L' (requeued d (length L1) s n b)"
proof -
  let ?r = "abs_order (ob_slots b) s" and ?q1 = "map (abs_order (ob_slots b)) ys"
    and ?q2 = "map (abs_order (ob_slots b)) zs"
  have "n > 0" using s(2) by (metis word_gt_0 word_not_simps(1))
  note rq = requeued_refines [OF rep(1) [unfolded L] this abs]
  show ?thesis
  proof (rule updatedI [OF rep(1) _ _ rq(1)])
    show "ro_id ?r = oid" using s(1) by simp
    show "ref_side d (abs_book b) = S1 @ (px, ?q1 @ ?r # ?q2) # S2" using abs(1) by simp
    show "no_empty (L1 @ (ys @ zs @ [s]) # L2)" using rep(2) L by (auto simp: no_empty_def)
    show "abs_book (requeued d (length L1) s n b) = ref_set_side d
        (S1 @ (if ?q1 @ ?q2 @ [?r\<lparr>ro_rem := n\<rparr>] = [] then S2 else (px, ?q1 @ ?q2 @ [?r\<lparr>ro_rem := n\<rparr>]) # S2))
        (abs_book b)" using rq(2) by simp
    show "q_modify oid n (?q1 @ ?r # ?q2) = ?q1 @ ?q2 @ [?r\<lparr>ro_rem := n\<rparr>]"
      if "oid \<notin> ro_id ` set ?q1" "oid \<notin> ro_id ` set ?q2"
      using q_modify_split [OF _ that, of ?r n] s by simp
  qed (use rq(3) L in simp)
qed

lemma resized_updated:
  assumes rep: "book_rep d b L L' F" "no_empty L" and L: "L = L1 @ (ys @ s # zs) # L2"
    and s: "sl_ids (ob_slots b) s = oid" "0 < n" "n \<le> sl_qtys (ob_slots b) s"
    and abs: "ref_side d (abs_book b) = S1 @ (px, map (abs_order (ob_slots b)) (ys @ s # zs)) # S2"
      "length S1 = length L1"
  shows "updated oid (q_modify oid n) d b L L' (set_order_qty d (length L1) s
    (bs_qtys (book_side d b) (length L1) - (sl_qtys (ob_slots b) s - n)) n b)" (is "updated _ _ _ _ _ _ ?b'")
proof -
  let ?r = "abs_order (ob_slots b) s" and ?q1 = "map (abs_order (ob_slots b)) ys"
    and ?q2 = "map (abs_order (ob_slots b)) zs"
  note rs = resized_refines [OF rep(1) [unfolded L] s(2) abs]
  show ?thesis
  proof (rule updatedI [OF rep(1) _ _ rs(1)])
    show "ro_id ?r = oid" using s(1) by simp
    show "ref_side d (abs_book b) = S1 @ (px, ?q1 @ ?r # ?q2) # S2" using abs(1) by simp
    show "abs_book ?b' = ref_set_side d (S1 @ (if ?q1 @ ?r\<lparr>ro_rem := n\<rparr> # ?q2 = [] then S2
        else (px, ?q1 @ ?r\<lparr>ro_rem := n\<rparr> # ?q2) # S2)) (abs_book b)" using rs(2) by simp
    show "q_modify oid n (?q1 @ ?r # ?q2) = ?q1 @ ?r\<lparr>ro_rem := n\<rparr> # ?q2"
      if "oid \<notin> ro_id ` set ?q1" "oid \<notin> ro_id ` set ?q2"
      using q_modify_split [OF _ that, of ?r n] s by auto
  qed (use rep(2) rs(3) L in simp_all)
qed

lemma modify_found:
  assumes rep: "book_rep d b L L' F" "no_empty L" and idx: "index_map (ob_index b) oid = Some (s, side_code d)"
  shows "\<exists>b'. modify_order oid n b = Some (True, b') \<and> updated oid (q_modify oid n) d b L L' b' \<and>
     same_conf b b' \<and> ob_stat_matches b' = ob_stat_matches b"
proof -
  let ?sl = "ob_slots b"
  obtain L1 ys zs L2 S1 px S2 where loc: "L = L1 @ (ys @ s # zs) # L2" "sl_ids ?sl s = oid"
    "ref_side d (abs_book b) = S1 @ (px, map (abs_order ?sl) (ys @ s # zs)) # S2"
    "length S1 = length L1" "find_level (book_side d b) (sl_prices ?sl s) = int (length L1)"
    using rep(1) idx by (rule locate)
  have pos: "sl_qtys ?sl s > 0" using rep_level_at(1) [OF rep(1) [unfolded loc(1)]] by (simp add: level_rep_def)
  obtain c t where t: "index_remove (ob_index b) oid = Some (c, t)"
    "updated oid (q_modify oid 0) d b L L' (drop_if_empty d (length L1) (unlinked d (length L1) s 0 t b))"
    using rep loc(1-4) by (rule removed_refines [where m = 0 and f = "q_modify oid 0"]) (simp_all add: q_modify_split)
  have look: "index_lookup (ob_index b) oid = Some (Some (s, side_code d))"
    using index_lookup_rep [OF rep(1)] idx by simp
  note eq = modify_found_eq [OF look loc(5) t(1), of n]
  let ?b1 = "set_order_qty d (length L1) s (bs_qtys (book_side d b) (length L1) - (sl_qtys ?sl s - n)) n b"
  consider (more) "n > sl_qtys ?sl s" | (zero) "n = 0" "n < sl_qtys ?sl s" | (keep) "0 < n" "n \<le> sl_qtys ?sl s"
    using pos word_neq_0_conv by fastforce
  then show ?thesis
  proof cases
    case more
    then show ?thesis using eq requeued_updated [OF rep loc(1,2) more loc(3,4)] requeued_frame by auto
  next
    case zero
    have "(remove_order_from_level (side_code d) (length L1) s ?b1)\<lparr>ob_index := t\<rparr>
        = drop_if_empty d (length L1) (unlinked d (length L1) s 0 t b)"
      using remove_order_unlinked [where d = d and i = "length L1" and s = s and b = b and m = 0 and t = t] zero by simp
    then show ?thesis
      using eq zero t(2) drop_unlinked_frame [where b = b and d = d and i = "length L1" and s = s and m = 0 and t = t] by auto
  next
    case keep
    have "modify_order oid n b = Some (True, ?b1)"
      using eq keep set_order_qty_same [where b = b and d = d and i = "length L1" and s = s]
      by (auto simp: Let_def split: if_splits)
    moreover have "same_conf b ?b1" "ob_stat_matches ?b1 = ob_stat_matches b"
      by (simp_all add: set_order_qty_def same_conf_def Let_def)
    ultimately show ?thesis using resized_updated [OF rep loc(1,2) keep loc(3,4)] by blast
  qed
qed

subsection \<open>Both operations on a well-formed book\<close>

lemma updated_inv:
  assumes "updated oid f d b L L' b'" "no_empty L'"
  shows "book_inv b'"
    and "complete d b L L' \<Longrightarrow> book_inv_unique b' \<and> ref_update oid f (abs_book b) = (True, abs_book b')"
    and "fst ` set (ref_side e (abs_book b')) \<subseteq> fst ` set (ref_side e (abs_book b))"
  using assms book_inv_iff [of b' d] book_inv_unique_iff [of b' d] unfolding updated_def
  by (blast, blast, cases "e = d") auto

lemma not_found:
  assumes "book_inv_unique b" "index_map (ob_index b) oid = None"
  shows "ref_update oid f (abs_book b) = (False, abs_book b)"
proof -
  obtain L L' F where rep: "book_rep True b L L' F" "complete True b L L'"
    using assms(1) by (auto simp: book_inv_unique_def)
  then have "oid \<notin> set (ref_ids (abs_book b))"
    using assms(2) unfolding ref_ids_rep [OF rep(1)] complete_def by fastforce
  then show ?thesis by (auto simp: ref_ids_def ref_update_def)
qed

text \<open>The shape both operations share: nothing changes when the id is unknown; otherwise one queue is updated.\<close>

lemma lookup_update:
  assumes inv: "book_inv b"
    and none: "index_map (ob_index b) oid = None \<Longrightarrow> act b = Some (False, b)"
    and some: "\<And>d L L' F s. book_rep d b L L' F \<Longrightarrow> no_empty L \<Longrightarrow> index_map (ob_index b) oid = Some (s, side_code d) \<Longrightarrow>
      \<exists>b'. act b = Some (True, b') \<and> updated oid f d b L L' b' \<and> Q b b'"
  shows "\<exists>ok b'. act b = Some (ok, b') \<and> book_inv b' \<and> (if ok then Q b b' else b' = b) \<and>
     (ok \<longleftrightarrow> index_map (ob_index b) oid \<noteq> None) \<and>
     (\<forall>e. fst ` set (ref_side e (abs_book b')) \<subseteq> fst ` set (ref_side e (abs_book b))) \<and>
     (book_inv_unique b \<longrightarrow> book_inv_unique b' \<and> ref_update oid f (abs_book b) = (ok, abs_book b'))"
proof (cases "index_map (ob_index b) oid")
  case None
  then show ?thesis using none inv not_found by auto
next
  case (Some v)
  obtain s c where v: "v = (s, c)" by fastforce
  with Some obtain d where idx: "index_map (ob_index b) oid = Some (s, side_code d)" using inv index_side by metis
  show ?thesis
  proof (cases "book_inv_unique b")
    case True
    then obtain L L' F where rep: "book_rep d b L L' F" "no_empty L" "no_empty L'" "complete d b L L'"
      using book_inv_unique_iff by blast
    from some [OF rep(1,2) idx] obtain b' where b': "act b = Some (True, b')" "updated oid f d b L L' b'" "Q b b'"
      by blast
    with updated_inv [OF b'(2) rep(3)] rep(4) idx show ?thesis by (intro exI [of _ True] exI [of _ b']) simp
  next
    case False
    obtain L L' F where rep: "book_rep d b L L' F" "no_empty L" "no_empty L'" using inv book_inv_iff by blast
    from some [OF rep(1,2) idx] obtain b' where b': "act b = Some (True, b')" "updated oid f d b L L' b'" "Q b b'"
      by blast
    with updated_inv(1,3) [OF b'(2) rep(3)] False idx show ?thesis by (intro exI [of _ True] exI [of _ b']) simp
  qed
qed

end
