(* ===== verification/Book_Run.thy ===== *)
theory Book_Run
  imports Book_Cancel
begin

text \<open>
  Sequences of operations on a book.  The locale \<open>matching_book\<close> states what a client of the book
  relies on: every operation returns, keeps the invariant, and answers as the abstract book does.
  From these laws alone it follows that any sequence of operations produces the answers and fills of
  the reference implementation, as \<^verbatim>\<open>tests/test_conservation.cpp\<close> checks on random sequences.  The
  interpretation discharges the laws for the model of \<^verbatim>\<open>OrderBook\<close>.
\<close>

subsection \<open>Operations and their reference semantics\<close>

datatype BookOp = AddOp Order | CancelOp OrderId | ModifyOp OrderId Qty

definition ref_step :: "BookOp \<Rightarrow> RefBook \<Rightarrow> bool \<times> RefBook \<times> Fill list" where
  "ref_step op rb = (case op of AddOp od \<Rightarrow> ref_add kMaxLevels kMaxOrders od rb
     | CancelOp oid \<Rightarrow> (let (ok, rb') = ref_cancel oid rb in (ok, rb', []))
     | ModifyOp oid n \<Rightarrow> (let (ok, rb') = ref_modify oid n rb in (ok, rb', [])))"

primrec ref_run :: "BookOp list \<Rightarrow> RefBook \<Rightarrow> (bool \<times> Fill list) list \<times> RefBook" where
  "ref_run [] rb = ([], rb)"
| "ref_run (op # ops) rb = (let (ok, rb', fs) = ref_step op rb; (outs, rb'') = ref_run ops rb'
     in ((ok, fs) # outs, rb''))"

text \<open>An id is used for a new order only while no resting order has it.\<close>

definition op_fresh :: "BookOp \<Rightarrow> RefBook \<Rightarrow> bool" where
  "op_fresh op rb = (case op of AddOp od \<Rightarrow> o_id od \<notin> set (ref_ids rb) | _ \<Rightarrow> True)"

primrec ops_fresh :: "BookOp list \<Rightarrow> RefBook \<Rightarrow> bool" where
  "ops_fresh [] rb = True"
| "ops_fresh (op # ops) rb = (op_fresh op rb \<and> ops_fresh ops (fst (snd (ref_step op rb))))"

primrec run_ops :: "('op \<Rightarrow> 'b \<Rightarrow> (bool \<times> 'b \<times> 'r list) option) \<Rightarrow> 'op list \<Rightarrow> 'b \<Rightarrow>
    ((bool \<times> 'r list) list \<times> 'b) option" where
  "run_ops step [] b = Some ([], b)"
| "run_ops step (op # ops) b = do {
     (ok, b', rs) \<leftarrow> step op b;
     (outs, b'') \<leftarrow> run_ops step ops b';
     Some ((ok, rs) # outs, b'') }"

subsection \<open>The interface\<close>

locale matching_book =
  fixes step :: "BookOp \<Rightarrow> 'b \<Rightarrow> (bool \<times> 'b \<times> ExecutionReport list) option"
    and invar :: "'b \<Rightarrow> bool"
    and abs :: "'b \<Rightarrow> RefBook"
  assumes step_refines: "invar b \<Longrightarrow> op_fresh op (abs b) \<Longrightarrow>
      \<exists>ok b' rs. step op b = Some (ok, b', rs) \<and> invar b' \<and>
        ref_step op (abs b) = (ok, abs b', map report_fill rs)"
    and unique_ids: "invar b \<Longrightarrow> distinct (ref_ids (abs b))"
begin

lemma run_refines:
  assumes "invar b" "ops_fresh ops (abs b)"
  shows "\<exists>outs b'. run_ops step ops b = Some (outs, b') \<and> invar b' \<and>
     ref_run ops (abs b) = (map (\<lambda>(ok, rs). (ok, map report_fill rs)) outs, abs b')"
  using assms
proof (induction ops arbitrary: b)
  case (Cons op ops)
  then have "op_fresh op (abs b)" by simp
  from step_refines [OF Cons.prems(1) this] obtain ok b1 rs where s: "step op b = Some (ok, b1, rs)" "invar b1"
    "ref_step op (abs b) = (ok, abs b1, map report_fill rs)" by blast
  with Cons.prems have "ops_fresh ops (abs b1)" by simp
  from Cons.IH [OF s(2) this] s show ?case by auto
qed simp

lemma step_ok:
  assumes "invar b" "op_fresh op (abs b)" "ref_ok (abs b)" "step op b = Some (ok, b', rs)"
  shows "ref_ok (abs b')"
proof -
  have ref: "ref_step op (abs b) = (ok, abs b', map report_fill rs)"
    using step_refines [OF assms(1,2)] assms(4) by auto
  show ?thesis
  proof (cases op)
    case (AddOp od)
    with ref assms(3) show ?thesis by (auto simp: ref_step_def dest: ref_add_ok)
  next
    case (CancelOp oid)
    with ref have "ref_update oid (q_erase oid) (abs b) = (ok, abs b')"
      by (auto simp: ref_step_def ref_cancel_def split: prod.splits)
    then show ?thesis using ref_update_ok [OF assms(3) unique_ids [OF assms(1)]] by blast
  next
    case (ModifyOp oid n)
    with ref have "ref_update oid (q_modify oid n) (abs b) = (ok, abs b')"
      by (auto simp: ref_step_def ref_modify_def split: prod.splits)
    then show ?thesis using ref_update_ok [OF assms(3) unique_ids [OF assms(1)]] by blast
  qed
qed

end

subsection \<open>The book provides it\<close>

definition book_step :: "BookOp \<Rightarrow> OrderBook \<Rightarrow> (bool \<times> OrderBook \<times> ExecutionReport list) option" where
  "book_step op b = (case op of AddOp od \<Rightarrow> add_order od b
     | CancelOp oid \<Rightarrow> map_option (\<lambda>(ok, b'). (ok, b', [])) (cancel_order oid b)
     | ModifyOp oid n \<Rightarrow> map_option (\<lambda>(ok, b'). (ok, b', [])) (modify_order oid n b))"

lemma report_fill_reports [simp]: "map report_fill (fill_reports sy od n fs) = fs"
  by (induction fs arbitrary: n) (simp_all add: report_fill_def)

lemma add_order_result:
  assumes "book_inv b" "ref_add kMaxLevels kMaxOrders od (abs_book b) = (acc, rb', fs)"
  obtains b' where "add_order od b = Some (acc, b', emitted b od (o_qty_remaining od) fs)"
    "book_inv b'" "abs_book b' = rb'" "counted b acc (walled od (abs_book b)) (length fs) b'"
    "book_inv_unique b \<Longrightarrow> o_id od \<notin> set (ref_ids (abs_book b)) \<Longrightarrow> book_inv_unique b'"
  using add_order_refines_aux [OF assms] that unfolding add_ok_def by blast

lemma unknown_id:
  assumes "book_inv b" "index_map (ob_index b) oid = None"
  shows "cancel_order oid b = Some (False, b)" "modify_order oid n b = Some (False, b)"
proof -
  have "index_lookup (ob_index b) oid = Some None"
    using assms index_lookup_rep unfolding book_inv_def by fastforce
  then show "cancel_order oid b = Some (False, b)" "modify_order oid n b = Some (False, b)"
    by (simp_all add: cancel_order_def modify_order_def)
qed

definition cancel_conf :: "OrderBook \<Rightarrow> OrderBook \<Rightarrow> bool" where
  "cancel_conf b b' = (same_conf (b\<lparr>ob_stat_cancelled := ob_stat_cancelled b + 1\<rparr>) b' \<and> ob_stat_matches b' = ob_stat_matches b)"

definition modify_conf :: "OrderBook \<Rightarrow> OrderBook \<Rightarrow> bool" where
  "modify_conf b b' = (same_conf b b' \<and> ob_stat_matches b' = ob_stat_matches b)"

lemma cancel_order_result:
  assumes "book_inv b"
  shows "\<exists>ok b'. cancel_order oid b = Some (ok, b') \<and> book_inv b' \<and>
     (if ok then cancel_conf b b' else b' = b) \<and> (ok \<longleftrightarrow> index_map (ob_index b) oid \<noteq> None) \<and>
     (\<forall>e. fst ` set (ref_side e (abs_book b')) \<subseteq> fst ` set (ref_side e (abs_book b))) \<and>
     (book_inv_unique b \<longrightarrow> book_inv_unique b' \<and> ref_cancel oid (abs_book b) = (ok, abs_book b'))"
  unfolding ref_cancel_def using assms unknown_id(1) [OF assms]
  by (rule lookup_update) (auto simp: cancel_conf_def dest: cancel_found)

lemma modify_order_result:
  assumes "book_inv b"
  shows "\<exists>ok b'. modify_order oid n b = Some (ok, b') \<and> book_inv b' \<and>
     (if ok then modify_conf b b' else b' = b) \<and> (ok \<longleftrightarrow> index_map (ob_index b) oid \<noteq> None) \<and>
     (\<forall>e. fst ` set (ref_side e (abs_book b')) \<subseteq> fst ` set (ref_side e (abs_book b))) \<and>
     (book_inv_unique b \<longrightarrow> book_inv_unique b' \<and> ref_modify oid n (abs_book b) = (ok, abs_book b'))"
  unfolding ref_modify_def using assms unknown_id(2) [OF assms]
  by (rule lookup_update) (auto simp: modify_conf_def dest: modify_found)

interpretation obook: matching_book book_step "\<lambda>b. book_inv_unique b \<and> ob_match_cb b" abs_book
proof
  fix b op
  assume inv: "book_inv_unique b \<and> ob_match_cb b" and fresh: "op_fresh op (abs_book b)"
  have binv: "book_inv b" using inv book_inv_unique_inv by blast
  show "\<exists>ok b' rs. book_step op b = Some (ok, b', rs) \<and> (book_inv_unique b' \<and> ob_match_cb b') \<and>
      ref_step op (abs_book b) = (ok, abs_book b', map report_fill rs)"
  proof (cases op)
    case (AddOp od)
    obtain acc rb' fs where ref: "ref_add kMaxLevels kMaxOrders od (abs_book b) = (acc, rb', fs)"
      by (metis prod_cases3)
    then obtain b' where "add_order od b = Some (acc, b', emitted b od (o_qty_remaining od) fs)"
      "abs_book b' = rb'" "counted b acc (walled od (abs_book b)) (length fs) b'" "book_inv_unique b'"
      using add_order_result [OF binv] inv fresh AddOp by (metis BookOp.simps(10) op_fresh_def)
    with inv ref AddOp show ?thesis by (auto simp: book_step_def ref_step_def emitted_def counted_def)
  next
    case (CancelOp oid)
    with cancel_order_result [OF binv, of oid] inv show ?thesis
      by (fastforce simp: book_step_def ref_step_def cancel_conf_def same_conf_def split: if_splits)
  next
    case (ModifyOp oid n)
    with modify_order_result [OF binv, of oid n] inv show ?thesis
      by (fastforce simp: book_step_def ref_step_def modify_conf_def same_conf_def split: if_splits)
  qed
next
  fix b assume "book_inv_unique b \<and> ob_match_cb b"
  then show "distinct (ref_ids (abs_book b))" using complete_distinct unfolding book_inv_unique_def by blast
qed

subsection \<open>Where the ids of a book come from\<close>

lemma enqueue_ids: "set (side_ids (enqueue d px r s)) = insert (ro_id r) (set (side_ids s))"
  by (induction d px r s rule: enqueue.induct) auto

lemma update_queue_ids:
  assumes "\<And>q. ro_id ` set (f q) \<subseteq> ro_id ` set q"
  shows "set (side_ids (update_queue oid f s)) \<subseteq> set (side_ids s)"
  using assms by (induction oid f s rule: update_queue.induct) (auto, force+)

lemma q_erase_ids: "ro_id ` set (q_erase oid q) \<subseteq> ro_id ` set q"
  by (auto simp: q_erase_def)

lemma q_modify_ids: "ro_id ` set (q_modify oid n q) \<subseteq> ro_id ` set q"
  by (auto simp: q_modify_def q_requeue_def q_erase_def q_set_rem_def split: option.splits if_splits)

lemma ref_update_ids:
  assumes "\<And>q. ro_id ` set (f q) \<subseteq> ro_id ` set q" "ref_update oid f rb = (ok, rb')"
  shows "set (ref_ids rb') \<subseteq> set (ref_ids rb)"
  using update_queue_ids [OF assms(1), of oid "rb_bids rb"] update_queue_ids [OF assms(1), of oid "rb_asks rb"] assms(2)
  by (auto simp: ref_update_def ref_ids_def split: if_splits)

lemma ref_add_ids:
  assumes "ref_add ml mo od rb = (ok, rb', fs)"
  shows "set (ref_ids rb') \<subseteq> insert (o_id od) (set (ref_ids rb))"
proof -
  obtain n w s gs where sw: "sweep od (o_qty_remaining od) (ref_side (\<not> is_buy od) rb) = (n, w, s, gs)" by (metis prod_cases4)
  note ids = sweep_ids [OF sw]
  show ?thesis
    using assms sw ids
    by (cases "is_buy od") (auto simp: ref_add_def ref_ids_def ref_side_def ref_set_side_def Let_def enqueue_ids split: if_splits)
qed

lemma ref_step_ids:
  assumes "ref_step op rb = (ok, rb', fs)"
  shows "set (ref_ids rb') \<subseteq> set (ref_ids rb) \<union> (case op of AddOp od \<Rightarrow> {o_id od} | _ \<Rightarrow> {})"
proof (cases op)
  case (AddOp od)
  then show ?thesis using assms ref_add_ids by (fastforce simp: ref_step_def)
next
  case (CancelOp oid)
  then have "ref_update oid (q_erase oid) rb = (ok, rb')" using assms by (auto simp: ref_step_def ref_cancel_def split: prod.splits)
  from ref_update_ids [OF q_erase_ids this] show ?thesis using CancelOp by simp
next
  case (ModifyOp oid n)
  then have "ref_update oid (q_modify oid n) rb = (ok, rb')" using assms by (auto simp: ref_step_def ref_modify_def split: prod.splits)
  from ref_update_ids [OF q_modify_ids this] show ?thesis using ModifyOp by simp
qed

end
