(* ===== verification/Book_Theorems.thy ===== *)
theory Book_Theorems
  imports Book_Run
begin

text \<open>
  The correctness properties of the order book, stated on the model of \<^verbatim>\<open>order_book.cpp\<close>, each with an
  instance on a concrete book.  The proofs combine the refinement lemmas with the laws of the
  abstract book.
\<close>

subsection \<open>Reachable books\<close>

text \<open>Any sequence of calls, whatever ids, prices and quantities it uses.\<close>

inductive book_reach :: "OrderBook \<Rightarrow> bool" where
  init: "book_reach (new_book sy cb raw)"
| step: "book_reach b \<Longrightarrow> book_step op b = Some (ok, b', rs) \<Longrightarrow> book_reach b'"

lemma abs_new_book: "abs_book (new_book sy cb raw) = \<lparr>rb_bids = [], rb_asks = []\<rparr>"
  by (simp add: abs_book_def abs_side_def levels_def new_book_def)

lemma new_book_unique: "book_inv_unique (new_book sy cb raw)"
  unfolding book_inv_unique_def using new_book_rep [of True] complete_new [of True]
  by (fastforce simp: no_empty_def)

lemma abs_levels_queue_ok:
  "list_all2 (level_rep sl) ls L \<Longrightarrow> no_empty L \<Longrightarrow> \<forall>(px, q) \<in> set (abs_levels sl ls L). queue_ok q"
  by (induction rule: list_all2_induct) (auto simp: no_empty_def queue_ok_def level_rep_def)

lemma book_inv_side_ok: "book_inv b \<Longrightarrow> side_ok d (ref_side d (abs_book b))"
proof -
  assume "book_inv b"
  then obtain L L' F where rep: "book_rep d b L L' F" "no_empty L" using book_inv_iff by blast
  have "sorted_wrt (better d) (map fst (ref_side d (abs_book b)))"
    using rep(1) by (simp add: side_price_list [OF rep(1)] best_first_def sorted_wrt_map book_rep_def side_rep_def)
  moreover have "\<forall>(px, q) \<in> set (ref_side d (abs_book b)). queue_ok q"
  proof -
    have "list_all2 (level_rep (ob_slots b)) (levels (book_side d b)) L"
      using rep(1) by (simp add: book_rep_def side_rep_def)
    from abs_levels_queue_ok [OF this rep(2)] show ?thesis unfolding abs_book_rep(1) [OF rep(1)] .
  qed
  ultimately show ?thesis by (simp add: side_ok_def)
qed

lemma ref_ok_uncrossed: "book_inv b \<Longrightarrow> ref_ok (abs_book b) \<longleftrightarrow> uncrossed (abs_book b)"
  using book_inv_side_ok [of b True] book_inv_side_ok [of b False] by (simp add: ref_ok_def ref_side_def)

lemma fewer_prices_ok:
  assumes "book_inv b'" "ref_ok (abs_book b)"
    "\<forall>e. fst ` set (ref_side e (abs_book b')) \<subseteq> fst ` set (ref_side e (abs_book b))"
  shows "ref_ok (abs_book b')"
proof -
  have "uncrossed (abs_book b)" using assms(2) by (simp add: ref_ok_def)
  then have "uncrossed (abs_book b')"
    by (rule uncrossed_mono) (use assms(3) [THEN spec, of True] assms(3) [THEN spec, of False] in \<open>simp_all add: ref_side_def\<close>)
  then show ?thesis using ref_ok_uncrossed [OF assms(1)] by simp
qed

lemma book_step_inv:
  assumes inv: "book_inv b" and ok: "ref_ok (abs_book b)"
  shows "\<exists>ok b' rs. book_step op b = Some (ok, b', rs) \<and> book_inv b' \<and> ref_ok (abs_book b')"
proof (cases op)
  case (AddOp od)
  obtain acc rb' fs where ref: "ref_add kMaxLevels kMaxOrders od (abs_book b) = (acc, rb', fs)" by (metis prod_cases3)
  then obtain b' where b': "add_order od b = Some (acc, b', emitted b od (o_qty_remaining od) fs)"
    "book_inv b'" "abs_book b' = rb'" using add_order_result [OF inv] by metis
  with AddOp ref_add_ok [OF ok ref] show ?thesis by (auto simp: book_step_def)
next
  case (CancelOp oid)
  obtain r b' where "cancel_order oid b = Some (r, b')" "book_inv b'"
    "\<forall>e. fst ` set (ref_side e (abs_book b')) \<subseteq> fst ` set (ref_side e (abs_book b))"
    using cancel_order_result [OF inv, of oid] by blast
  with CancelOp fewer_prices_ok [OF _ ok] show ?thesis by (simp add: book_step_def)
next
  case (ModifyOp oid n)
  obtain r b' where "modify_order oid n b = Some (r, b')" "book_inv b'"
    "\<forall>e. fst ` set (ref_side e (abs_book b')) \<subseteq> fst ` set (ref_side e (abs_book b))"
    using modify_order_result [OF inv, of oid n] by blast
  with ModifyOp fewer_prices_ok [OF _ ok] show ?thesis by (simp add: book_step_def)
qed

lemma reach_inv: "book_reach b \<Longrightarrow> book_inv b \<and> ref_ok (abs_book b)"
proof (induction rule: book_reach.induct)
  case (init sy cb raw)
  then show ?case
    using new_book_unique book_inv_unique_inv by (simp add: abs_new_book ref_ok_def uncrossed_def)
next
  case (step b op ok b' rs)
  then show ?case using book_step_inv [of b op] by auto
qed

subsection \<open>A concrete book\<close>

definition blank_side :: BookSide where
  "blank_side = \<lparr>bs_prices = \<lambda>_. 0, bs_qtys = \<lambda>_. 0, bs_order_counts = \<lambda>_. 0, bs_head_idxs = \<lambda>_. 0,
     bs_tail_idxs = \<lambda>_. 0, bs_count = 0\<rparr>"

definition blank_book :: OrderBook where
  "blank_book = \<lparr>ob_match_cb = False, ob_symbol = 0, ob_bids = blank_side, ob_asks = blank_side,
     ob_slots = \<lparr>sl_ids = \<lambda>_. 0, sl_qtys = \<lambda>_. 0, sl_nexts = \<lambda>_. 0, sl_prevs = \<lambda>_. 0, sl_free_nexts = \<lambda>_. 0,
       sl_prices = \<lambda>_. 0, sl_accounts = \<lambda>_. 0, sl_free_head = 0, sl_used = 0\<rparr>,
     ob_index = index_init, ob_stat_orders = 0, ob_stat_matches = 0, ob_stat_cancelled = 0, ob_stat_rejected = 0,
     ob_stat_self_trade_prevented = 0\<rparr>"

definition sample_order :: "OrderId \<Rightarrow> Side \<Rightarrow> OrderType \<Rightarrow> Price \<Rightarrow> Qty \<Rightarrow> u32 \<Rightarrow> Order" where
  "sample_order oid sd ty px n acct = \<lparr>o_id = oid, o_price = px, o_qty = n, o_qty_remaining = n, o_symbol = 7,
     o_side = sd, o_type = ty, o_status = StatusNew, o_account_id = acct\<rparr>"

definition sample_ops :: "BookOp list" where
  "sample_ops = [AddOp (sample_order 1 Sell Limit 100 10 1), AddOp (sample_order 2 Sell Limit 100 5 2),
     AddOp (sample_order 3 Sell Limit 101 7 0), AddOp (sample_order 4 Buy Limit 99 4 3),
     AddOp (sample_order 5 Buy Limit 98 6 0)]"

abbreviation sample_new :: OrderBook where
  "sample_new \<equiv> new_book 7 True blank_book"

definition sample_book :: OrderBook where
  "sample_book = snd (the (run_ops book_step sample_ops sample_new))"

definition sample_ref :: RefBook where
  "sample_ref = \<lparr>
     rb_bids = [(99, [\<lparr>ro_id = 4, ro_rem = 4, ro_account = 3\<rparr>]), (98, [\<lparr>ro_id = 5, ro_rem = 6, ro_account = 0\<rparr>])],
     rb_asks = [(100, [\<lparr>ro_id = 1, ro_rem = 10, ro_account = 1\<rparr>, \<lparr>ro_id = 2, ro_rem = 5, ro_account = 2\<rparr>]),
                (101, [\<lparr>ro_id = 3, ro_rem = 7, ro_account = 0\<rparr>])]\<rparr>"

lemmas ref_eval = ref_step_def ref_add_def sample_order_def is_buy_def ref_side_def ref_set_side_def
  never_rests_def at_capacity_def resting_count_def kMaxLevels_def kMaxOrders_def better_def ref_blocks_def
  ref_wall_def mk_fill_def Let_def

lemma sample_fresh: "ops_fresh sample_ops (abs_book sample_new)"
  by (simp add: abs_new_book sample_ops_def op_fresh_def ref_ids_def ref_eval)

lemma sample_run: "snd (ref_run sample_ops (abs_book sample_new)) = sample_ref"
  by (simp add: abs_new_book sample_ops_def sample_ref_def ref_eval)

lemma sample_book_ok: "book_inv_unique sample_book \<and> ob_match_cb sample_book" "abs_book sample_book = sample_ref"
proof -
  have "book_inv_unique sample_new \<and> ob_match_cb sample_new" using new_book_unique by (simp add: new_book_def)
  from obook.run_refines [OF this sample_fresh] sample_run
  show "book_inv_unique sample_book \<and> ob_match_cb sample_book" "abs_book sample_book = sample_ref"
    by (auto simp: sample_book_def)
qed

lemma sample_book_inv: "book_inv sample_book"
  using sample_book_ok(1) book_inv_unique_inv by blast

subsection \<open>Refinement\<close>

text \<open>C1. Whatever sequence of add, cancel and modify calls is made, with ids not reused while they rest,
  every call returns, and the answers, the fills and the final book are those of the reference book.\<close>

theorem book_run_refines:
  assumes "book_inv_unique b" "ob_match_cb b" "ops_fresh ops (abs_book b)"
  shows "\<exists>outs b'. run_ops book_step ops b = Some (outs, b') \<and> book_inv_unique b' \<and>
     ref_run ops (abs_book b) = (map (\<lambda>(ok, rs). (ok, map report_fill rs)) outs, abs_book b')"
  using obook.run_refines [of b ops] assms by blast

theorem book_run_refines_witness:
  "ops_fresh sample_ops (abs_book sample_new) \<and>
   (\<exists>outs b'. run_ops book_step sample_ops sample_new = Some (outs, b') \<and> book_inv_unique b' \<and>
     abs_book b' = sample_ref)"
proof -
  have "ob_match_cb sample_new" by (simp add: new_book_def)
  from book_run_refines [OF new_book_unique this sample_fresh] sample_run show ?thesis
    using sample_fresh by auto
qed

text \<open>C2. On a well-formed book \<^verbatim>\<open>add_order\<close> returns for every order, even one whose id is in use: it answers
  as the reference book does, fires exactly the reports of the reference fills, and leaves a well-formed
  book with the reference content and the counters updated.\<close>

theorem add_order_refines:
  assumes "book_inv b" "ref_add kMaxLevels kMaxOrders od (abs_book b) = (acc, rb', fs)"
  shows "\<exists>b'. add_order od b = Some (acc, b', emitted b od (o_qty_remaining od) fs) \<and>
     book_inv b' \<and> abs_book b' = rb' \<and> counted b acc (walled od (abs_book b)) (length fs) b'"
  using add_order_result [OF assms] by metis

theorem add_order_refines_witness:
  "\<exists>b'. add_order (sample_order 6 Buy Limit 100 12 2) sample_book = Some (True, b',
     [\<lparr>r_order_id = 6, r_contra_order_id = 1, r_exec_price = 100, r_exec_qty = 10, r_leaves_qty = 2,
       r_symbol = ob_symbol sample_book, r_side = Buy, r_exec_type = ExecPartialFill\<rparr>]) \<and>
     book_inv b' \<and> ref_side False (abs_book b') = [(100, [\<lparr>ro_id = 2, ro_rem = 5, ro_account = 2\<rparr>]),
                (101, [\<lparr>ro_id = 3, ro_rem = 7, ro_account = 0\<rparr>])]"
proof -
  let ?od = "sample_order 6 Buy Limit 100 12 2"
  obtain acc rb' fs where ref: "ref_add kMaxLevels kMaxOrders ?od (abs_book sample_book) = (acc, rb', fs)"
    by (metis prod_cases3)
  then have val: "acc = True" "fs = [\<lparr>f_aggr = 6, f_passive = 1, f_px = 100, f_qty = 10\<rparr>]"
    "ref_side False rb' = [(100, [\<lparr>ro_id = 2, ro_rem = 5, ro_account = 2\<rparr>]),
                (101, [\<lparr>ro_id = 3, ro_rem = 7, ro_account = 0\<rparr>])]"
    by (auto simp: sample_book_ok(2) sample_ref_def ref_eval)
  from add_order_refines [OF sample_book_inv ref] show ?thesis
    using sample_book_ok(1) val by (auto simp: emitted_def sample_order_def)
qed

text \<open>C3. \<^verbatim>\<open>cancel_order\<close> returns; it removes exactly the order with that id, the level with it when that
  was its last order, and keeps everything else in place; an unknown id changes nothing.\<close>

theorem cancel_order_refines:
  assumes "book_inv_unique b"
  shows "\<exists>ok b'. cancel_order oid b = Some (ok, b') \<and> book_inv_unique b' \<and>
     ref_cancel oid (abs_book b) = (ok, abs_book b') \<and> (if ok then cancel_conf b b' else b' = b)"
  using cancel_order_result [OF book_inv_unique_inv [OF assms], of oid] assms by blast

theorem cancel_order_refines_witness:
  "\<exists>b'. cancel_order 4 sample_book = Some (True, b') \<and> book_inv_unique b' \<and>
     rb_bids (abs_book b') = [(98, [\<lparr>ro_id = 5, ro_rem = 6, ro_account = 0\<rparr>])] \<and>
     rb_asks (abs_book b') = rb_asks sample_ref"
proof -
  obtain ok b' where b': "cancel_order 4 sample_book = Some (ok, b')" "book_inv_unique b'"
    "ref_cancel 4 (abs_book sample_book) = (ok, abs_book b')"
    using cancel_order_refines [of sample_book 4] sample_book_ok(1) by blast
  have "ref_cancel 4 (abs_book sample_book) =
      (True, \<lparr>rb_bids = [(98, [\<lparr>ro_id = 5, ro_rem = 6, ro_account = 0\<rparr>])], rb_asks = rb_asks sample_ref\<rparr>)"
    by (simp add: sample_book_ok(2) sample_ref_def ref_cancel_def ref_update_def side_ids_def q_erase_def)
  with b' show ?thesis by (metis Pair_inject RefBook.select_convs)
qed

text \<open>C4. \<^verbatim>\<open>modify_order\<close> returns; a smaller quantity keeps the place in the queue, a larger one moves the order
  to the back of its level, zero removes it, and every other order keeps its place.\<close>

theorem modify_order_priority:
  assumes "book_inv_unique b" "ref_side d (abs_book b) = S1 @ (px, q1 @ r # q2) # S2" "ro_id r = oid"
  shows "\<exists>b'. modify_order oid n b = Some (True, b') \<and> book_inv_unique b' \<and>
     ref_side (\<not> d) (abs_book b') = ref_side (\<not> d) (abs_book b) \<and>
     ref_side d (abs_book b') =
       (if n = 0 \<and> q1 @ q2 = [] then S1 @ S2
        else S1 @ (px, if n = 0 then q1 @ q2
                       else if n \<le> ro_rem r then q1 @ r\<lparr>ro_rem := n\<rparr> # q2
                       else q1 @ q2 @ [r\<lparr>ro_rem := n\<rparr>]) # S2)"
proof -
  have inv: "book_inv b" using assms(1) by (rule book_inv_unique_inv)
  have dist: "distinct (ref_ids (abs_book b))"
    using assms(1) complete_distinct unfolding book_inv_unique_def by blast
  note upd = ref_update_at [OF dist assms(2,3)]
  obtain ok b' where b': "modify_order oid n b = Some (ok, b')" "book_inv_unique b'"
    "ref_update oid (q_modify oid n) (abs_book b) = (ok, abs_book b')"
    using modify_order_result [OF inv, of oid n] assms(1) by (auto simp: ref_modify_def)
  note q = q_modify_split [OF assms(3) upd(2,3), of n]
  have "ok = True" "abs_book b' = ref_set_side d
      (S1 @ (if q_modify oid n (q1 @ r # q2) = [] then S2 else (px, q_modify oid n (q1 @ r # q2)) # S2)) (abs_book b)"
    using upd(1) [of "q_modify oid n"] b'(3) by auto
  then show ?thesis using b'(1,2) unfolding q by (auto simp: not_le)
qed

theorem modify_order_priority_witness:
  "\<exists>b'. modify_order 1 20 sample_book = Some (True, b') \<and>
     ref_side False (abs_book b') = [(100, [\<lparr>ro_id = 2, ro_rem = 5, ro_account = 2\<rparr>, \<lparr>ro_id = 1, ro_rem = 20, ro_account = 1\<rparr>]),
                (101, [\<lparr>ro_id = 3, ro_rem = 7, ro_account = 0\<rparr>])]"
  using modify_order_priority [of sample_book False "[]" 100 "[]" "\<lparr>ro_id = 1, ro_rem = 10, ro_account = 1\<rparr>"
      "[\<lparr>ro_id = 2, ro_rem = 5, ro_account = 2\<rparr>]" "[(101, [\<lparr>ro_id = 3, ro_rem = 7, ro_account = 0\<rparr>])]" 1 20]
    sample_book_ok
  by (auto simp: sample_ref_def ref_side_def)

subsection \<open>Invariants of every reachable book\<close>

text \<open>C5. Every book reachable by any calls, reused ids included, is well formed: free list, queues and
  index partition the slots, levels are strictly sorted best first with no empty level, every resting
  quantity is positive, and no bid is at or above an ask.\<close>

theorem reachable_book_inv:
  assumes "book_reach b"
  shows "book_inv b \<and> ref_ok (abs_book b)"
  using assms by (rule reach_inv)

lemma sample_book_reach: "book_reach sample_book"
proof -
  have run: "book_reach b' \<and> book_reach b"
    if "run_ops book_step ops b = Some (outs, b')" "book_reach b" for ops outs b b'
    using that
  proof (induction ops arbitrary: b outs)
    case (Cons op ops)
    then obtain ok b1 rs outs' where "book_step op b = Some (ok, b1, rs)" "run_ops book_step ops b1 = Some (outs', b')"
      by (auto simp: bind_eq_Some_conv)
    with Cons show ?case using book_reach.step by blast
  qed auto
  have "ob_match_cb sample_new" by (simp add: new_book_def)
  then obtain outs b' where "run_ops book_step sample_ops sample_new = Some (outs, b')"
    using obook.run_refines [of sample_new sample_ops] new_book_unique sample_fresh by blast
  with run [OF this book_reach.init] show ?thesis by (simp add: sample_book_def)
qed

theorem reachable_book_inv_witness:
  "book_reach sample_book \<and> book_inv sample_book \<and> ref_ok (abs_book sample_book)"
  using reachable_book_inv [OF sample_book_reach] sample_book_reach by simp

text \<open>C6. Every operation on a reachable book returns: no probe of the index, no walk of a queue and no
  matching loop runs forever, whatever the arguments.\<close>

theorem operations_return:
  assumes "book_reach b"
  shows "\<exists>ok b' rs. book_step op b = Some (ok, b', rs)"
  using book_step_inv [of b op] reach_inv [OF assms] by blast

theorem operations_return_witness:
  "book_reach sample_book \<and> (\<exists>ok b' rs. book_step (CancelOp 77) sample_book = Some (ok, b', rs))"
  using operations_return [OF sample_book_reach] sample_book_reach by blast

definition side_quote :: "RefSide \<Rightarrow> Price \<times> Qty" where
  "side_quote s = (case s of [] \<Rightarrow> (PRICE_INVALID, 0) | (px, q) # _ \<Rightarrow> (px, sum_list (map ro_rem q)))"

lemma side_quote_rep:
  assumes "book_inv b"
  shows "side_quote (ref_side d (abs_book b)) = (if bs_count (book_side d b) > 0
     then (bs_prices (book_side d b) 0, bs_qtys (book_side d b) 0) else (PRICE_INVALID, 0))"
proof -
  obtain L L' F where rep: "book_rep d b L L' F" using assms book_inv_iff by blast
  show ?thesis
  proof (cases "ref_side d (abs_book b)")
    case Nil
    then show ?thesis using rep_no_level [OF rep] by (simp add: side_quote_def)
  next
    case (Cons l S)
    obtain px q where l: "l = (px, q)" by fastforce
    obtain xs M where L: "L = xs # M" using rep_no_level(1) [OF rep] Cons by (cases L) auto
    note first = rep_first [OF rep [unfolded L] Cons [unfolded l]]
    then show ?thesis using Cons l by (simp add: side_quote_def level_rep_def comp_def)
  qed
qed

text \<open>C7. \<^verbatim>\<open>best_quote\<close> of a reachable book: each side shows the price of its best level and that level's
  total, taken modulo \<open>2 ^ 32\<close>; an empty side shows the invalid price and zero; the bid is below the ask.\<close>

theorem best_quote_correct:
  assumes "book_reach b"
  shows "(q_bid_price (best_quote b), q_bid_qty (best_quote b)) = side_quote (rb_bids (abs_book b)) \<and>
     (q_ask_price (best_quote b), q_ask_qty (best_quote b)) = side_quote (rb_asks (abs_book b)) \<and>
     (rb_bids (abs_book b) \<noteq> [] \<and> rb_asks (abs_book b) \<noteq> [] \<longrightarrow>
      q_bid_price (best_quote b) < q_ask_price (best_quote b))"
proof -
  have inv: "book_inv b" "uncrossed (abs_book b)" using reach_inv [OF assms] by (auto simp: ref_ok_def)
  have bid: "(q_bid_price (best_quote b), q_bid_qty (best_quote b)) = side_quote (rb_bids (abs_book b))"
    using side_quote_rep [OF inv(1), of True] by (simp add: best_quote_def ref_side_def book_side_def)
  have ask: "(q_ask_price (best_quote b), q_ask_qty (best_quote b)) = side_quote (rb_asks (abs_book b))"
    using side_quote_rep [OF inv(1), of False] by (simp add: best_quote_def ref_side_def book_side_def)
  have "q_bid_price (best_quote b) < q_ask_price (best_quote b)"
    if "rb_bids (abs_book b) \<noteq> []" "rb_asks (abs_book b) \<noteq> []"
    using bid ask inv(2) that by (auto simp: side_quote_def uncrossed_def neq_Nil_conv)
  with bid ask show ?thesis by blast
qed

theorem best_quote_correct_witness:
  "book_reach sample_book \<and> q_bid_price (best_quote sample_book) = 99 \<and> q_ask_price (best_quote sample_book) = 100 \<and>
   q_ask_qty (best_quote sample_book) = 15"
  using best_quote_correct [OF sample_book_reach] sample_book_reach
  by (simp add: sample_book_ok(2) sample_ref_def side_quote_def)

subsection \<open>What an incoming order does\<close>

lemma add_order_ref:
  assumes "book_inv b" "ob_match_cb b" "add_order od b = Some (acc, b', rs)"
  shows "ref_add kMaxLevels kMaxOrders od (abs_book b) = (acc, abs_book b', map report_fill rs)"
proof -
  obtain acc' rb' fs where ref: "ref_add kMaxLevels kMaxOrders od (abs_book b) = (acc', rb', fs)" by (metis prod_cases3)
  obtain b1 where "add_order od b = Some (acc', b1, emitted b od (o_qty_remaining od) fs)" "abs_book b1 = rb'"
    using assms(1) ref by (rule add_order_result)
  with assms(2,3) ref show ?thesis by (auto simp: emitted_def)
qed

definition traded :: "ExecutionReport list \<Rightarrow> nat" where
  "traded rs = sum_list (map (\<lambda>r. unat (r_exec_qty r)) rs)"

lemma traded_fills: "fill_total (map report_fill rs) = traded rs"
  by (simp add: fill_total_def traded_def report_fill_def comp_def)

text \<open>C8. Quantity is conserved.  The opposite side loses exactly what the reports say was traded; the
  order's own side gains exactly its unfilled remainder when the remainder may rest, and nothing when the
  order is immediate, was stopped at an order of its own account, or was rejected.\<close>

theorem add_order_conserves:
  assumes "book_inv b" "ob_match_cb b" "add_order od b = Some (acc, b', rs)"
  shows "side_total (ref_side (\<not> is_buy od) (abs_book b)) = side_total (ref_side (\<not> is_buy od) (abs_book b')) + traded rs \<and>
     traded rs \<le> unat (o_qty_remaining od) \<and>
     side_total (ref_side (is_buy od) (abs_book b')) = side_total (ref_side (is_buy od) (abs_book b))
      + (if rests acc od (abs_book b) then unat (o_qty_remaining od) - traded rs else 0)"
  using ref_add_conserves [OF add_order_ref [OF assms]] by (simp add: traded_fills)

lemma sample_add:
  assumes "ref_add kMaxLevels kMaxOrders od sample_ref = (acc, rb', fs)"
  obtains b' rs where "add_order od sample_book = Some (acc, b', rs)" "abs_book b' = rb'" "map report_fill rs = fs"
proof -
  have "ref_add kMaxLevels kMaxOrders od (abs_book sample_book) = (acc, rb', fs)"
    using assms sample_book_ok(2) by simp
  with sample_book_inv obtain b' where "add_order od sample_book = Some (acc, b', emitted sample_book od (o_qty_remaining od) fs)"
    "abs_book b' = rb'" by (rule add_order_result)
  then show thesis using that sample_book_ok(1) by (simp add: emitted_def)
qed

lemmas sample_book_add = sample_book_inv sample_book_ok(1) [THEN conjunct2]

theorem add_order_conserves_witness:
  "\<exists>b' rs. add_order (sample_order 6 Buy Limit 100 20 0) sample_book = Some (True, b', rs) \<and> traded rs = 15 \<and>
     side_total (ref_side False (abs_book b')) + 15 = side_total (ref_side False (abs_book sample_book)) \<and>
     side_total (ref_side True (abs_book b')) = side_total (ref_side True (abs_book sample_book)) + 5"
proof -
  let ?od = "sample_order 6 Buy Limit 100 20 0"
  obtain acc rb' fs where ref: "ref_add kMaxLevels kMaxOrders ?od sample_ref = (acc, rb', fs)" by (metis prod_cases3)
  then obtain b' rs where b': "add_order ?od sample_book = Some (acc, b', rs)" "abs_book b' = rb'" "map report_fill rs = fs"
    by (rule sample_add)
  have "acc" "fill_total fs = 15"
    using ref by (auto simp: sample_ref_def ref_eval)
  moreover have "rests True ?od sample_ref" by (simp add: rests_def walled_def sample_ref_def ref_eval)
  moreover have "is_buy ?od" "unat (o_qty_remaining ?od) = 20" by (simp_all add: is_buy_def sample_order_def)
  ultimately show ?thesis
    using add_order_conserves [OF sample_book_add b'(1)] b' by (simp add: sample_book_ok(2) traded_fills [symmetric])
qed

text \<open>C9. Price-time priority.  The trades hit the resting orders of the opposite side strictly in order of
  price, then of arrival: a prefix of that sequence, each at its own level's price, every order but the
  last for its whole remaining quantity; and no trade is worse than the limit.\<close>

theorem add_order_price_time_priority:
  assumes "book_inv b" "ob_match_cb b" "add_order od b = Some (acc, b', rs)"
  shows "takes_prefix od (priced (ref_side (\<not> is_buy od) (abs_book b))) (map report_fill rs) \<and>
     (\<forall>r \<in> set rs. \<not> ref_blocks od (r_exec_price r))"
proof -
  have ok: "side_ok (\<not> is_buy od) (ref_side (\<not> is_buy od) (abs_book b))" using assms(1) by (rule book_inv_side_ok)
  note pr = ref_add_priority [OF add_order_ref [OF assms] ok]
  show ?thesis using pr by (simp add: report_fill_def)
qed

theorem add_order_price_time_priority_witness:
  "\<exists>b' rs. add_order (sample_order 6 Buy Limit 101 16 0) sample_book = Some (True, b', rs) \<and> length rs = 3 \<and>
     takes_prefix (sample_order 6 Buy Limit 101 16 0) (priced (ref_side False (abs_book sample_book))) (map report_fill rs)"
proof -
  let ?od = "sample_order 6 Buy Limit 101 16 0"
  obtain acc rb' fs where ref: "ref_add kMaxLevels kMaxOrders ?od sample_ref = (acc, rb', fs)" by (metis prod_cases3)
  then obtain b' rs where b': "add_order ?od sample_book = Some (acc, b', rs)" "abs_book b' = rb'" "map report_fill rs = fs"
    by (rule sample_add)
  have "acc" "length fs = 3" using ref by (auto simp: sample_ref_def ref_eval)
  moreover have "is_buy ?od" by (simp add: is_buy_def sample_order_def)
  moreover have "length rs = length fs" using b'(3) by (metis length_map)
  ultimately show ?thesis
    using add_order_price_time_priority [OF sample_book_add b'(1)] b'(1) by auto
qed

text \<open>C10. Fill-or-kill is all or nothing: the order is accepted exactly when the opposite side holds its
  whole quantity within the limit and before any order of its own account, then it trades exactly that
  quantity; otherwise it trades nothing and the book is as before.\<close>

theorem fill_or_kill:
  assumes "book_inv b" "ob_match_cb b" "add_order od b = Some (acc, b', rs)" "o_type od = FOK"
  shows "(acc \<longleftrightarrow> unat (o_qty_remaining od) \<le> liquidity od (ref_side (\<not> is_buy od) (abs_book b))) \<and>
     (if acc then traded rs = unat (o_qty_remaining od) else abs_book b' = abs_book b \<and> rs = [])"
  using ref_add_fok [OF add_order_ref [OF assms(1-3)] assms(4)] by (auto simp: traded_fills)

theorem fill_or_kill_witness:
  "(\<exists>b' rs. add_order (sample_order 6 Buy FOK 101 22 0) sample_book = Some (True, b', rs) \<and> traded rs = 22) \<and>
   (\<exists>b'. add_order (sample_order 6 Buy FOK 101 23 0) sample_book = Some (False, b', []) \<and>
     abs_book b' = abs_book sample_book)"
proof -
  have liq: "liquidity (sample_order 6 Buy FOK 101 n 0) (ref_side False sample_ref) = 22" for n
    by (simp add: sample_ref_def ref_eval)
  have fok: "o_type (sample_order 6 Buy FOK 101 n 0) = FOK" "is_buy (sample_order 6 Buy FOK 101 n 0)"
    "o_qty_remaining (sample_order 6 Buy FOK 101 n 0) = n" for n
    by (simp_all add: sample_order_def is_buy_def)
  obtain a1 b1 r1 where b1: "add_order (sample_order 6 Buy FOK 101 22 0) sample_book = Some (a1, b1, r1)"
    using sample_add by (metis prod_cases3)
  obtain a2 b2 r2 where b2: "add_order (sample_order 6 Buy FOK 101 23 0) sample_book = Some (a2, b2, r2)"
    using sample_add by (metis prod_cases3)
  show ?thesis
    using fill_or_kill [OF sample_book_add b1 fok(1)] fill_or_kill [OF sample_book_add b2 fok(1)] b1 b2
    by (simp add: fok sample_book_ok(2) liq)
qed

text \<open>C11. Nothing of a market, immediate-or-cancel or fill-or-kill order ever rests, and nothing of a rejected
  order: its own side of the book is as before.  A limit order is rejected only when its remainder
  finds no free slot or would need a level beyond the limit, and rejections are counted.\<close>

theorem never_rests_or_rejected:
  assumes "book_inv b" "ob_match_cb b" "add_order od b = Some (acc, b', rs)"
  shows "(never_rests od \<or> \<not> acc \<longrightarrow> ref_side (is_buy od) (abs_book b') = ref_side (is_buy od) (abs_book b)) \<and>
     (\<not> never_rests od \<and> \<not> acc \<longrightarrow> at_capacity od kMaxLevels kMaxOrders (abs_book b')) \<and>
     ob_stat_rejected b' = ob_stat_rejected b + of_bool (\<not> acc)"
proof -
  note ref = add_order_ref [OF assms]
  have "\<not> never_rests od \<and> \<not> acc \<longrightarrow> at_capacity od kMaxLevels kMaxOrders (abs_book b')"
    using ref by (cases rule: ref_add_cases) (auto simp: never_rests_def)
  moreover obtain b1 where "add_order od b = Some (acc, b1, emitted b od (o_qty_remaining od) (map report_fill rs))"
    "counted b acc (walled od (abs_book b)) (length (map report_fill rs)) b1"
    using assms(1) ref by (rule add_order_result)
  with assms(3) have "ob_stat_rejected b' = ob_stat_rejected b + of_bool (\<not> acc)" by (simp add: counted_def)
  ultimately show ?thesis using ref_add_not_resting [OF ref] by blast
qed

theorem never_rests_or_rejected_witness:
  "\<exists>b' rs. add_order (sample_order 6 Buy IOC 100 40 0) sample_book = Some (True, b', rs) \<and>
     rb_bids (abs_book b') = rb_bids (abs_book sample_book)"
proof -
  let ?od = "sample_order 6 Buy IOC 100 40 0"
  obtain acc rb' fs where ref: "ref_add kMaxLevels kMaxOrders ?od sample_ref = (acc, rb', fs)" by (metis prod_cases3)
  then obtain b' rs where b': "add_order ?od sample_book = Some (acc, b', rs)" by (rule sample_add)
  have acc using ref by (auto simp: sample_ref_def ref_eval)
  moreover have "never_rests ?od" "is_buy ?od" by (simp_all add: never_rests_def sample_order_def is_buy_def)
  ultimately show ?thesis
    using never_rests_or_rejected [OF sample_book_add b'] b' by (simp add: ref_side_def)
qed

text \<open>C12. Self-trade prevention: an order of a non-zero account leaves every resting order of the same account
  exactly as it was, and when it stops at one with quantity left the remainder is dropped and counted.\<close>

theorem no_self_trade:
  assumes "book_inv b" "ob_match_cb b" "add_order od b = Some (acc, b', rs)" "o_account_id od \<noteq> 0"
  shows "filter (\<lambda>(px, r). ro_account r = o_account_id od) (priced (ref_side (\<not> is_buy od) (abs_book b')))
      = filter (\<lambda>(px, r). ro_account r = o_account_id od) (priced (ref_side (\<not> is_buy od) (abs_book b))) \<and>
     ob_stat_self_trade_prevented b' = ob_stat_self_trade_prevented b + of_bool (walled od (abs_book b))"
proof -
  note ref = add_order_ref [OF assms(1-3)]
  have eq: "(\<lambda>(px :: Price, r). ro_account r = o_account_id od) = (\<lambda>(px, r). ref_wall od r)"
    using assms(4) by (auto simp: ref_wall_def fun_eq_iff)
  have "filter (\<lambda>(px, r). ro_account r = o_account_id od) (priced (ref_side (\<not> is_buy od) (abs_book b')))
      = filter (\<lambda>(px, r). ro_account r = o_account_id od) (priced (ref_side (\<not> is_buy od) (abs_book b)))"
    unfolding eq by (rule ref_add_own [OF ref])
  moreover obtain b1 where "add_order od b = Some (acc, b1, emitted b od (o_qty_remaining od) (map report_fill rs))"
    "counted b acc (walled od (abs_book b)) (length (map report_fill rs)) b1"
    using assms(1) ref by (rule add_order_result)
  with assms(3) have "ob_stat_self_trade_prevented b' = ob_stat_self_trade_prevented b + of_bool (walled od (abs_book b))"
    by (simp add: counted_def)
  ultimately show ?thesis by blast
qed

theorem no_self_trade_witness:
  "\<exists>b' rs. add_order (sample_order 6 Buy Limit 101 12 2) sample_book = Some (True, b', rs) \<and> length rs = 1 \<and>
     ob_stat_self_trade_prevented b' = ob_stat_self_trade_prevented sample_book + 1 \<and>
     filter (\<lambda>(px, r). ro_account r = 2) (priced (ref_side False (abs_book b'))) = [(100, \<lparr>ro_id = 2, ro_rem = 5, ro_account = 2\<rparr>)]"
proof -
  let ?od = "sample_order 6 Buy Limit 101 12 2"
  obtain acc rb' fs where ref: "ref_add kMaxLevels kMaxOrders ?od sample_ref = (acc, rb', fs)" by (metis prod_cases3)
  then obtain b' rs where b': "add_order ?od sample_book = Some (acc, b', rs)" "map report_fill rs = fs"
    by (rule sample_add)
  have acc "length fs = 1" using ref by (auto simp: sample_ref_def ref_eval)
  moreover have "length rs = length fs" using b'(2) by (metis length_map)
  moreover have "walled ?od sample_ref" by (simp add: walled_def sample_ref_def ref_eval)
  moreover have od: "is_buy ?od" "o_account_id ?od = 2" by (simp_all add: is_buy_def sample_order_def)
  ultimately show ?thesis
    using no_self_trade [OF sample_book_add b'(1)] b'(1)
    by (simp add: sample_book_ok(2)) (simp add: sample_ref_def ref_side_def)
qed

definition level_summary :: "Price \<times> RefOrder list \<Rightarrow> Price \<times> Qty \<times> u32" where
  "level_summary l = (fst l, sum_list (map ro_rem (snd l)), of_nat (length (snd l)))"

lemma side_depth_rep:
  assumes "book_inv b"
  shows "map (\<lambda>pl. (pl_price pl, pl_total_qty pl, pl_order_count pl)) (side_depth (book_side d b) k)
    = take k (map level_summary (ref_side d (abs_book b)))"
proof -
  obtain L L' F where rep: "book_rep d b L L' F" using assms book_inv_iff by blast
  have la: "list_all2 (level_rep (ob_slots b)) (levels (book_side d b)) L"
    using rep by (simp add: book_rep_def side_rep_def)
  have "map level_summary (abs_levels (ob_slots b) ls M) = map (\<lambda>l. (lv_price l, lv_qty l, lv_count l)) ls"
    if "list_all2 (level_rep (ob_slots b)) ls M" for ls M
    using that by (induction rule: list_all2_induct) (auto simp: level_summary_def level_rep_def comp_def)
  from this [OF la] show ?thesis
    unfolding abs_book_rep(1) [OF rep]
    by (auto simp: side_depth_def levels_def take_map comp_def min_def take_upt)
qed

text \<open>C13. \<^verbatim>\<open>bid_depth\<close> and \<^verbatim>\<open>ask_depth\<close> write the first levels of a reachable book in priority order, as
  many as fit: price, total modulo \<open>2 ^ 32\<close>, and number of orders.\<close>

theorem depth_correct:
  assumes "book_reach b"
  shows "map (\<lambda>pl. (pl_price pl, pl_total_qty pl, pl_order_count pl)) (bid_depth b k) = take k (map level_summary (rb_bids (abs_book b))) \<and>
     map (\<lambda>pl. (pl_price pl, pl_total_qty pl, pl_order_count pl)) (ask_depth b k) = take k (map level_summary (rb_asks (abs_book b)))"
  using side_depth_rep [of b True k] side_depth_rep [of b False k] reach_inv [OF assms]
  by (simp add: bid_depth_def ask_depth_def ref_side_def book_side_def)

theorem depth_correct_witness:
  "book_reach sample_book \<and>
   map (\<lambda>pl. (pl_price pl, pl_total_qty pl, pl_order_count pl)) (ask_depth sample_book 1) = [(100, 15, 2)]"
  using depth_correct [OF sample_book_reach, of 1] sample_book_reach
  by (simp add: sample_book_ok(2) sample_ref_def level_summary_def)

end
