(* ===== verification/Fifo.thy ===== *)
theory Fifo
  imports Prelude
begin

text \<open>
  The contract of a bounded first-in first-out queue, as the engine's threads rely on it: a push is
  refused exactly when the queue is full and otherwise appends, a pop is refused exactly when it is
  empty and otherwise removes the front.  \<open>holds q xs\<close> says that \<open>q\<close> contains \<open>xs\<close>, front first.  Also
  the arithmetic of power-of-two capacities that the ring buffers share.
\<close>

unbundle bit_operations_syntax

subsection \<open>Power-of-two capacities\<close>

text \<open>The constraint of both queue templates: \<^verbatim>\<open>Capacity > 1 && (Capacity & (Capacity - 1)) == 0\<close>.\<close>

definition valid_capacity :: "u64 \<Rightarrow> bool" where
  "valid_capacity cap = (cap > 1 \<and> cap AND (cap - 1) = 0)"

lemma and_pred_even: "even n \<Longrightarrow> 0 < n \<Longrightarrow> n AND (n - 1) = 2 * ((n div 2) AND (n div 2 - 1))" for n :: nat
proof -
  assume "even n" "0 < n"
  then obtain m where m: "n = 2 * m" "0 < m" by auto
  then have "(n - 1) div 2 = m - 1" "odd (n - 1)" by auto
  then show ?thesis using m by (subst and_rec) simp
qed

lemma and_pred_odd: "odd n \<Longrightarrow> n AND (n - 1) = 2 * (n div 2)" for n :: nat
proof -
  assume "odd n"
  then obtain m where "n = 2 * m + 1" by (elim oddE)
  then show ?thesis by (subst and_rec) simp
qed

lemma power_of_two_nat: "0 < n \<Longrightarrow> n AND (n - 1) = 0 \<Longrightarrow> \<exists>k. n = 2 ^ k" for n :: nat
proof (induction n rule: less_induct)
  case (less n)
  show ?case
  proof (cases "even n")
    case True
    then have "(n div 2) AND (n div 2 - 1) = 0" using and_pred_even less.prems by simp
    moreover have "0 < n div 2" "n div 2 < n" using True less.prems by auto
    ultimately obtain k where "n div 2 = 2 ^ k" using less.IH [of "n div 2"] by blast
    then have "n = 2 ^ Suc k" using True by auto
    then show ?thesis by blast
  next
    case False
    then have "n = 1" using and_pred_odd less.prems by (auto elim: oddE)
    then have "n = 2 ^ 0" by simp
    then show ?thesis by blast
  qed
qed

lemma valid_capacity_power:
  assumes "valid_capacity cap"
  obtains k where "0 < k" "k < 64" "unat cap = 2 ^ k" "cap - 1 = mask k"
proof -
  have gt: "1 < unat cap" using assms by (simp add: valid_capacity_def word_less_nat_alt)
  then have "unat (cap - 1) = unat cap - 1" by (simp add: unat_sub word_le_nat_alt)
  moreover have "unat (cap AND (cap - 1)) = unat cap AND unat (cap - 1)" by (rule unsigned_and_eq)
  ultimately have "unat cap AND (unat cap - 1) = 0" using assms by (simp add: valid_capacity_def)
  then obtain k where k: "unat cap = 2 ^ k" using power_of_two_nat [of "unat cap"] gt by auto
  have "k < 64"
  proof (rule ccontr)
    assume "\<not> k < 64"
    then have "(2 :: nat) ^ 64 \<le> 2 ^ k" by (intro power_increasing) auto
    then show False using unsigned_less [of cap, where 'a = nat] k by simp
  qed
  moreover have "0 < k" using gt k by (cases k) auto
  moreover have "cap = 2 ^ k"
  proof -
    have "cap = of_nat (unat cap)" by simp
    then show ?thesis unfolding k by simp
  qed
  ultimately show thesis using that k by (simp add: mask_eq_exp_minus_1)
qed

lemma unat_and_mask:
  assumes "valid_capacity cap"
  shows "unat (x AND (cap - 1)) = unat x mod unat cap"
proof -
  obtain k where "unat cap = 2 ^ k" "cap - 1 = mask k" using assms by (rule valid_capacity_power)
  then have "unat (x AND (cap - 1)) = take_bit k (unat x)"
    by (simp add: unsigned_take_bit_eq flip: take_bit_eq_mask)
  then show ?thesis using \<open>unat cap = 2 ^ k\<close> by (simp add: take_bit_eq_mod)
qed

subsection \<open>The contract\<close>

locale bounded_fifo =
  fixes holds :: "'q \<Rightarrow> 'a list \<Rightarrow> bool"
    and push :: "'a \<Rightarrow> 'q \<Rightarrow> bool \<times> 'q"
    and pop :: "'q \<Rightarrow> 'a option \<times> 'q"
    and room :: nat
  assumes bounded: "holds q xs \<Longrightarrow> length xs \<le> room"
    and push_room: "holds q xs \<Longrightarrow> length xs < room \<Longrightarrow> \<exists>q'. push x q = (True, q') \<and> holds q' (xs @ [x])"
    and push_full: "holds q xs \<Longrightarrow> length xs = room \<Longrightarrow> push x q = (False, q)"
    and pop_Nil: "holds q [] \<Longrightarrow> pop q = (None, q)"
    and pop_Cons: "holds q (x # xs) \<Longrightarrow> \<exists>q'. pop q = (Some x, q') \<and> holds q' xs"
begin

lemma push_cases:
  assumes "holds q xs"
  obtains q' where "push x q = (length xs < room, q')" "holds q' (if length xs < room then xs @ [x] else xs)"
  using assms push_room [OF assms, of x] push_full [OF assms, of x] bounded [OF assms]
  by (cases "length xs < room") fastforce+

lemma pop_cases:
  assumes "holds q xs"
  obtains q' where "pop q = (case xs of [] \<Rightarrow> None | x # _ \<Rightarrow> Some x, q')" "holds q' (tl xs)"
  using assms pop_Nil pop_Cons by (cases xs) fastforce+

text \<open>\<open>push_all\<close> offers a list of items in turn, \<open>pop_n\<close> polls \<open>n\<close> times or until empty.\<close>

primrec push_all :: "'a list \<Rightarrow> 'q \<Rightarrow> 'q" where
  "push_all [] q = q"
| "push_all (x # xs) q = push_all xs (snd (push x q))"

primrec pop_n :: "nat \<Rightarrow> 'q \<Rightarrow> 'a list \<times> 'q" where
  "pop_n 0 q = ([], q)"
| "pop_n (Suc n) q = (case pop q of (None, q') \<Rightarrow> ([], q')
     | (Some x, q') \<Rightarrow> (let (ys, q'') = pop_n n q' in (x # ys, q'')))"

text \<open>What does not fit is lost, and it is always the newest items that are lost.\<close>

lemma push_all_holds: "holds q xs \<Longrightarrow> holds (push_all ys q) (xs @ take (room - length xs) ys)"
proof (induction ys arbitrary: q xs)
  case (Cons y ys)
  obtain q' where q': "push y q = (length xs < room, q')" "holds q' (if length xs < room then xs @ [y] else xs)"
    using Cons.prems by (rule push_cases)
  show ?case
  proof (cases "length xs < room")
    case True
    then have "take (room - length xs) (y # ys) = y # take (room - length (xs @ [y])) ys"
      by (simp add: take_Cons' Suc_diff_Suc)
    with True q' Cons.IH [of q' "xs @ [y]"] show ?thesis by simp
  next
    case False
    with q' Cons.IH [of q' xs] show ?thesis by simp
  qed
qed simp

lemma pop_n_holds: "holds q xs \<Longrightarrow> fst (pop_n n q) = take n xs \<and> holds (snd (pop_n n q)) (drop n xs)"
proof (induction n arbitrary: q xs)
  case (Suc n)
  obtain q' where q': "pop q = (case xs of [] \<Rightarrow> None | x # _ \<Rightarrow> Some x, q')" "holds q' (tl xs)"
    using Suc.prems by (rule pop_cases)
  with Suc.IH [OF q'(2)] show ?case by (cases xs) (auto simp: case_prod_unfold)
qed simp

text \<open>First in, first out: pushing into an empty queue and polling gives the items back in order.\<close>

lemma fifo_roundtrip:
  assumes "holds q []" "length ys \<le> room"
  shows "fst (pop_n (length ys) (push_all ys q)) = ys"
  using pop_n_holds [OF push_all_holds [OF assms(1)], of "length ys" ys] assms(2) by simp

end

end
