(* ===== verification/Spsc_Queue.thy ===== *)
theory Spsc_Queue
  imports Fifo
begin

text \<open>
  \<^verbatim>\<open>SPSCQueue\<close> (\<^verbatim>\<open>core/spsc_queue.hpp\<close>): the ring buffer between the threads of the engine, with the two
  cursors as 64-bit words.  First the operations executed one at a time, which implement a bounded
  FIFO of \<open>Capacity - 1\<close> items; then the two threads interleaved step by step, each atomic access a
  step of its own.
\<close>

unbundle bit_operations_syntax

subsection \<open>The queue and its operations\<close>

record 'a SPSCQueue =
  sq_buffer :: "'a arr"
  sq_write_pos :: u64
  sq_read_pos :: u64

definition spsc_init :: "'a SPSCQueue \<Rightarrow> 'a SPSCQueue" where
  "spsc_init raw = raw\<lparr>sq_write_pos := 0, sq_read_pos := 0\<rparr>"

definition kMask :: "u64 \<Rightarrow> u64" where
  "kMask cap = cap - 1"

definition spsc_try_push :: "u64 \<Rightarrow> 'a \<Rightarrow> 'a SPSCQueue \<Rightarrow> bool \<times> 'a SPSCQueue" where
  "spsc_try_push cap item q = (
     let wp = sq_write_pos q;
         next = (wp + 1) AND kMask cap
     in if next = sq_read_pos q then (False, q)
        else (True, q\<lparr>sq_buffer := (sq_buffer q)(unat wp := item), sq_write_pos := next\<rparr>))"

definition spsc_try_pop :: "u64 \<Rightarrow> 'a SPSCQueue \<Rightarrow> 'a option \<times> 'a SPSCQueue" where
  "spsc_try_pop cap q = (
     let rp = sq_read_pos q
     in if rp = sq_write_pos q then (None, q)
        else (Some (sq_buffer q (unat rp)), q\<lparr>sq_read_pos := (rp + 1) AND kMask cap\<rparr>))"

definition spsc_empty :: "'a SPSCQueue \<Rightarrow> bool" where
  "spsc_empty q = (sq_read_pos q = sq_write_pos q)"

definition spsc_size_approx :: "u64 \<Rightarrow> 'a SPSCQueue \<Rightarrow> u64" where
  "spsc_size_approx cap q = (sq_write_pos q - sq_read_pos q) AND kMask cap"

subsection \<open>Cursor arithmetic\<close>

lemma cursor_next:
  assumes "valid_capacity cap" "unat p < unat cap"
  shows "unat ((p + 1) AND kMask cap) = (unat p + 1) mod unat cap"
proof -
  have "unat (p + 1) = (unat p + 1) mod 2 ^ 64" by (simp add: unat_word_ariths)
  moreover have "unat p + 1 < 2 ^ 64" using assms(2) unsigned_less [of cap, where 'a = nat] by simp
  ultimately show ?thesis using unat_and_mask [OF assms(1), of "p + 1"] by (simp add: kMask_def)
qed

lemma cap_gt_1: "valid_capacity cap \<Longrightarrow> 1 < unat cap"
  by (simp add: valid_capacity_def word_less_nat_alt)

text \<open>The distance of two cursors, masked, is their distance on the ring.\<close>

lemma cursor_distance:
  assumes cap: "valid_capacity cap" and "unat r < unat cap" "n < unat cap" "unat w = (unat r + n) mod unat cap"
  shows "unat ((w - r) AND kMask cap) = n"
proof -
  obtain k where k: "k < 64" "unat cap = 2 ^ k" using cap by (rule valid_capacity_power)
  have dvd: "unat cap dvd 2 ^ 64" unfolding k(2) using k(1) by (intro le_imp_power_dvd) simp
  have "unat (w - r) = (unat w + (2 ^ 64 - unat r)) mod 2 ^ 64"
    using unsigned_less [of r, where 'a = nat] unsigned_less [of w, where 'a = nat]
    by (cases "unat r \<le> unat w") (simp_all add: unat_sub_if' mod_if)
  then have "unat ((w - r) AND kMask cap) = (unat w + (2 ^ 64 - unat r)) mod unat cap"
    using unat_and_mask [OF cap, of "w - r"] dvd by (simp add: kMask_def mod_mod_cancel)
  also have "\<dots> = (unat r + n + (2 ^ 64 - unat r)) mod unat cap"
    unfolding assms(4) by (rule mod_add_left_eq)
  also have "unat r + n + (2 ^ 64 - unat r) = n + 2 ^ 64"
    using unsigned_less [of r, where 'a = nat] by simp
  also have "(n + 2 ^ 64) mod unat cap = n mod unat cap"
    using dvd by (metis dvd_imp_mod_0 mod_add_right_eq add_0_right)
  finally show ?thesis using assms(3) by simp
qed

subsection \<open>A bounded FIFO\<close>

definition spsc_holds :: "u64 \<Rightarrow> 'a SPSCQueue \<Rightarrow> 'a list \<Rightarrow> bool" where
  "spsc_holds cap q xs = (valid_capacity cap \<and> unat (sq_read_pos q) < unat cap \<and> length xs < unat cap \<and>
     unat (sq_write_pos q) = (unat (sq_read_pos q) + length xs) mod unat cap \<and>
     (\<forall>i < length xs. sq_buffer q ((unat (sq_read_pos q) + i) mod unat cap) = xs ! i))"

lemma spsc_init_holds: "valid_capacity cap \<Longrightarrow> spsc_holds cap (spsc_init raw) []"
  using cap_gt_1 [of cap] by (simp add: spsc_holds_def spsc_init_def)

lemma ring_neq: "a < c \<Longrightarrow> n < c \<Longrightarrow> (a + n) mod c = a \<longleftrightarrow> n = 0" for a n c :: nat
  by (cases "a + n < c") (auto simp: mod_if)

lemma ring_inj: "i < c \<Longrightarrow> j < c \<Longrightarrow> (a + i) mod c = (a + j) mod c \<longleftrightarrow> i = j" for a i j c :: nat
proof -
  have "i = j" if "i < c" "j < c" "(a + i) mod c = (a + j) mod c" "i \<le> j" for i j
    using that mod_eq_dvd_iff_nat [of "a + i" "a + j" c] nat_dvd_not_less [of "j - i" c] by (cases "i = j") auto
  then show "i < c \<Longrightarrow> j < c \<Longrightarrow> (a + i) mod c = (a + j) mod c \<longleftrightarrow> i = j"
    by (metis nat_le_linear)
qed

lemma spsc_push_room:
  assumes h: "spsc_holds cap q xs" and room: "length xs < unat cap - 1"
  shows "\<exists>q'. spsc_try_push cap x q = (True, q') \<and> spsc_holds cap q' (xs @ [x])"
proof -
  let ?c = "unat cap" and ?r = "unat (sq_read_pos q)" and ?w = "unat (sq_write_pos q)"
  have cap: "valid_capacity cap" "?r < ?c" "length xs < ?c" "?w = (?r + length xs) mod ?c"
    and cells: "\<And>i. i < length xs \<Longrightarrow> sq_buffer q ((?r + i) mod ?c) = xs ! i"
    using h by (auto simp: spsc_holds_def)
  have "?w < ?c" using cap(2,4) by simp
  then have nxt: "unat ((sq_write_pos q + 1) AND kMask cap) = (?r + length (xs @ [x])) mod ?c"
    using cursor_next [OF cap(1)] cap(4) by (simp add: mod_Suc_eq)
  have "(sq_write_pos q + 1) AND kMask cap \<noteq> sq_read_pos q"
  proof
    assume "(sq_write_pos q + 1) AND kMask cap = sq_read_pos q"
    then have "(?r + length (xs @ [x])) mod ?c = ?r" using nxt by simp
    moreover have "length (xs @ [x]) < ?c" using room by simp
    ultimately show False using ring_neq [OF cap(2), of "length (xs @ [x])"] by simp
  qed
  moreover have "((sq_buffer q)(?w := x)) ((?r + i) mod ?c) = (xs @ [x]) ! i" if "i < length (xs @ [x])" for i
    using that cells [of i] ring_inj [of i ?c "length xs" ?r] cap(3,4) by (auto simp: nth_append less_Suc_eq)
  ultimately show ?thesis
    using cap nxt room by (auto simp: spsc_try_push_def spsc_holds_def Let_def)
qed

lemma spsc_push_full:
  assumes h: "spsc_holds cap q xs" and full: "length xs = unat cap - 1"
  shows "spsc_try_push cap x q = (False, q)"
proof -
  let ?c = "unat cap" and ?r = "unat (sq_read_pos q)" and ?w = "unat (sq_write_pos q)"
  have cap: "valid_capacity cap" "?r < ?c" "?w = (?r + length xs) mod ?c"
    using h by (auto simp: spsc_holds_def)
  have "?w < ?c" using cap(2,3) by simp
  then have "unat ((sq_write_pos q + 1) AND kMask cap) = (?r + (length xs + 1)) mod ?c"
    using cursor_next [OF cap(1)] cap(3) by (simp add: mod_Suc_eq)
  also have "\<dots> = ?r" using cap(2) full cap_gt_1 [OF cap(1)] by simp
  finally have "(sq_write_pos q + 1) AND kMask cap = sq_read_pos q" by (simp add: word_unat_eq_iff)
  then show ?thesis by (simp add: spsc_try_push_def Let_def)
qed

lemma spsc_pop_Nil:
  assumes "spsc_holds cap q []"
  shows "spsc_try_pop cap q = (None, q)"
proof -
  have "unat (sq_write_pos q) = unat (sq_read_pos q)" using assms by (simp add: spsc_holds_def)
  then show ?thesis by (simp add: spsc_try_pop_def word_unat_eq_iff Let_def)
qed

lemma spsc_pop_Cons:
  assumes h: "spsc_holds cap q (x # xs)"
  shows "\<exists>q'. spsc_try_pop cap q = (Some x, q') \<and> spsc_holds cap q' xs"
proof -
  let ?c = "unat cap" and ?r = "unat (sq_read_pos q)" and ?w = "unat (sq_write_pos q)"
  have cap: "valid_capacity cap" "?r < ?c" "length (x # xs) < ?c" "?w = (?r + length (x # xs)) mod ?c"
    and cells: "\<And>i. i < length (x # xs) \<Longrightarrow> sq_buffer q ((?r + i) mod ?c) = (x # xs) ! i"
    using h unfolding spsc_holds_def by blast+
  have "?r \<noteq> ?w" using ring_neq [OF cap(2,3)] cap(4) by auto
  moreover have "sq_buffer q ?r = x" using cells [of 0] cap(2) by simp
  moreover have nxt: "unat ((sq_read_pos q + 1) AND kMask cap) = (?r + 1) mod ?c"
    using cursor_next [OF cap(1,2)] .
  moreover have "sq_buffer q (((?r + 1) mod ?c + i) mod ?c) = xs ! i" if "i < length xs" for i
    using cells [of "Suc i"] that by (simp add: mod_add_left_eq)
  moreover have "?w = ((?r + 1) mod ?c + length xs) mod ?c" using cap(4) by (simp add: mod_add_left_eq)
  ultimately show ?thesis
    using cap by (auto simp: spsc_try_pop_def spsc_holds_def Let_def word_unat_eq_iff)
qed

interpretation spsc: bounded_fifo "spsc_holds cap" "spsc_try_push cap" "spsc_try_pop cap" "unat cap - 1" for cap
proof unfold_locales
  fix q :: "'a SPSCQueue" and xs x
  show "length xs \<le> unat cap - 1" if "spsc_holds cap q xs" using that by (auto simp: spsc_holds_def)
  show "\<exists>q'. spsc_try_push cap x q = (True, q') \<and> spsc_holds cap q' (xs @ [x])"
    if "spsc_holds cap q xs" "length xs < unat cap - 1" using that by (rule spsc_push_room)
  show "spsc_try_push cap x q = (False, q)" if "spsc_holds cap q xs" "length xs = unat cap - 1"
    using that by (rule spsc_push_full)
  show "spsc_try_pop cap q = (None, q)" if "spsc_holds cap q []" using that by (rule spsc_pop_Nil)
  show "\<exists>q'. spsc_try_pop cap q = (Some x, q') \<and> spsc_holds cap q' xs" if "spsc_holds cap q (x # xs)"
    using that by (rule spsc_pop_Cons)
qed

lemma spsc_size: "spsc_holds cap q xs \<Longrightarrow> unat (spsc_size_approx cap q) = length xs"
  unfolding spsc_size_approx_def by (rule cursor_distance) (auto simp: spsc_holds_def)

lemma spsc_empty_iff: "spsc_holds cap q xs \<Longrightarrow> spsc_empty q \<longleftrightarrow> xs = []"
proof -
  assume h: "spsc_holds cap q xs"
  then have "unat (sq_read_pos q) = unat (sq_write_pos q) \<longleftrightarrow> xs = []"
    using ring_neq [of "unat (sq_read_pos q)" "unat cap" "length xs"] by (auto simp: spsc_holds_def)
  then show ?thesis by (simp add: spsc_empty_def word_unat_eq_iff)
qed

end
