(* ===== verification/Spsc_Threads.thy ===== *)
theory Spsc_Threads
  imports Spsc_Queue "HOL-Library.Sublist"
begin

text \<open>
  \<^verbatim>\<open>SPSCQueue\<close> with its producer and its consumer thread running at the same time.  Every access to a
  shared variable is one step of a transition relation and the two threads interleave freely; the
  release and acquire operations of the code are what makes accesses appear in this order.  A step
  of the producer is one line of \<^verbatim>\<open>try_push\<close>, a step of the consumer one line of \<^verbatim>\<open>try_pop\<close>.
\<close>

unbundle bit_operations_syntax

subsection \<open>Threads\<close>

text \<open>Where a thread stands, with its local variables.\<close>

datatype 'a producer = PIdle | PCheck 'a u64 | PWrite 'a u64 | PPublish 'a u64

datatype 'a consumer = CIdle | CCheck u64 | CRead u64 | CPublish u64 'a

text \<open>\<open>th_sent\<close> and \<open>th_received\<close> record the items of the calls that returned true.\<close>

record 'a Threads =
  th_queue :: "'a SPSCQueue"
  th_prod :: "'a producer"
  th_cons :: "'a consumer"
  th_sent :: "'a list"
  th_received :: "'a list"

inductive spsc_step :: "u64 \<Rightarrow> 'a Threads \<Rightarrow> 'a Threads \<Rightarrow> bool" for cap where
  push_call: "th_prod s = PIdle \<Longrightarrow>
     spsc_step cap s (s\<lparr>th_prod := PCheck x (sq_write_pos (th_queue s))\<rparr>)"
| push_refused: "th_prod s = PCheck x wp \<Longrightarrow> (wp + 1) AND kMask cap = sq_read_pos (th_queue s) \<Longrightarrow>
     spsc_step cap s (s\<lparr>th_prod := PIdle\<rparr>)"
| push_room: "th_prod s = PCheck x wp \<Longrightarrow> (wp + 1) AND kMask cap \<noteq> sq_read_pos (th_queue s) \<Longrightarrow>
     spsc_step cap s (s\<lparr>th_prod := PWrite x wp\<rparr>)"
| push_write: "th_prod s = PWrite x wp \<Longrightarrow>
     spsc_step cap s (s\<lparr>th_queue := (th_queue s)\<lparr>sq_buffer := (sq_buffer (th_queue s))(unat wp := x)\<rparr>,
       th_prod := PPublish x wp\<rparr>)"
| push_publish: "th_prod s = PPublish x wp \<Longrightarrow>
     spsc_step cap s (s\<lparr>th_queue := (th_queue s)\<lparr>sq_write_pos := (wp + 1) AND kMask cap\<rparr>,
       th_prod := PIdle, th_sent := th_sent s @ [x]\<rparr>)"
| pop_call: "th_cons s = CIdle \<Longrightarrow>
     spsc_step cap s (s\<lparr>th_cons := CCheck (sq_read_pos (th_queue s))\<rparr>)"
| pop_refused: "th_cons s = CCheck rp \<Longrightarrow> rp = sq_write_pos (th_queue s) \<Longrightarrow>
     spsc_step cap s (s\<lparr>th_cons := CIdle\<rparr>)"
| pop_some: "th_cons s = CCheck rp \<Longrightarrow> rp \<noteq> sq_write_pos (th_queue s) \<Longrightarrow>
     spsc_step cap s (s\<lparr>th_cons := CRead rp\<rparr>)"
| pop_read: "th_cons s = CRead rp \<Longrightarrow>
     spsc_step cap s (s\<lparr>th_cons := CPublish rp (sq_buffer (th_queue s) (unat rp))\<rparr>)"
| pop_publish: "th_cons s = CPublish rp v \<Longrightarrow>
     spsc_step cap s (s\<lparr>th_queue := (th_queue s)\<lparr>sq_read_pos := (rp + 1) AND kMask cap\<rparr>,
       th_cons := CIdle, th_received := th_received s @ [v]\<rparr>)"

definition spsc_start :: "'a SPSCQueue \<Rightarrow> 'a Threads" where
  "spsc_start raw = \<lparr>th_queue = spsc_init raw, th_prod = PIdle, th_cons = CIdle, th_sent = [], th_received = []\<rparr>"

inductive spsc_reach :: "u64 \<Rightarrow> 'a Threads \<Rightarrow> bool" for cap where
  start: "spsc_reach cap (spsc_start raw)"
| step: "spsc_reach cap s \<Longrightarrow> spsc_step cap s s' \<Longrightarrow> spsc_reach cap s'"

subsection \<open>Invariant\<close>

text \<open>\<open>ring\<close>: the cursors are the numbers of items sent and received, modulo the capacity, and the cells
  between them hold the items in transit.\<close>

definition ring :: "nat \<Rightarrow> 'a Threads \<Rightarrow> bool" where
  "ring c s = (let q = th_queue s; m = length (th_sent s); n = length (th_received s)
     in unat (sq_write_pos q) = m mod c \<and> unat (sq_read_pos q) = n mod c \<and> n \<le> m \<and> m < n + c \<and>
        th_received s = take n (th_sent s) \<and>
        (\<forall>i. n \<le> i \<and> i < m \<longrightarrow> sq_buffer q (i mod c) = th_sent s ! i))"

definition prod_ok :: "nat \<Rightarrow> 'a Threads \<Rightarrow> bool" where
  "prod_ok c s = (let q = th_queue s; m = length (th_sent s); n = length (th_received s)
     in case th_prod s of PIdle \<Rightarrow> True
        | PCheck x wp \<Rightarrow> wp = sq_write_pos q
        | PWrite x wp \<Rightarrow> wp = sq_write_pos q \<and> m + 1 < n + c
        | PPublish x wp \<Rightarrow> wp = sq_write_pos q \<and> m + 1 < n + c \<and> sq_buffer q (m mod c) = x)"

definition cons_ok :: "'a Threads \<Rightarrow> bool" where
  "cons_ok s = (let q = th_queue s; m = length (th_sent s); n = length (th_received s)
     in case th_cons s of CIdle \<Rightarrow> True
        | CCheck rp \<Rightarrow> rp = sq_read_pos q
        | CRead rp \<Rightarrow> rp = sq_read_pos q \<and> n < m
        | CPublish rp v \<Rightarrow> rp = sq_read_pos q \<and> n < m \<and> v = th_sent s ! n)"

definition threads_inv :: "u64 \<Rightarrow> 'a Threads \<Rightarrow> bool" where
  "threads_inv cap s = (ring (unat cap) s \<and> prod_ok (unat cap) s \<and> cons_ok s)"

lemmas threads_defs = threads_inv_def ring_def prod_ok_def cons_ok_def Let_def

lemma start_inv: "valid_capacity cap \<Longrightarrow> threads_inv cap (spsc_start raw)"
  using cap_gt_1 [of cap] by (simp add: threads_defs spsc_start_def spsc_init_def)

lemma mod_inj_window: "i mod c = j mod c \<Longrightarrow> i \<le> j \<Longrightarrow> j < i + c \<Longrightarrow> i = j" for i j c :: nat
  using mod_eq_dvd_iff_nat [of i j c] nat_dvd_not_less [of "j - i" c] by (cases "i = j") auto

lemma cursor_step:
  assumes "valid_capacity cap" "unat p = m mod unat cap"
  shows "unat ((p + 1) AND kMask cap) = (m + 1) mod unat cap"
  using cursor_next [OF assms(1), of p] assms(2) cap_gt_1 [OF assms(1)] by (simp add: mod_Suc_eq)

lemma step_inv:
  assumes cap: "valid_capacity cap" and st: "spsc_step cap s s'" and inv: "threads_inv cap s"
  shows "threads_inv cap s'"
  using st
proof cases
  case (push_room x wp)
  let ?c = "unat cap" and ?m = "length (th_sent s)" and ?n = "length (th_received s)"
  have wr: "wp = sq_write_pos (th_queue s)" "unat wp = ?m mod ?c" "unat (sq_read_pos (th_queue s)) = ?n mod ?c"
    "?n \<le> ?m" "?m < ?n + ?c" using inv push_room(2) by (auto simp: threads_defs)
  have "?m + 1 \<noteq> ?n + ?c"
  proof
    assume "?m + 1 = ?n + ?c"
    then have "unat ((wp + 1) AND kMask cap) = ?n mod ?c" using cursor_step [OF cap wr(2)] by simp
    then show False using push_room(3) wr(3) by (simp add: word_unat_eq_iff)
  qed
  then show ?thesis using inv push_room wr(5) by (auto simp: threads_defs split: consumer.splits)
next
  case (push_write x wp)
  let ?c = "unat cap" and ?m = "length (th_sent s)" and ?n = "length (th_received s)"
  have wp: "unat wp = ?m mod ?c" "?m + 1 < ?n + ?c" using inv push_write(2) by (auto simp: threads_defs)
  have "i mod ?c \<noteq> ?m mod ?c" if "?n \<le> i" "i < ?m" for i
    using mod_inj_window [of i ?c ?m] that wp(2) by auto
  then show ?thesis using inv push_write wp by (auto simp: threads_defs split: consumer.splits)
next
  case (push_publish x wp)
  then show ?thesis
    using inv cursor_step [OF cap, of wp "length (th_sent s)"]
    by (auto simp: threads_defs nth_append less_Suc_eq split: consumer.splits)
next
  case (pop_some rp)
  let ?m = "length (th_sent s)" and ?n = "length (th_received s)" and ?q = "th_queue s"
  have "unat (sq_write_pos ?q) = ?m mod unat cap" "unat (sq_read_pos ?q) = ?n mod unat cap" "rp = sq_read_pos ?q" "?n \<le> ?m"
    using inv pop_some(2) by (auto simp: threads_defs)
  moreover from this pop_some(3) have "?n \<noteq> ?m" by (metis word_unat_eq_iff)
  ultimately have "?n < ?m" by simp
  then show ?thesis using inv pop_some by (auto simp: threads_defs split: producer.splits)
next
  case (pop_publish rp v)
  then show ?thesis
    using inv cursor_step [OF cap, of rp "length (th_received s)"]
    by (auto simp: threads_defs take_Suc_conv_app_nth split: producer.splits)
qed (use inv in \<open>auto simp: threads_defs split: producer.splits consumer.splits\<close>)

lemma reach_threads_inv: "valid_capacity cap \<Longrightarrow> spsc_reach cap s \<Longrightarrow> threads_inv cap s"
  by (rotate_tac 1, induction rule: spsc_reach.induct) (auto intro: start_inv step_inv)

text \<open>C18. Under every interleaving of the producer and the consumer the items received are, in order, a
  prefix of the items sent: none is lost, duplicated, reordered or read half-written; at most
  \<open>Capacity - 1\<close> are in transit; and the producer never writes the cell the consumer is reading.\<close>

theorem spsc_interleaving:
  assumes "valid_capacity cap" "spsc_reach cap s"
  shows "prefix (th_received s) (th_sent s) \<and> length (th_sent s) - length (th_received s) < unat cap \<and>
     (\<forall>x wp rp. th_prod s = PWrite x wp \<and> th_cons s = CRead rp \<longrightarrow> wp \<noteq> rp)"
proof -
  let ?c = "unat cap" and ?m = "length (th_sent s)" and ?n = "length (th_received s)"
  have inv: "threads_inv cap s" using assms by (rule reach_threads_inv)
  then have r: "th_received s = take ?n (th_sent s)" "?n \<le> ?m" "?m < ?n + ?c" by (auto simp: threads_defs)
  have "wp \<noteq> rp" if "th_prod s = PWrite x wp" "th_cons s = CRead rp" for x wp rp
  proof
    assume eq: "wp = rp"
    have "unat wp = ?m mod ?c" "unat rp = ?n mod ?c" "?n < ?m" using inv that by (auto simp: threads_defs)
    then show False using mod_inj_window [of ?n ?c ?m] r eq by simp
  qed
  moreover have "prefix (th_received s) (th_sent s)" using r(1) by (metis take_is_prefix)
  ultimately show ?thesis using r by auto
qed

text \<open>A run on a ring of two cells: the second push starts before the first pop has finished.\<close>

definition sample_ring :: "nat SPSCQueue" where
  "sample_ring = \<lparr>sq_buffer = (\<lambda>_. 0), sq_write_pos = 0, sq_read_pos = 0\<rparr>"

definition sample_threads :: "nat Threads" where
  "sample_threads = \<lparr>th_queue = \<lparr>sq_buffer = (\<lambda>_. 0)(0 := 7), sq_write_pos = 1, sq_read_pos = 0\<rparr>,
     th_prod = PCheck 8 1, th_cons = CRead 0, th_sent = [7], th_received = []\<rparr>"

lemma sample_threads_reach: "spsc_reach 2 sample_threads"
proof -
  define s0 :: "nat Threads" where "s0 = spsc_start sample_ring"
  define s1 where "s1 = s0\<lparr>th_prod := PCheck 7 0\<rparr>"
  define s2 where "s2 = s1\<lparr>th_prod := PWrite 7 0\<rparr>"
  define s3 where "s3 = s2\<lparr>th_queue := (th_queue s2)\<lparr>sq_buffer := (\<lambda>_. 0)(0 := 7)\<rparr>, th_prod := PPublish 7 0\<rparr>"
  define s4 where "s4 = s3\<lparr>th_queue := (th_queue s3)\<lparr>sq_write_pos := 1\<rparr>, th_prod := PIdle, th_sent := [7]\<rparr>"
  define s5 where "s5 = s4\<lparr>th_cons := CCheck 0\<rparr>"
  define s6 where "s6 = s5\<lparr>th_cons := CRead 0\<rparr>"
  note defs = s0_def s1_def s2_def s3_def s4_def s5_def s6_def spsc_start_def spsc_init_def sample_ring_def kMask_def
  have r0: "spsc_reach 2 s0" unfolding s0_def by (rule spsc_reach.start)
  have t1: "spsc_step 2 s0 s1" using spsc_step.push_call [of s0 2 7] by (simp add: defs)
  have t2: "spsc_step 2 s1 s2" using spsc_step.push_room [of s1 7 0 2] by (simp add: defs)
  have t3: "spsc_step 2 s2 s3" using spsc_step.push_write [of s2 7 0 2] by (simp add: defs)
  have t4: "spsc_step 2 s3 s4" using spsc_step.push_publish [of s3 7 0 2] by (simp add: defs)
  have t5: "spsc_step 2 s4 s5" using spsc_step.pop_call [of s4 2] by (simp add: defs)
  have t6: "spsc_step 2 s5 s6" using spsc_step.pop_some [of s5 0 2] by (simp add: defs)
  have t7: "spsc_step 2 s6 sample_threads"
    using spsc_step.push_call [of s6 2 8] by (simp add: defs sample_threads_def)
  note r3 = spsc_reach.step [OF spsc_reach.step [OF spsc_reach.step [OF r0 t1] t2] t3]
  show ?thesis
    by (rule spsc_reach.step [OF spsc_reach.step [OF spsc_reach.step [OF spsc_reach.step [OF r3 t4] t5] t6] t7])
qed

theorem spsc_interleaving_witness:
  "valid_capacity 2 \<and> spsc_reach 2 sample_threads \<and> prefix (th_received sample_threads) (th_sent sample_threads)"
proof -
  have "valid_capacity 2" by (simp add: valid_capacity_def)
  from this spsc_interleaving [OF this sample_threads_reach] sample_threads_reach show ?thesis by blast
qed

end
