(* ===== verification/Byte_Codec.thy ===== *)
theory Byte_Codec
  imports Engine_Types
begin

text \<open>
  Objects as bytes.  The feed decoder and the trace files move packed structs with \<^verbatim>\<open>memcpy\<close>, so a
  field of \<open>n\<close> bytes is its value in the byte order of the machine; the sources target x86-64
  (\<^verbatim>\<open>immintrin.h\<close>, \<^verbatim>\<open>__builtin_ia32_pause\<close>), which is little-endian.  \<open>le_nat\<close> reads such a field and
  \<open>nat_bytes\<close> writes it; the lemmas make fields of a concatenation of fields readable by rewriting.
\<close>

subsection \<open>Little-endian numbers\<close>

primrec le_nat :: "u8 list \<Rightarrow> nat" where
  "le_nat [] = 0"
| "le_nat (b # bs) = unat b + 256 * le_nat bs"

primrec nat_bytes :: "nat \<Rightarrow> nat \<Rightarrow> u8 list" where
  "nat_bytes 0 x = []"
| "nat_bytes (Suc n) x = of_nat (x mod 256) # nat_bytes n (x div 256)"

lemma length_nat_bytes [simp]: "length (nat_bytes n x) = n"
  by (induction n arbitrary: x) simp_all

lemma le_nat_nat_bytes: "le_nat (nat_bytes n x) = x mod 256 ^ n"
proof (induction n arbitrary: x)
  case (Suc n)
  have "unat (of_nat (x mod 256) :: u8) = x mod 256" by (simp add: unat_of_nat)
  then show ?case using Suc by (simp add: mod_mult2_eq)
qed simp

lemma nat_bytes_le_nat: "nat_bytes (length bs) (le_nat bs) = bs"
proof (induction bs)
  case (Cons b bs)
  have "unat b < 256" using unsigned_less [of b, where 'a = nat] by simp
  then show ?case using Cons by simp
qed simp

lemma le_nat_bound: "le_nat bs < 256 ^ length bs"
  by (metis le_nat_nat_bytes nat_bytes_le_nat mod_less_divisor zero_less_power zero_less_numeral)

subsection \<open>Words\<close>

text \<open>\<open>get_le\<close> and \<open>put_le\<close> move a word of any width that fits the bytes.\<close>

definition get_le :: "u8 list \<Rightarrow> 'a::len word" where
  "get_le bs = of_nat (le_nat bs)"

definition put_le :: "nat \<Rightarrow> 'a::len word \<Rightarrow> u8 list" where
  "put_le n w = nat_bytes n (unat w)"

lemma length_put_le [simp]: "length (put_le n w) = n"
  by (simp add: put_le_def)

lemma get_put_le [simp]:
  assumes "LENGTH('a) \<le> 8 * n"
  shows "get_le (put_le n w) = (w :: 'a::len word)"
proof -
  have "unat w < 2 ^ LENGTH('a)" by (rule unsigned_less)
  also have "\<dots> \<le> 2 ^ (8 * n)" using assms by (intro power_increasing) auto
  also have "(2 :: nat) ^ (8 * n) = 256 ^ n" by (simp add: power_mult)
  finally show ?thesis by (simp add: get_le_def put_le_def le_nat_nat_bytes)
qed

lemma get_le_single [simp]: "get_le [b] = (b :: u8)"
  by (simp add: get_le_def)

lemma put_get_le:
  assumes "LENGTH('a) = 8 * length bs"
  shows "put_le (length bs) (get_le bs :: 'a::len word) = bs"
proof -
  have "(256 :: nat) ^ length bs = 2 ^ LENGTH('a)" unfolding assms by (simp add: power_mult)
  then have "unat (of_nat (le_nat bs) :: 'a word) = le_nat bs"
    using le_nat_bound [of bs] by (intro unat_of_nat_small) simp
  then show ?thesis by (simp add: put_le_def get_le_def nat_bytes_le_nat)
qed

subsection \<open>Fields of a buffer\<close>

definition bytes_at :: "nat \<Rightarrow> nat \<Rightarrow> u8 list \<Rightarrow> u8 list" where
  "bytes_at off n bs = take n (drop off bs)"

lemma bytes_at_append_left [simp]:
  "off + n \<le> length xs \<Longrightarrow> bytes_at off n (xs @ ys) = bytes_at off n xs"
  by (simp add: bytes_at_def)

lemma bytes_at_append_right [simp]:
  "length xs \<le> off \<Longrightarrow> bytes_at off n (xs @ ys) = bytes_at (off - length xs) n ys"
  by (simp add: bytes_at_def)

lemma bytes_at_all [simp]: "length xs = n \<Longrightarrow> bytes_at 0 n xs = xs"
  by (simp add: bytes_at_def)

lemma bytes_at_prefix [simp]: "length xs = n \<Longrightarrow> bytes_at 0 n (xs @ ys) = xs"
  by simp

lemma length_bytes_at: "length (bytes_at off n bs) = min n (length bs - off)"
  by (simp add: bytes_at_def)

subsection \<open>Files of fixed-size records\<close>

text \<open>\<^verbatim>\<open>fread\<close> of whole records of \<open>n\<close> bytes.\<close>

fun chunks :: "nat \<Rightarrow> u8 list \<Rightarrow> u8 list list" where
  "chunks n bs = (if n = 0 \<or> length bs < n then [] else take n bs # chunks n (drop n bs))"

declare chunks.simps [simp del]

lemma chunks_concat: "n > 0 \<Longrightarrow> \<forall>b \<in> set bss. length b = n \<Longrightarrow> chunks n (concat bss) = bss"
  by (induction bss) (simp_all add: chunks.simps)

lemma concat_chunks: "n > 0 \<Longrightarrow> length bs mod n = 0 \<Longrightarrow> concat (chunks n bs) = bs"
proof (induction n bs rule: chunks.induct)
  case (1 n bs)
  show ?case
  proof (cases "length bs < n")
    case True
    then have "bs = []" using "1.prems" by simp
    then show ?thesis using "1.prems" by (simp add: chunks.simps)
  next
    case False
    then have "length (drop n bs) mod n = 0" using "1.prems"(2) by (simp add: mod_if)
    then have "concat (chunks n (drop n bs)) = drop n bs" using 1 False by simp
    then show ?thesis using False "1.prems"(1) by (subst chunks.simps) simp
  qed
qed

subsection \<open>Signed 64-bit values\<close>

text \<open>\<open>in_int64\<close>: the value range of \<^verbatim>\<open>int64_t\<close>.  A value in range survives the conversion to \<^verbatim>\<open>uint64_t\<close>
  and back.\<close>

definition in_int64 :: "int \<Rightarrow> bool" where
  "in_int64 x = (- (2 ^ 63) \<le> x \<and> x < 2 ^ 63)"

lemma sint_of_int64 [simp]: "in_int64 x \<Longrightarrow> sint (word_of_int x :: u64) = x"
  by (simp add: in_int64_def signed_of_int signed_take_bit_int_eq_self)

lemma in_int64_sint [simp]: "in_int64 (sint (w :: u64))"
  using sint_lt [of w] sint_ge [of w] by (simp add: in_int64_def)

end
