(* ===== verification/Mpmc_Queue.thy ===== *)
theory Mpmc_Queue
  imports Fifo Byte_Codec
begin

text \<open>
  \<^verbatim>\<open>MPMCQueue\<close> (\<^verbatim>\<open>core/mpmc_queue.hpp\<close>): the bounded queue with per-slot sequence numbers.  Here the operations
  executed one at a time, their retry loops included; the difference of a sequence number and a position
  is a \<^verbatim>\<open>ptrdiff_t\<close>, the difference of the two values read as signed numbers.
\<close>

unbundle bit_operations_syntax

subsection \<open>The queue and its operations\<close>

record 'a MPMCQueue =
  mq_sequence :: "u64 arr"
  mq_data :: "'a arr"
  mq_enqueue_pos :: u64
  mq_dequeue_pos :: u64

definition mpmc_kMask :: "u64 \<Rightarrow> u64" where
  "mpmc_kMask cap = cap - 1"

definition mpmc_init :: "u64 \<Rightarrow> 'a MPMCQueue \<Rightarrow> 'a MPMCQueue" where
  "mpmc_init cap raw = raw\<lparr>
     mq_sequence := (\<lambda>i. if i < unat cap then of_nat i else mq_sequence raw i),
     mq_enqueue_pos := 0, mq_dequeue_pos := 0\<rparr>"

definition ptr_diff :: "u64 \<Rightarrow> u64 \<Rightarrow> int" where
  "ptr_diff a b = sint a - sint b"

text \<open>The loop of \<^verbatim>\<open>try_push\<close>: \<open>Some (Some pos)\<close> is a claimed position, \<open>Some None\<close> a full queue.\<close>

partial_function (option) push_claim :: "u64 \<Rightarrow> u64 \<Rightarrow> 'a MPMCQueue \<Rightarrow> (u64 option \<times> 'a MPMCQueue) option" where
  "push_claim cap pos q = (
     let seq = mq_sequence q (unat (pos AND mpmc_kMask cap)); diff = ptr_diff seq pos
     in if diff = 0 then
          if mq_enqueue_pos q = pos then Some (Some pos, q\<lparr>mq_enqueue_pos := pos + 1\<rparr>)
          else push_claim cap (mq_enqueue_pos q) q
        else if diff < 0 then Some (None, q)
        else push_claim cap (mq_enqueue_pos q) q)"

definition mpmc_try_push :: "u64 \<Rightarrow> 'a \<Rightarrow> 'a MPMCQueue \<Rightarrow> (bool \<times> 'a MPMCQueue) option" where
  "mpmc_try_push cap item q = do {
     (r, q1) \<leftarrow> push_claim cap (mq_enqueue_pos q) q;
     (case r of None \<Rightarrow> Some (False, q1)
      | Some pos \<Rightarrow> let i = unat (pos AND mpmc_kMask cap)
          in Some (True, q1\<lparr>mq_data := (mq_data q1)(i := item), mq_sequence := (mq_sequence q1)(i := pos + 1)\<rparr>)) }"

partial_function (option) pop_claim :: "u64 \<Rightarrow> u64 \<Rightarrow> 'a MPMCQueue \<Rightarrow> (u64 option \<times> 'a MPMCQueue) option" where
  "pop_claim cap pos q = (
     let seq = mq_sequence q (unat (pos AND mpmc_kMask cap)); diff = ptr_diff seq (pos + 1)
     in if diff = 0 then
          if mq_dequeue_pos q = pos then Some (Some pos, q\<lparr>mq_dequeue_pos := pos + 1\<rparr>)
          else pop_claim cap (mq_dequeue_pos q) q
        else if diff < 0 then Some (None, q)
        else pop_claim cap (mq_dequeue_pos q) q)"

definition mpmc_try_pop :: "u64 \<Rightarrow> 'a MPMCQueue \<Rightarrow> ('a option \<times> 'a MPMCQueue) option" where
  "mpmc_try_pop cap q = do {
     (r, q1) \<leftarrow> pop_claim cap (mq_dequeue_pos q) q;
     (case r of None \<Rightarrow> Some (None, q1)
      | Some pos \<Rightarrow> let i = unat (pos AND mpmc_kMask cap)
          in Some (Some (mq_data q1 i), q1\<lparr>mq_sequence := (mq_sequence q1)(i := pos + mpmc_kMask cap + 1)\<rparr>)) }"

declare push_claim.simps [code] pop_claim.simps [code]

definition mpmc_empty :: "'a MPMCQueue \<Rightarrow> bool" where
  "mpmc_empty q = (mq_enqueue_pos q = mq_dequeue_pos q)"

definition mpmc_size_approx :: "'a MPMCQueue \<Rightarrow> u64" where
  "mpmc_size_approx q = (if mq_enqueue_pos q > mq_dequeue_pos q then mq_enqueue_pos q - mq_dequeue_pos q else 0)"

subsection \<open>Positions below \<open>2 ^ 63\<close>\<close>

lemma sint_small: "unat (w :: u64) < 2 ^ 63 \<Longrightarrow> sint w = int (unat w)"
proof -
  assume "unat w < 2 ^ 63"
  then have "int (unat w) < int (2 ^ 63)" by (simp only: of_nat_less_iff)
  then have "in_int64 (int (unat w))" by (simp add: in_int64_def order.trans [OF _ uint_ge_0])
  then have "sint (word_of_int (int (unat w)) :: u64) = int (unat w)" by (rule sint_of_int64)
  then show ?thesis by simp
qed

lemma ptr_diff_small: "unat a < 2 ^ 63 \<Longrightarrow> unat b < 2 ^ 63 \<Longrightarrow> ptr_diff a b = int (unat a) - int (unat b)"
  unfolding ptr_diff_def by (simp only: sint_small)

lemma ptr_diff_nat: "unat a = m \<Longrightarrow> unat b = n \<Longrightarrow> m < 2 ^ 63 \<Longrightarrow> n < 2 ^ 63 \<Longrightarrow> ptr_diff a b = int m - int n"
  using ptr_diff_small [of a b] by blast

lemma pos_plus: "unat (p :: u64) + unat k < 2 ^ 63 \<Longrightarrow> unat (p + k) = unat p + unat k"
  by (simp add: unat_word_ariths)

lemma pos_suc: "unat (p :: u64) + 1 < 2 ^ 63 \<Longrightarrow> unat (p + 1) = unat p + 1"
  using pos_plus [of p 1] by simp

lemma slot_index: "valid_capacity cap \<Longrightarrow> unat (pos AND mpmc_kMask cap) = unat pos mod unat cap"
  by (simp add: mpmc_kMask_def unat_and_mask)

lemma pos_release:
  assumes "valid_capacity cap" "unat pos + unat cap < 2 ^ 63"
  shows "unat (pos + mpmc_kMask cap + 1) = unat pos + unat cap"
proof -
  have eq: "pos + mpmc_kMask cap + 1 = pos + cap" by (simp add: mpmc_kMask_def)
  show ?thesis unfolding eq using assms(2) by (rule pos_plus)
qed

text \<open>Two positions of one lap of the ring have different slots.\<close>

lemma lap_distinct:
  assumes "p mod c = (p' :: nat) mod c" "a \<le> p" "p < a + c" "a \<le> p'" "p' < a + c"
  shows "p = p'"
proof -
  have "p = p'" if "p mod c = p' mod c" "a \<le> p" "p' < a + c" "p \<le> p'" for p p' :: nat
  proof -
    have "c dvd p' - p" using that(1,4) by (metis mod_eq_dvd_iff_nat)
    moreover have "p' - p < c" using that(2,3,4) by linarith
    ultimately show ?thesis using that(4) by (metis dvd_imp_le le_antisym diff_is_0_eq not_less zero_less_iff_neq_zero)
  qed
  then show ?thesis using assms by (metis nat_le_linear)
qed

subsection \<open>One operation at a time\<close>

text \<open>\<open>mpmc_holds cap d q xs\<close>: the queue contains \<open>xs\<close>, front first, after \<open>d\<close> items have left it.\<close>

definition mpmc_holds :: "u64 \<Rightarrow> nat \<Rightarrow> 'a MPMCQueue \<Rightarrow> 'a list \<Rightarrow> bool" where
  "mpmc_holds cap d q xs = (valid_capacity cap \<and> length xs \<le> unat cap \<and>
     unat (mq_dequeue_pos q) = d \<and> unat (mq_enqueue_pos q) = d + length xs \<and>
     (\<forall>i < length xs. unat (mq_sequence q ((d + i) mod unat cap)) = d + i + 1 \<and> mq_data q ((d + i) mod unat cap) = xs ! i) \<and>
     (\<forall>p. d + length xs \<le> p \<and> p < d + unat cap \<longrightarrow> unat (mq_sequence q (p mod unat cap)) = p))"

lemma mpmc_init_holds: "valid_capacity cap \<Longrightarrow> mpmc_holds cap 0 (mpmc_init cap raw) []"
  using unsigned_less [of cap, where 'a = nat]
  by (auto simp: mpmc_holds_def mpmc_init_def intro!: unat_of_nat_small)

lemma mpmc_push:
  assumes h: "mpmc_holds cap d q xs" and small: "d + length xs + unat cap < 2 ^ 63"
  shows "\<exists>q'. mpmc_try_push cap x q = Some (length xs < unat cap, q') \<and>
     mpmc_holds cap d q' (if length xs < unat cap then xs @ [x] else xs)"
proof -
  let ?c = "unat cap" and ?e = "d + length xs" and ?pos = "mq_enqueue_pos q"
  note H = h [unfolded mpmc_holds_def]
  have cap: "valid_capacity cap" "1 < ?c" using H by (auto simp: valid_capacity_def word_less_nat_alt)
  have e: "unat ?pos = ?e" "?e < 2 ^ 63" using H small by auto
  have i: "unat (?pos AND mpmc_kMask cap) = ?e mod ?c" using slot_index [OF cap(1)] e(1) by simp
  show ?thesis
  proof (cases "length xs < ?c")
    case True
    then have seq: "unat (mq_sequence q (?e mod ?c)) = ?e" using H by auto
    then have "ptr_diff (mq_sequence q (?e mod ?c)) ?pos = int ?e - int ?e" using e by (intro ptr_diff_nat) auto
    then have "push_claim cap ?pos q = Some (Some ?pos, q\<lparr>mq_enqueue_pos := ?pos + 1\<rparr>)"
      by (subst push_claim.simps) (simp add: i)
    then have "mpmc_try_push cap x q = Some (True, q\<lparr>mq_enqueue_pos := ?pos + 1,
        mq_data := (mq_data q)(?e mod ?c := x), mq_sequence := (mq_sequence q)(?e mod ?c := ?pos + 1)\<rparr>)" (is "_ = Some (True, ?q')")
      by (simp add: mpmc_try_push_def i Let_def)
    moreover have suc: "unat (?pos + 1) = ?e + 1" using pos_suc [of ?pos] e(1) small cap(2) by simp
    have other: "p mod ?c \<noteq> ?e mod ?c" if "p \<noteq> ?e" "d \<le> p" "p < d + ?c" for p
      using lap_distinct [of p ?c ?e d] that True by auto
    have "mpmc_holds cap d ?q' (xs @ [x])"
      unfolding mpmc_holds_def
    proof (intro conjI allI impI)
      show "unat (mq_sequence ?q' ((d + j) mod ?c)) = d + j + 1" "mq_data ?q' ((d + j) mod ?c) = (xs @ [x]) ! j"
        if "j < length (xs @ [x])" for j
        using that other [of "d + j"] H suc True by (auto simp: nth_append less_Suc_eq)
      show "unat (mq_sequence ?q' (p mod ?c)) = p" if "d + length (xs @ [x]) \<le> p \<and> p < d + ?c" for p
        using that other [of p] H by auto
    qed (use H suc True in auto)
    ultimately show ?thesis using True by auto
  next
    case False
    then have len: "length xs = ?c" using H by simp
    then have "?e mod ?c = (d + 0) mod ?c" by simp
    then have seq: "unat (mq_sequence q (?e mod ?c)) = d + 1" using H len cap(2) by (metis add_0_right less_trans zero_less_one)
    have "ptr_diff (mq_sequence q (?e mod ?c)) ?pos = int (d + 1) - int ?e"
      using seq e small cap(2) by (intro ptr_diff_nat) auto
    moreover have "int (d + 1) < int ?e" using len cap(2) by (simp only: of_nat_less_iff)
    ultimately have "ptr_diff (mq_sequence q (?e mod ?c)) ?pos < 0" by linarith
    then have "push_claim cap ?pos q = Some (None, q)" by (subst push_claim.simps) (simp add: i)
    then show ?thesis using h False by (simp add: mpmc_try_push_def)
  qed
qed

lemma mpmc_pop:
  assumes h: "mpmc_holds cap d q xs" and small: "d + length xs + unat cap < 2 ^ 63"
  shows "\<exists>q'. mpmc_try_pop cap q = Some (case xs of [] \<Rightarrow> None | x # _ \<Rightarrow> Some x, q') \<and>
     mpmc_holds cap (if xs = [] then d else d + 1) q' (tl xs)"
proof -
  let ?c = "unat cap" and ?pos = "mq_dequeue_pos q"
  note H = h [unfolded mpmc_holds_def]
  have cap: "valid_capacity cap" "1 < ?c" using H by (auto simp: valid_capacity_def word_less_nat_alt)
  have d: "unat ?pos = d" "d + 1 < 2 ^ 63" using H small cap(2) by auto
  have i: "unat (?pos AND mpmc_kMask cap) = d mod ?c" using slot_index [OF cap(1)] d(1) by simp
  have suc: "unat (?pos + 1) = d + 1" using pos_suc [of ?pos] d by simp
  show ?thesis
  proof (cases xs)
    case Nil
    then have "unat (mq_sequence q (d mod ?c)) = d" using H cap(2) by simp
    then have "ptr_diff (mq_sequence q (d mod ?c)) (?pos + 1) = int d - int (d + 1)"
      using suc d(2) by (intro ptr_diff_nat) auto
    then have "pop_claim cap ?pos q = Some (None, q)" by (subst pop_claim.simps) (simp add: i)
    then show ?thesis using h Nil by (simp add: mpmc_try_pop_def)
  next
    case (Cons x ys)
    have head: "unat (mq_sequence q ((d + 0) mod ?c)) = d + 0 + 1 \<and> mq_data q ((d + 0) mod ?c) = xs ! 0"
      using H Cons by blast
    then have "ptr_diff (mq_sequence q (d mod ?c)) (?pos + 1) = int (d + 1) - int (d + 1)"
      using suc d(2) by (intro ptr_diff_nat) auto
    then have "pop_claim cap ?pos q = Some (Some ?pos, q\<lparr>mq_dequeue_pos := ?pos + 1\<rparr>)"
      by (subst pop_claim.simps) (simp add: i)
    then have "mpmc_try_pop cap q = Some (Some x, q\<lparr>mq_dequeue_pos := ?pos + 1,
        mq_sequence := (mq_sequence q)(d mod ?c := ?pos + mpmc_kMask cap + 1)\<rparr>)" (is "_ = Some (_, ?q')")
      using head Cons by (simp add: mpmc_try_pop_def i Let_def)
    moreover have rel: "unat (?pos + mpmc_kMask cap + 1) = d + ?c" using pos_release [OF cap(1), of ?pos] d small by simp
    have other: "p mod ?c \<noteq> d mod ?c" if "d < p" "p < d + ?c" for p
      using lap_distinct [of p ?c d d] that by auto
    have "mpmc_holds cap (d + 1) ?q' ys"
      unfolding mpmc_holds_def
    proof (intro conjI allI impI)
      show "unat (mq_sequence ?q' ((d + 1 + j) mod ?c)) = d + 1 + j + 1" "mq_data ?q' ((d + 1 + j) mod ?c) = ys ! j"
        if j: "j < length ys" for j
      proof -
        have "unat (mq_sequence q ((d + Suc j) mod ?c)) = d + Suc j + 1 \<and> mq_data q ((d + Suc j) mod ?c) = xs ! Suc j"
          using H j Cons by auto
        then show "unat (mq_sequence ?q' ((d + 1 + j) mod ?c)) = d + 1 + j + 1" "mq_data ?q' ((d + 1 + j) mod ?c) = ys ! j"
          using other [of "d + Suc j"] H j Cons by simp_all
      qed
      show "unat (mq_sequence ?q' (p mod ?c)) = p" if "d + 1 + length ys \<le> p \<and> p < d + 1 + ?c" for p
        using that other [of p] H Cons rel by (cases "p = d + ?c") auto
    qed (use H suc Cons in auto)
    ultimately show ?thesis using Cons by auto
  qed
qed

text \<open>Used by one thread at a time, the queue is a bounded FIFO that uses all of its slots: for fewer than
  \<open>2 ^ 63\<close> operations both loops end, a push is refused exactly when the queue holds as many items as it
  has slots, a pop exactly when it is empty, items leave in the order they came, and the size and
  emptiness queries are exact.\<close>

lemma mpmc_fifo:
  assumes "mpmc_holds cap d q xs" "d + length xs + unat cap < 2 ^ 63"
  shows "(\<exists>q'. mpmc_try_push cap x q = Some (length xs < unat cap, q') \<and>
       mpmc_holds cap d q' (if length xs < unat cap then xs @ [x] else xs)) \<and>
     (\<exists>q'. mpmc_try_pop cap q = Some (case xs of [] \<Rightarrow> None | x # _ \<Rightarrow> Some x, q') \<and>
       mpmc_holds cap (if xs = [] then d else d + 1) q' (tl xs)) \<and>
     (mpmc_empty q \<longleftrightarrow> xs = []) \<and> unat (mpmc_size_approx q) = length xs"
proof -
  have H: "unat (mq_dequeue_pos q) = d" "unat (mq_enqueue_pos q) = d + length xs" using assms(1) by (auto simp: mpmc_holds_def)
  have "mpmc_empty q \<longleftrightarrow> unat (mq_enqueue_pos q) = unat (mq_dequeue_pos q)"
    by (simp add: mpmc_empty_def word_unat_eq_iff)
  then have "mpmc_empty q \<longleftrightarrow> xs = []" unfolding H by simp
  moreover have "unat (mpmc_size_approx q) = length xs"
    using H by (auto simp: mpmc_size_approx_def word_less_nat_alt unat_sub word_le_nat_alt)
  ultimately show ?thesis using mpmc_push [OF assms] mpmc_pop [OF assms] by blast
qed

lemma mpmc_fifo_instance:
  "\<exists>q'. mpmc_try_push 4 (7 :: nat) (mpmc_init 4 \<lparr>mq_sequence = \<lambda>_. 5, mq_data = \<lambda>_. 0, mq_enqueue_pos = 3, mq_dequeue_pos = 8\<rparr>) =
     Some (True, q') \<and> mpmc_holds 4 0 q' [7]"
proof -
  have "valid_capacity 4" by (simp add: valid_capacity_def)
  from mpmc_fifo [OF mpmc_init_holds [OF this, of "\<lparr>mq_sequence = \<lambda>_. 5, mq_data = \<lambda>_. 0, mq_enqueue_pos = 3, mq_dequeue_pos = 8\<rparr>"], of "7 :: nat"]
  show ?thesis by simp
qed

end
