(* ===== verification/Mpmc_Threads.thy ===== *)
theory Mpmc_Threads
  imports Mpmc_Queue
begin

text \<open>
  \<^verbatim>\<open>MPMCQueue\<close> used by any number of producers and consumers at once.  Every access to a shared variable is
  one step, and the steps of all threads interleave freely; a weak compare-and-exchange may fail for no
  reason.  The invariant is stated on natural numbers first: what each slot's sequence number says about
  the last position that used the slot.
\<close>

unbundle bit_operations_syntax

subsection \<open>The slots, abstractly\<close>

text \<open>\<open>E\<close> positions have been claimed by producers for \<open>items\<close>, \<open>D\<close> by consumers.  \<open>pc\<close> and \<open>cc\<close> give the
  position a thread has claimed and not yet finished with; \<open>sq\<close> and \<open>dat\<close> are the slots.\<close>

definition claimed :: "(nat \<Rightarrow> nat option) \<Rightarrow> nat \<Rightarrow> bool" where
  "claimed cl p = (\<exists>t. cl t = Some p)"

definition slot_state :: "nat \<Rightarrow> 'a list \<Rightarrow> nat \<Rightarrow> (nat \<Rightarrow> nat) \<Rightarrow> 'a arr \<Rightarrow> (nat \<Rightarrow> nat option) \<Rightarrow> (nat \<Rightarrow> nat option) \<Rightarrow> nat \<Rightarrow> bool" where
  "slot_state c items D sq dat pc cc p = (
     if claimed pc p then sq (p mod c) = p
     else if D \<le> p \<or> claimed cc p then sq (p mod c) = p + 1 \<and> dat (p mod c) = items ! p
     else sq (p mod c) = p + c)"

definition slots_inv :: "nat \<Rightarrow> 'a list \<Rightarrow> nat \<Rightarrow> (nat \<Rightarrow> nat) \<Rightarrow> 'a arr \<Rightarrow> (nat \<Rightarrow> nat option) \<Rightarrow> (nat \<Rightarrow> nat option) \<Rightarrow> bool" where
  "slots_inv c items D sq dat pc cc = (let E = length items in
     D \<le> E \<and> E \<le> D + c \<and>
     (\<forall>p. p < E \<and> E \<le> p + c \<longrightarrow> slot_state c items D sq dat pc cc p) \<and>
     (\<forall>p. E \<le> p \<and> p < c \<longrightarrow> sq p = p) \<and>
     (\<forall>t p. pc t = Some p \<longrightarrow> D \<le> p \<and> p < E \<and> (\<forall>u. pc u = Some p \<longrightarrow> u = t)) \<and>
     (\<forall>t p. cc t = Some p \<longrightarrow> p < D \<and> E \<le> p + c \<and> (\<forall>u. cc u = Some p \<longrightarrow> u = t)))"

lemma slots_invD:
  assumes "slots_inv c items D sq dat pc cc"
  shows "D \<le> length items" "length items \<le> D + c"
    "\<And>p. p < length items \<Longrightarrow> length items \<le> p + c \<Longrightarrow> slot_state c items D sq dat pc cc p"
    "\<And>p. length items \<le> p \<Longrightarrow> p < c \<Longrightarrow> sq p = p"
    "\<And>t p. pc t = Some p \<Longrightarrow> D \<le> p \<and> p < length items"
    "\<And>t u p. pc t = Some p \<Longrightarrow> pc u = Some p \<Longrightarrow> u = t"
    "\<And>t p. cc t = Some p \<Longrightarrow> p < D \<and> length items \<le> p + c"
    "\<And>t u p. cc t = Some p \<Longrightarrow> cc u = Some p \<Longrightarrow> u = t"
  using assms unfolding slots_inv_def Let_def by blast+

lemma slots_invI:
  assumes "D \<le> length items" "length items \<le> D + c"
    "\<And>p. p < length items \<Longrightarrow> length items \<le> p + c \<Longrightarrow> slot_state c items D sq dat pc cc p"
    "\<And>p. length items \<le> p \<Longrightarrow> p < c \<Longrightarrow> sq p = p"
    "\<And>t p. pc t = Some p \<Longrightarrow> D \<le> p \<and> p < length items"
    "\<And>t u p. pc t = Some p \<Longrightarrow> pc u = Some p \<Longrightarrow> u = t"
    "\<And>t p. cc t = Some p \<Longrightarrow> p < D \<and> length items \<le> p + c"
    "\<And>t u p. cc t = Some p \<Longrightarrow> cc u = Some p \<Longrightarrow> u = t"
  shows "slots_inv c items D sq dat pc cc"
  using assms unfolding slots_inv_def Let_def by blast

lemma claimed_upd_new: "cl t = None \<Longrightarrow> claimed (cl(t := Some p)) p' \<longleftrightarrow> p' = p \<or> claimed cl p'"
  unfolding claimed_def by (metis fun_upd_apply option.discI option.inject)

lemma claimed_upd_done:
  "cl t = Some p \<Longrightarrow> \<forall>u. cl u = Some p \<longrightarrow> u = t \<Longrightarrow> claimed (cl(t := None)) p' \<longleftrightarrow> p' \<noteq> p \<and> claimed cl p'"
  unfolding claimed_def by (metis fun_upd_apply option.discI option.inject)

text \<open>A sequence number that reaches the next position to push means the slot is free.\<close>

lemma push_slot_free:
  assumes inv: "slots_inv c items D sq dat pc cc" and c: "1 < c" and sq: "length items \<le> sq (length items mod c)"
  shows "sq (length items mod c) = length items" "length items < D + c"
    "\<And>t p. cc t = Some p \<Longrightarrow> length items < p + c"
proof -
  let ?E = "length items"
  note I = slots_invD [OF inv]
  have "sq (?E mod c) = ?E \<and> ?E < D + c \<and> (\<forall>t p. cc t = Some p \<longrightarrow> ?E < p + c)"
  proof (cases "?E < c")
    case True
    then show ?thesis using I(4) [of ?E] by auto
  next
    case False
    let ?p = "?E - c"
    have p: "?p < ?E" "?E \<le> ?p + c" "?p mod c = ?E mod c" using False c by (auto simp: le_mod_geq)
    from I(3) [OF p(1,2)] have st: "slot_state c items D sq dat pc cc ?p" .
    have free: "\<not> claimed pc ?p" "\<not> (D \<le> ?p \<or> claimed cc ?p)" "sq (?E mod c) = ?p + c"
      using st sq c False unfolding slot_state_def p(3) by (auto split: if_splits)
    have "?E < p + c" if "cc t = Some p" for t p
    proof -
      have "p \<noteq> ?p" using free(2) that by (auto simp: claimed_def)
      then show ?thesis using I(7) [OF that] False by linarith
    qed
    then show ?thesis using free False by auto
  qed
  then show "sq (?E mod c) = ?E" "?E < D + c" "\<And>t p. cc t = Some p \<Longrightarrow> ?E < p + c" by blast+
qed

lemma push_claims:
  assumes inv: "slots_inv c items D sq dat pc cc" and c: "1 < c" and sq: "length items \<le> sq (length items mod c)" and t: "pc t = None"
  shows "slots_inv c (items @ [x]) D sq dat (pc(t := Some (length items))) cc"
proof -
  let ?E = "length items"
  note I = slots_invD [OF inv] and free = push_slot_free [OF inv c sq]
  show ?thesis
  proof (rule slots_invI)
    show "slot_state c (items @ [x]) D sq dat (pc(t := Some ?E)) cc p"
      if "p < length (items @ [x])" "length (items @ [x]) \<le> p + c" for p
    proof (cases "p = ?E")
      case True
      then show ?thesis using free(1) by (simp add: slot_state_def claimed_upd_new [where cl = pc and t = t, OF t])
    next
      case False
      then have "slot_state c items D sq dat pc cc p" using that by (intro I(3)) auto
      then show ?thesis using False that by (simp add: slot_state_def claimed_upd_new [where cl = pc and t = t, OF t] nth_append)
    qed
    show "D \<le> p \<and> p < length (items @ [x])" if "(pc(t := Some ?E)) u = Some p" for u p
      using that I(1) I(5) [of u p] by (auto split: if_splits)
    show "u = v" if "(pc(t := Some ?E)) v = Some p" "(pc(t := Some ?E)) u = Some p" for u v p
      using that I(5) [of u p] I(5) [of v p] I(6) [of v p u] by (auto split: if_splits)
    show "p < D \<and> length (items @ [x]) \<le> p + c" if "cc u = Some p" for u p
      using I(7) [OF that] free(3) [OF that] by auto
  qed (use I free in \<open>auto\<close>)
qed

lemma lap_slot: "p mod c = p' mod c \<Longrightarrow> p < E \<Longrightarrow> E \<le> p + c \<Longrightarrow> p' < E \<Longrightarrow> E \<le> p' + c \<Longrightarrow> p = (p' :: nat)"
  using lap_distinct [of p c p' "E - c"] by linarith

lemma unused_slot: "p < E \<Longrightarrow> E \<le> p' \<Longrightarrow> p' < c \<Longrightarrow> p mod c \<noteq> (p' :: nat)"
  by simp

text \<open>Changing the slot of one position of the current lap leaves the state of the others.\<close>

lemma slot_state_other:
  assumes "slot_state c items D sq dat pc cc p'" "p mod c \<noteq> p' mod c" "claimed pc' p' = claimed pc p'" "claimed cc' p' = claimed cc p'"
  shows "slot_state c items D (sq(p mod c := n)) (dat(p mod c := x)) pc' cc' p'"
    "slot_state c items D (sq(p mod c := n)) dat pc' cc' p'" "slot_state c items D sq (dat(p mod c := x)) pc' cc' p'"
  using assms by (auto simp: slot_state_def)

lemma producer_lap: "slots_inv c items D sq dat pc cc \<Longrightarrow> pc t = Some p \<Longrightarrow> p < length items \<and> length items \<le> p + c"
  using slots_invD(2,5) [of c items D sq dat pc cc] by fastforce

lemma consumer_lap: "slots_inv c items D sq dat pc cc \<Longrightarrow> cc t = Some p \<Longrightarrow> p < length items \<and> length items \<le> p + c"
  using slots_invD(1,7) [of c items D sq dat pc cc] by fastforce

lemma push_writes:
  assumes inv: "slots_inv c items D sq dat pc cc" and t: "pc t = Some p"
  shows "slots_inv c items D sq (dat(p mod c := x)) pc cc"
proof -
  note I = slots_invD [OF inv] and lap = producer_lap [OF inv t]
  show ?thesis
  proof (rule slots_invI)
    show "slot_state c items D sq (dat(p mod c := x)) pc cc p'" if "p' < length items" "length items \<le> p' + c" for p'
    proof (cases "p' = p")
      case True
      then have "claimed pc p'" using t by (auto simp: claimed_def)
      then show ?thesis using I(3) [OF that] by (simp add: slot_state_def)
    next
      case False
      then show ?thesis using I(3) [OF that] lap_slot [of p c p' "length items"] that lap by (intro slot_state_other(3)) auto
    qed
  qed (use I in auto)
qed

lemma push_publishes:
  assumes inv: "slots_inv c items D sq dat pc cc" and t: "pc t = Some p" and d: "dat (p mod c) = items ! p"
  shows "slots_inv c items D (sq(p mod c := p + 1)) dat (pc(t := None)) cc" "sq (p mod c) \<le> p + 1"
proof -
  note I = slots_invD [OF inv] and lap = producer_lap [OF inv t]
  have cl: "claimed (pc(t := None)) p' \<longleftrightarrow> p' \<noteq> p \<and> claimed pc p'" for p'
    using claimed_upd_done [where cl = pc and t = t and p = p] t I(6) by blast
  show "slots_inv c items D (sq(p mod c := p + 1)) dat (pc(t := None)) cc"
  proof (rule slots_invI)
    show "slot_state c items D (sq(p mod c := p + 1)) dat (pc(t := None)) cc p'" if "p' < length items" "length items \<le> p' + c" for p'
    proof (cases "p' = p")
      case True
      then show ?thesis using I(5) [OF t] d by (simp add: slot_state_def cl)
    next
      case False
      then show ?thesis using I(3) [OF that] lap_slot [of p c p' "length items"] that lap by (intro slot_state_other(2)) (auto simp: cl)
    qed
    show "(sq(p mod c := p + 1)) p' = p'" if "length items \<le> p'" "p' < c" for p'
      using I(4) [OF that] unused_slot [of p "length items" p' c] that lap by simp
  qed (use I in \<open>auto split: if_splits\<close>)
  have "claimed pc p" using t by (auto simp: claimed_def)
  then show "sq (p mod c) \<le> p + 1" using I(3) [of p] lap by (simp add: slot_state_def)
qed

text \<open>A sequence number that passes the next position to pop means the slot has been published.\<close>

lemma pop_slot_ready:
  assumes inv: "slots_inv c items D sq dat pc cc" and c: "1 < c" and sq: "D + 1 \<le> sq (D mod c)"
  shows "D < length items" "\<not> claimed pc D"
proof -
  let ?E = "length items"
  note I = slots_invD [OF inv]
  show "D < ?E"
  proof (rule ccontr)
    assume "\<not> D < ?E"
    then have D: "D = ?E" using I(1) by simp
    show False
    proof (cases "?E < c")
      case True
      then show False using I(4) [of ?E] sq D by simp
    next
      case False
      let ?p = "?E - c"
      have p: "?p < ?E" "?E \<le> ?p + c" "?p mod c = D mod c" using False c D by (auto simp: le_mod_geq)
      have "\<not> claimed pc ?p" using I(5) p(1) D by (fastforce simp: claimed_def)
      then show False using I(3) [OF p(1,2)] sq c D False unfolding slot_state_def p(3) by (auto split: if_splits)
    qed
  qed
  then show "\<not> claimed pc D" using I(3) [of D] I(2) sq by (auto simp: slot_state_def)
qed

lemma pop_claims:
  assumes inv: "slots_inv c items D sq dat pc cc" and c: "1 < c" and sq: "D + 1 \<le> sq (D mod c)" and t: "cc t = None"
  shows "slots_inv c items (D + 1) sq dat pc (cc(t := Some D))"
proof -
  note I = slots_invD [OF inv] and ready = pop_slot_ready [OF inv c sq]
  have cl: "claimed (cc(t := Some D)) p' \<longleftrightarrow> p' = D \<or> claimed cc p'" for p'
    using claimed_upd_new [where cl = cc and t = t, OF t] .
  show ?thesis
  proof (rule slots_invI)
    show "slot_state c items (D + 1) sq dat pc (cc(t := Some D)) p" if "p < length items" "length items \<le> p + c" for p
      using I(3) [OF that] unfolding slot_state_def cl by (cases "p = D") (auto simp: Suc_le_eq)
    show "D + 1 \<le> p \<and> p < length items" if "pc u = Some p" for u p
    proof -
      have "p \<noteq> D" using ready(2) that by (auto simp: claimed_def)
      then show ?thesis using I(5) [OF that] by simp
    qed
    show "p < D + 1 \<and> length items \<le> p + c" if "(cc(t := Some D)) u = Some p" for u p
      using that I(2) I(7) [of u p] by (auto split: if_splits)
    show "u = v" if "(cc(t := Some D)) v = Some p" "(cc(t := Some D)) u = Some p" for u v p
      using that I(7) [of u p] I(7) [of v p] I(8) [of v p u] by (auto split: if_splits)
  qed (use I ready in auto)
qed

lemma consumer_slot:
  assumes inv: "slots_inv c items D sq dat pc cc" and t: "cc t = Some p"
  shows "dat (p mod c) = items ! p" "sq (p mod c) = p + 1"
proof -
  note I = slots_invD [OF inv] and lap = consumer_lap [OF inv t]
  have "\<not> claimed pc p" using I(5) I(7) [OF t] by (fastforce simp: claimed_def)
  moreover have "claimed cc p" using t by (auto simp: claimed_def)
  ultimately show "dat (p mod c) = items ! p" "sq (p mod c) = p + 1"
    using I(3) [of p] lap by (simp_all add: slot_state_def)
qed

lemma pop_releases:
  assumes inv: "slots_inv c items D sq dat pc cc" and t: "cc t = Some p"
  shows "slots_inv c items D (sq(p mod c := p + c)) dat pc (cc(t := None))"
proof -
  note I = slots_invD [OF inv] and lap = consumer_lap [OF inv t]
  have cl: "claimed (cc(t := None)) p' \<longleftrightarrow> p' \<noteq> p \<and> claimed cc p'" for p'
    using claimed_upd_done [where cl = cc and t = t and p = p] t I(8) by blast
  have np: "\<not> claimed pc p" using I(5) I(7) [OF t] by (fastforce simp: claimed_def)
  show ?thesis
  proof (rule slots_invI)
    show "slot_state c items D (sq(p mod c := p + c)) dat pc (cc(t := None)) p'" if "p' < length items" "length items \<le> p' + c" for p'
    proof (cases "p' = p")
      case True
      then show ?thesis using I(7) [OF t] np by (simp add: slot_state_def cl)
    next
      case False
      then show ?thesis using I(3) [OF that] lap_slot [of p c p' "length items"] that lap by (intro slot_state_other(2)) (auto simp: cl)
    qed
    show "(sq(p mod c := p + c)) p' = p'" if "length items \<le> p'" "p' < c" for p'
      using I(4) [OF that] unused_slot [of p "length items" p' c] that lap by simp
  qed (use I in \<open>auto split: if_splits\<close>)
qed

subsection \<open>Threads\<close>

text \<open>Where a thread stands in \<^verbatim>\<open>try_push\<close> or \<^verbatim>\<open>try_pop\<close>, with its local variables: about to read the slot,
  about to compare and exchange, about to reload the position, past the claim, past the copy.\<close>

datatype 'a mproducer = MPIdle | MPLoop 'a u64 | MPCas 'a u64 | MPReload 'a | MPWrite 'a u64 | MPPublish 'a u64

datatype 'a mconsumer = MCIdle | MCLoop u64 | MCCas u64 | MCReload | MCRead u64 | MCRelease u64 'a

text \<open>\<open>mt_items\<close> are the items in the order in which producers claimed positions for them; \<open>mt_taken\<close> the
  positions and values of the pops that have returned, in order of completion.\<close>

record 'a MThreads =
  mt_queue :: "'a MPMCQueue"
  mt_prod :: "nat \<Rightarrow> 'a mproducer"
  mt_cons :: "nat \<Rightarrow> 'a mconsumer"
  mt_items :: "'a list"
  mt_taken :: "(nat \<times> 'a) list"

definition mslot :: "u64 \<Rightarrow> u64 \<Rightarrow> nat" where
  "mslot cap pos = unat (pos AND mpmc_kMask cap)"

inductive mpmc_step :: "u64 \<Rightarrow> 'a MThreads \<Rightarrow> 'a MThreads \<Rightarrow> bool" for cap where
  p_call: "mt_prod s t = MPIdle \<Longrightarrow>
     mpmc_step cap s (s\<lparr>mt_prod := (mt_prod s)(t := MPLoop x (mq_enqueue_pos (mt_queue s)))\<rparr>)"
| p_room: "mt_prod s t = MPLoop x pos \<Longrightarrow> ptr_diff (mq_sequence (mt_queue s) (mslot cap pos)) pos = 0 \<Longrightarrow>
     mpmc_step cap s (s\<lparr>mt_prod := (mt_prod s)(t := MPCas x pos)\<rparr>)"
| p_full: "mt_prod s t = MPLoop x pos \<Longrightarrow> ptr_diff (mq_sequence (mt_queue s) (mslot cap pos)) pos < 0 \<Longrightarrow>
     mpmc_step cap s (s\<lparr>mt_prod := (mt_prod s)(t := MPIdle)\<rparr>)"
| p_ahead: "mt_prod s t = MPLoop x pos \<Longrightarrow> ptr_diff (mq_sequence (mt_queue s) (mslot cap pos)) pos > 0 \<Longrightarrow>
     mpmc_step cap s (s\<lparr>mt_prod := (mt_prod s)(t := MPReload x)\<rparr>)"
| p_reload: "mt_prod s t = MPReload x \<Longrightarrow>
     mpmc_step cap s (s\<lparr>mt_prod := (mt_prod s)(t := MPLoop x (mq_enqueue_pos (mt_queue s)))\<rparr>)"
| p_claim: "mt_prod s t = MPCas x pos \<Longrightarrow> mq_enqueue_pos (mt_queue s) = pos \<Longrightarrow>
     mpmc_step cap s (s\<lparr>mt_queue := (mt_queue s)\<lparr>mq_enqueue_pos := pos + 1\<rparr>,
       mt_prod := (mt_prod s)(t := MPWrite x pos), mt_items := mt_items s @ [x]\<rparr>)"
| p_lost: "mt_prod s t = MPCas x pos \<Longrightarrow>
     mpmc_step cap s (s\<lparr>mt_prod := (mt_prod s)(t := MPLoop x (mq_enqueue_pos (mt_queue s)))\<rparr>)"
| p_write: "mt_prod s t = MPWrite x pos \<Longrightarrow>
     mpmc_step cap s (s\<lparr>mt_queue := (mt_queue s)\<lparr>mq_data := (mq_data (mt_queue s))(mslot cap pos := x)\<rparr>,
       mt_prod := (mt_prod s)(t := MPPublish x pos)\<rparr>)"
| p_publish: "mt_prod s t = MPPublish x pos \<Longrightarrow>
     mpmc_step cap s (s\<lparr>mt_queue := (mt_queue s)\<lparr>mq_sequence := (mq_sequence (mt_queue s))(mslot cap pos := pos + 1)\<rparr>,
       mt_prod := (mt_prod s)(t := MPIdle)\<rparr>)"
| c_call: "mt_cons s t = MCIdle \<Longrightarrow>
     mpmc_step cap s (s\<lparr>mt_cons := (mt_cons s)(t := MCLoop (mq_dequeue_pos (mt_queue s)))\<rparr>)"
| c_ready: "mt_cons s t = MCLoop pos \<Longrightarrow> ptr_diff (mq_sequence (mt_queue s) (mslot cap pos)) (pos + 1) = 0 \<Longrightarrow>
     mpmc_step cap s (s\<lparr>mt_cons := (mt_cons s)(t := MCCas pos)\<rparr>)"
| c_empty: "mt_cons s t = MCLoop pos \<Longrightarrow> ptr_diff (mq_sequence (mt_queue s) (mslot cap pos)) (pos + 1) < 0 \<Longrightarrow>
     mpmc_step cap s (s\<lparr>mt_cons := (mt_cons s)(t := MCIdle)\<rparr>)"
| c_ahead: "mt_cons s t = MCLoop pos \<Longrightarrow> ptr_diff (mq_sequence (mt_queue s) (mslot cap pos)) (pos + 1) > 0 \<Longrightarrow>
     mpmc_step cap s (s\<lparr>mt_cons := (mt_cons s)(t := MCReload)\<rparr>)"
| c_reload: "mt_cons s t = MCReload \<Longrightarrow>
     mpmc_step cap s (s\<lparr>mt_cons := (mt_cons s)(t := MCLoop (mq_dequeue_pos (mt_queue s)))\<rparr>)"
| c_claim: "mt_cons s t = MCCas pos \<Longrightarrow> mq_dequeue_pos (mt_queue s) = pos \<Longrightarrow>
     mpmc_step cap s (s\<lparr>mt_queue := (mt_queue s)\<lparr>mq_dequeue_pos := pos + 1\<rparr>, mt_cons := (mt_cons s)(t := MCRead pos)\<rparr>)"
| c_lost: "mt_cons s t = MCCas pos \<Longrightarrow>
     mpmc_step cap s (s\<lparr>mt_cons := (mt_cons s)(t := MCLoop (mq_dequeue_pos (mt_queue s)))\<rparr>)"
| c_read: "mt_cons s t = MCRead pos \<Longrightarrow>
     mpmc_step cap s (s\<lparr>mt_cons := (mt_cons s)(t := MCRelease pos (mq_data (mt_queue s) (mslot cap pos)))\<rparr>)"
| c_release: "mt_cons s t = MCRelease pos v \<Longrightarrow>
     mpmc_step cap s (s\<lparr>mt_queue := (mt_queue s)\<lparr>mq_sequence := (mq_sequence (mt_queue s))(mslot cap pos := pos + mpmc_kMask cap + 1)\<rparr>,
       mt_cons := (mt_cons s)(t := MCIdle), mt_taken := mt_taken s @ [(unat pos, v)]\<rparr>)"

definition mpmc_start :: "u64 \<Rightarrow> 'a MPMCQueue \<Rightarrow> 'a MThreads" where
  "mpmc_start cap raw = \<lparr>mt_queue = mpmc_init cap raw, mt_prod = \<lambda>_. MPIdle, mt_cons = \<lambda>_. MCIdle, mt_items = [], mt_taken = []\<rparr>"

inductive mpmc_reach :: "u64 \<Rightarrow> 'a MThreads \<Rightarrow> bool" for cap where
  start: "mpmc_reach cap (mpmc_start cap raw)"
| step: "mpmc_reach cap s \<Longrightarrow> mpmc_step cap s s' \<Longrightarrow> mpmc_reach cap s'"

subsection \<open>Invariant\<close>

fun pclaim :: "'a mproducer \<Rightarrow> nat option" where
  "pclaim (MPWrite x pos) = Some (unat pos)"
| "pclaim (MPPublish x pos) = Some (unat pos)"
| "pclaim _ = None"

fun cclaim :: "'a mconsumer \<Rightarrow> nat option" where
  "cclaim (MCRead pos) = Some (unat pos)"
| "cclaim (MCRelease pos v) = Some (unat pos)"
| "cclaim _ = None"

text \<open>What a thread's local variables say.\<close>

fun plocal :: "nat \<Rightarrow> 'a list \<Rightarrow> (nat \<Rightarrow> nat) \<Rightarrow> 'a arr \<Rightarrow> 'a mproducer \<Rightarrow> bool" where
  "plocal c items sq dat (MPLoop x pos) = (unat pos \<le> length items)"
| "plocal c items sq dat (MPCas x pos) = (unat pos \<le> length items \<and> unat pos \<le> sq (unat pos mod c))"
| "plocal c items sq dat (MPWrite x pos) = (items ! unat pos = x)"
| "plocal c items sq dat (MPPublish x pos) = (items ! unat pos = x \<and> dat (unat pos mod c) = x)"
| "plocal c items sq dat _ = True"

fun clocal :: "nat \<Rightarrow> 'a list \<Rightarrow> nat \<Rightarrow> (nat \<Rightarrow> nat) \<Rightarrow> 'a mconsumer \<Rightarrow> bool" where
  "clocal c items D sq (MCLoop pos) = (unat pos \<le> D)"
| "clocal c items D sq (MCCas pos) = (unat pos \<le> D \<and> unat pos + 1 \<le> sq (unat pos mod c))"
| "clocal c items D sq (MCRelease pos v) = (v = items ! unat pos)"
| "clocal c items D sq _ = True"

definition taken_ok :: "'a list \<Rightarrow> nat \<Rightarrow> (nat \<Rightarrow> nat option) \<Rightarrow> (nat \<times> 'a) list \<Rightarrow> bool" where
  "taken_ok items D cc tk = (distinct (map fst tk) \<and> (\<forall>(p, v) \<in> set tk. p < D \<and> v = items ! p \<and> \<not> claimed cc p) \<and>
     (\<forall>p < D. claimed cc p \<or> p \<in> fst ` set tk))"

abbreviation seqs :: "'a MThreads \<Rightarrow> nat \<Rightarrow> nat" where
  "seqs s \<equiv> unat \<circ> mq_sequence (mt_queue s)"

definition minv :: "u64 \<Rightarrow> 'a MThreads \<Rightarrow> bool" where
  "minv cap s = (let c = unat cap; q = mt_queue s; D = unat (mq_dequeue_pos q) in
     valid_capacity cap \<and> unat (mq_enqueue_pos q) = length (mt_items s) \<and>
     slots_inv c (mt_items s) D (seqs s) (mq_data q) (pclaim \<circ> mt_prod s) (cclaim \<circ> mt_cons s) \<and>
     (\<forall>t. plocal c (mt_items s) (seqs s) (mq_data q) (mt_prod s t)) \<and>
     (\<forall>t. clocal c (mt_items s) D (seqs s) (mt_cons s t)) \<and>
     taken_ok (mt_items s) D (cclaim \<circ> mt_cons s) (mt_taken s))"


lemma minvD:
  assumes "minv cap s"
  shows "valid_capacity cap" "unat (mq_enqueue_pos (mt_queue s)) = length (mt_items s)"
    "slots_inv (unat cap) (mt_items s) (unat (mq_dequeue_pos (mt_queue s))) (seqs s) (mq_data (mt_queue s)) (pclaim \<circ> mt_prod s) (cclaim \<circ> mt_cons s)"
    "\<And>t. plocal (unat cap) (mt_items s) (seqs s) (mq_data (mt_queue s)) (mt_prod s t)"
    "\<And>t. clocal (unat cap) (mt_items s) (unat (mq_dequeue_pos (mt_queue s))) (seqs s) (mt_cons s t)"
    "taken_ok (mt_items s) (unat (mq_dequeue_pos (mt_queue s))) (cclaim \<circ> mt_cons s) (mt_taken s)"
    "1 < unat cap" "\<And>pos. mslot cap pos = unat pos mod unat cap"
  using assms by (auto simp: minv_def Let_def mslot_def slot_index valid_capacity_def word_less_nat_alt)

lemma plocal_mono: "plocal c items sq dat st \<Longrightarrow> (\<And>i. sq i \<le> sq' i) \<Longrightarrow> plocal c items sq' dat st"
  by (cases st) (auto intro: order_trans)

lemma clocal_mono: "clocal c items D sq st \<Longrightarrow> (\<And>i. sq i \<le> sq' i) \<Longrightarrow> D \<le> D' \<Longrightarrow> clocal c items D' sq' st"
  by (cases st) (auto intro: order_trans order_less_le_trans simp: Suc_le_eq)

lemma plocal_grow:
  "plocal c items sq dat st \<Longrightarrow> (\<And>p. pclaim st = Some p \<Longrightarrow> p < length items) \<Longrightarrow> plocal c (items @ [x]) sq dat st"
  by (cases st) (auto simp: nth_append)

lemma clocal_grow:
  "clocal c items D sq st \<Longrightarrow> (\<And>p. cclaim st = Some p \<Longrightarrow> p < length items) \<Longrightarrow> clocal c (items @ [x]) D sq st"
  by (cases st) (auto simp: nth_append)

lemma plocal_write:
  "plocal c items sq dat st \<Longrightarrow> (\<And>p. pclaim st = Some p \<Longrightarrow> p mod c \<noteq> k) \<Longrightarrow> plocal c items sq (dat(k := x)) st"
  by (cases st) auto

text \<open>Steps that change only the local variables of one thread.\<close>

lemma minv_producer_local:
  assumes inv: "minv cap s" and "pclaim st = pclaim (mt_prod s t)"
    "plocal (unat cap) (mt_items s) (seqs s) (mq_data (mt_queue s)) st"
  shows "minv cap (s\<lparr>mt_prod := (mt_prod s)(t := st)\<rparr>)"
proof -
  have "pclaim \<circ> (mt_prod s)(t := st) = pclaim \<circ> mt_prod s" using assms(2) by (auto simp: fun_eq_iff)
  then show ?thesis using inv assms(3) by (simp add: minv_def Let_def)
qed

lemma minv_consumer_local:
  assumes inv: "minv cap s" and "cclaim st = cclaim (mt_cons s t)"
    "clocal (unat cap) (mt_items s) (unat (mq_dequeue_pos (mt_queue s))) (seqs s) st"
  shows "minv cap (s\<lparr>mt_cons := (mt_cons s)(t := st)\<rparr>)"
proof -
  have "cclaim \<circ> (mt_cons s)(t := st) = cclaim \<circ> mt_cons s" using assms(2) by (auto simp: fun_eq_iff)
  then show ?thesis using inv assms(3) by (simp add: minv_def Let_def)
qed

lemma ptr_diff_eq_0: "ptr_diff a b = 0 \<longleftrightarrow> a = b"
  using signed_word_eqI [of a b] by (auto simp: ptr_diff_def)

lemma comp_upd: "f \<circ> g(t := v) = (f \<circ> g)(t := f v)"
  by (auto simp: fun_eq_iff)

text \<open>Steps on the shared variables.  The bound keeps every position below the wrap-around.\<close>

lemma minv_p_claim:
  assumes inv: "minv cap s" and st: "mt_prod s t = MPCas x pos" "mq_enqueue_pos (mt_queue s) = pos"
    and small: "length (mt_items s) + unat cap < 2 ^ 63"
  shows "minv cap (s\<lparr>mt_queue := (mt_queue s)\<lparr>mq_enqueue_pos := pos + 1\<rparr>,
       mt_prod := (mt_prod s)(t := MPWrite x pos), mt_items := mt_items s @ [x]\<rparr>)"
proof -
  let ?E = "length (mt_items s)" and ?c = "unat cap" and ?D = "unat (mq_dequeue_pos (mt_queue s))"
  note M = minvD [OF inv] and I = slots_invD [OF minvD(3) [OF inv]]
  have pos: "unat pos = ?E" "unat (pos + 1) = ?E + 1" using M(2,7) st(2) small pos_suc [of pos] by auto
  have sq: "?E \<le> seqs s (?E mod ?c)" using M(4) [of t] st(1) pos(1) by simp
  have "slots_inv ?c (mt_items s @ [x]) ?D (seqs s) (mq_data (mt_queue s)) ((pclaim \<circ> mt_prod s)(t := Some ?E)) (cclaim \<circ> mt_cons s)"
    using st(1) by (intro push_claims [OF M(3,7) sq]) simp
  moreover have "plocal ?c (mt_items s @ [x]) (seqs s) (mq_data (mt_queue s)) (mt_prod s u)" for u
    using M(4) I(5) [of u] by (intro plocal_grow) auto
  moreover have "clocal ?c (mt_items s @ [x]) ?D (seqs s) (mt_cons s u)" for u
    using M(5) I(1) I(7) [of u] by (intro clocal_grow) (auto intro: order_less_le_trans)
  moreover have "taken_ok (mt_items s @ [x]) ?D (cclaim \<circ> mt_cons s) (mt_taken s)"
    using M(6) I(1) by (fastforce simp: taken_ok_def nth_append)
  ultimately show ?thesis using M(1) pos by (simp add: minv_def Let_def comp_upd)
qed

lemma minv_p_write:
  assumes inv: "minv cap s" and st: "mt_prod s t = MPWrite x pos"
  shows "minv cap (s\<lparr>mt_queue := (mt_queue s)\<lparr>mq_data := (mq_data (mt_queue s))(mslot cap pos := x)\<rparr>,
       mt_prod := (mt_prod s)(t := MPPublish x pos)\<rparr>)"
proof -
  let ?c = "unat cap" and ?dat = "mq_data (mt_queue s)"
  note M = minvD [OF inv] and I = slots_invD [OF minvD(3) [OF inv]]
  have t: "(pclaim \<circ> mt_prod s) t = Some (unat pos)" using st by simp
  have cl: "pclaim \<circ> (mt_prod s)(t := MPPublish x pos) = pclaim \<circ> mt_prod s" using st by (auto simp: fun_eq_iff)
  have "plocal ?c (mt_items s) (seqs s) (?dat(unat pos mod ?c := x)) (mt_prod s u)" if "u \<noteq> t" for u
  proof (rule plocal_write [OF M(4)])
    fix p assume p: "pclaim (mt_prod s u) = Some p"
    then have "p \<noteq> unat pos" using I(6) [of t "unat pos" u] t that by auto
    then show "p mod ?c \<noteq> unat pos mod ?c"
      using lap_slot [of p ?c "unat pos"] producer_lap [OF M(3) t] producer_lap [OF M(3), of u p] p by auto
  qed
  moreover have "plocal ?c (mt_items s) (seqs s) (?dat(unat pos mod ?c := x)) (MPPublish x pos)"
    using M(4) [of t] st by simp
  ultimately show ?thesis using M push_writes [OF M(3), OF t, of x] by (simp add: minv_def Let_def cl)
qed

lemma minv_p_publish:
  assumes inv: "minv cap s" and st: "mt_prod s t = MPPublish x pos" and small: "length (mt_items s) + unat cap < 2 ^ 63"
  shows "minv cap (s\<lparr>mt_queue := (mt_queue s)\<lparr>mq_sequence := (mq_sequence (mt_queue s))(mslot cap pos := pos + 1)\<rparr>,
       mt_prod := (mt_prod s)(t := MPIdle)\<rparr>)"
proof -
  let ?c = "unat cap" and ?sq = "(seqs s)(unat pos mod unat cap := unat pos + 1)"
  note M = minvD [OF inv]
  have t: "(pclaim \<circ> mt_prod s) t = Some (unat pos)" using st by simp
  have d: "mq_data (mt_queue s) (unat pos mod ?c) = mt_items s ! unat pos" using M(4) [of t] st by simp
  note pub = push_publishes [OF M(3), OF t d]
  have suc: "unat (pos + 1) = unat pos + 1" using producer_lap [OF M(3) t] small pos_suc [of pos] by auto
  have mono: "seqs s i \<le> ?sq i" for i using pub(2) by simp
  have "plocal ?c (mt_items s) ?sq (mq_data (mt_queue s)) (mt_prod s u)" for u by (rule plocal_mono [OF M(4) mono])
  moreover have "clocal ?c (mt_items s) (unat (mq_dequeue_pos (mt_queue s))) ?sq (mt_cons s u)" for u
    by (rule clocal_mono [OF M(5) mono]) simp
  ultimately show ?thesis using M pub(1) by (simp add: minv_def Let_def comp_upd suc)
qed

lemma minv_c_claim:
  assumes inv: "minv cap s" and st: "mt_cons s t = MCCas pos" "mq_dequeue_pos (mt_queue s) = pos"
    and small: "length (mt_items s) + unat cap < 2 ^ 63"
  shows "minv cap (s\<lparr>mt_queue := (mt_queue s)\<lparr>mq_dequeue_pos := pos + 1\<rparr>, mt_cons := (mt_cons s)(t := MCRead pos)\<rparr>)"
proof -
  let ?c = "unat cap" and ?D = "unat pos"
  note M = minvD [OF inv, unfolded st(2)] and I = slots_invD [OF minvD(3) [OF inv], unfolded st(2)]
  have t: "(cclaim \<circ> mt_cons s) t = None" using st(1) by simp
  have sq: "?D + 1 \<le> seqs s (?D mod ?c)" using M(5) [of t] st(1) by simp
  have suc: "unat (pos + 1) = ?D + 1" using I(1) M(7) small pos_suc [of pos] by auto
  have cl: "claimed ((cclaim \<circ> mt_cons s)(t := Some ?D)) p \<longleftrightarrow> p = ?D \<or> claimed (cclaim \<circ> mt_cons s) p" for p
    by (rule claimed_upd_new) (rule t)
  have "taken_ok (mt_items s) (?D + 1) ((cclaim \<circ> mt_cons s)(t := Some ?D)) (mt_taken s)"
    using M(6) unfolding taken_ok_def cl by (fastforce simp: less_Suc_eq)
  moreover have "clocal ?c (mt_items s) (?D + 1) (seqs s) (mt_cons s u)" for u by (rule clocal_mono [OF M(5)]) auto
  ultimately show ?thesis using M pop_claims [OF M(3) M(7), OF sq, OF t] by (simp add: minv_def Let_def comp_upd suc)
qed

lemma minv_c_release:
  assumes inv: "minv cap s" and st: "mt_cons s t = MCRelease pos v" and small: "length (mt_items s) + unat cap < 2 ^ 63"
  shows "minv cap (s\<lparr>mt_queue := (mt_queue s)\<lparr>mq_sequence := (mq_sequence (mt_queue s))(mslot cap pos := pos + mpmc_kMask cap + 1)\<rparr>,
       mt_cons := (mt_cons s)(t := MCIdle), mt_taken := mt_taken s @ [(unat pos, v)]\<rparr>)"
proof -
  let ?c = "unat cap" and ?sq = "(seqs s)(unat pos mod unat cap := unat pos + unat cap)" and ?D = "unat (mq_dequeue_pos (mt_queue s))"
  note M = minvD [OF inv] and I = slots_invD [OF minvD(3) [OF inv]]
  have t: "(cclaim \<circ> mt_cons s) t = Some (unat pos)" using st by simp
  have v: "v = mt_items s ! unat pos" using M(5) [of t] st by simp
  have rel: "unat (pos + mpmc_kMask cap + 1) = unat pos + ?c"
    using consumer_lap [OF M(3) t] small by (intro pos_release [OF M(1)]) auto
  have mono: "seqs s i \<le> ?sq i" for i using consumer_slot(2) [OF M(3) t] M(7) by simp
  have cl: "claimed ((cclaim \<circ> mt_cons s)(t := None)) p \<longleftrightarrow> p \<noteq> unat pos \<and> claimed (cclaim \<circ> mt_cons s) p" for p
    using t I(8) by (intro claimed_upd_done) blast+
  have "plocal ?c (mt_items s) ?sq (mq_data (mt_queue s)) (mt_prod s u)" for u by (rule plocal_mono [OF M(4) mono])
  moreover have "clocal ?c (mt_items s) ?D ?sq (mt_cons s u)" for u by (rule clocal_mono [OF M(5) mono]) simp
  moreover have "claimed (cclaim \<circ> mt_cons s) (unat pos)" using t by (auto simp: claimed_def)
  then have "taken_ok (mt_items s) ?D ((cclaim \<circ> mt_cons s)(t := None)) (mt_taken s @ [(unat pos, v)])"
    using M(6) I(7) [OF t] v unfolding taken_ok_def cl by fastforce
  ultimately show ?thesis using M pop_releases [OF M(3), OF t] by (simp add: minv_def Let_def comp_upd rel)
qed

theorem minv_step:
  assumes step: "mpmc_step cap s s'" and inv: "minv cap s" and small: "length (mt_items s) + unat cap < 2 ^ 63"
  shows "minv cap s'"
proof -
  note M = minvD [OF inv]
  from step show ?thesis
  proof cases
    case (p_room t x pos)
    then have "mq_sequence (mt_queue s) (unat pos mod unat cap) = pos" by (simp add: ptr_diff_eq_0 M(8))
    then show ?thesis unfolding p_room using p_room M(4) [of t] by (intro minv_producer_local [OF inv]) auto
  next
    case (c_ready t pos)
    then have "mq_sequence (mt_queue s) (unat pos mod unat cap) = pos + 1" by (simp add: ptr_diff_eq_0 M(8))
    moreover have "unat pos \<le> unat (mq_dequeue_pos (mt_queue s))" using M(5) [of t] c_ready by simp
    then have "unat (pos + 1) = unat pos + 1" using slots_invD(1) [OF M(3)] M(7) small pos_suc [of pos] by auto
    ultimately show ?thesis unfolding c_ready using c_ready M(5) [of t] by (intro minv_consumer_local [OF inv]) auto
  next
    case (c_read t pos)
    then have "mq_data (mt_queue s) (mslot cap pos) = mt_items s ! unat pos"
      using consumer_slot(1) [OF M(3), of t "unat pos"] by (simp add: M(8))
    then show ?thesis unfolding c_read using c_read by (intro minv_consumer_local [OF inv]) auto
  qed (use M(2) small inv in \<open>auto intro!: minv_producer_local minv_consumer_local minv_p_claim minv_p_write minv_p_publish minv_c_claim minv_c_release\<close>)
qed

lemma mpmc_step_grows: "mpmc_step cap s s' \<Longrightarrow> length (mt_items s) \<le> length (mt_items s')"
  by (cases rule: mpmc_step.cases) auto

lemma minv_start: "valid_capacity cap \<Longrightarrow> minv cap (mpmc_start cap raw)"
proof -
  assume cap: "valid_capacity cap"
  have "unat (of_nat p :: u64) = p" if "p < unat cap" for p
    using that unsigned_less [of cap, where 'a = nat] by (intro unat_of_nat_small) auto
  then show ?thesis using cap
    by (auto simp: minv_def mpmc_start_def mpmc_init_def Let_def slots_inv_def taken_ok_def)
qed

lemma minv_reach: "mpmc_reach cap s \<Longrightarrow> valid_capacity cap \<Longrightarrow> length (mt_items s) + unat cap < 2 ^ 63 \<Longrightarrow> minv cap s"
proof (induction rule: mpmc_reach.induct)
  case (start raw)
  then show ?case by (simp add: minv_start)
next
  case (step s s')
  then have "length (mt_items s) + unat cap < 2 ^ 63" using mpmc_step_grows [OF step.hyps(2)] by linarith
  then show ?case using step by (auto intro: minv_step)
qed

lemma idle_holds:
  assumes inv: "minv cap s" and idle: "pclaim \<circ> mt_prod s = (\<lambda>_. None)" "cclaim \<circ> mt_cons s = (\<lambda>_. None)"
  shows "mpmc_holds cap (unat (mq_dequeue_pos (mt_queue s))) (mt_queue s) (drop (unat (mq_dequeue_pos (mt_queue s))) (mt_items s))"
proof -
  let ?c = "unat cap" and ?D = "unat (mq_dequeue_pos (mt_queue s))" and ?E = "length (mt_items s)"
  note M = minvD [OF inv] and I = slots_invD [OF minvD(3) [OF inv], unfolded idle]
  have st: "unat (mq_sequence (mt_queue s) (p mod ?c)) = (if ?D \<le> p then p + 1 else p + ?c)"
    "?D \<le> p \<Longrightarrow> mq_data (mt_queue s) (p mod ?c) = mt_items s ! p" if "p < ?E" "?E \<le> p + ?c" for p
    using I(3) [OF that] by (auto simp: slot_state_def claimed_def split: if_splits)
  have free: "unat (mq_sequence (mt_queue s) (p mod ?c)) = p" if p: "?E \<le> p" "p < ?D + ?c" for p
  proof (cases "p < ?c")
    case True
    then show ?thesis using I(4) [OF p(1)] by simp
  next
    case False
    then have q: "p - ?c < ?D" "?E \<le> (p - ?c) + ?c" "(p - ?c) mod ?c = p mod ?c" using p by (auto simp: le_mod_geq)
    then show ?thesis using st(1) [of "p - ?c"] I(1) False by auto
  qed
  show ?thesis unfolding mpmc_holds_def
    using M(1,2) I(1,2) st [of "?D + i" for i] free by (auto simp: less_diff_conv add.commute)
qed

text \<open>C34. Any number of producers and consumers may use the queue at once.  After every interleaving of
  their accesses in which fewer than \<open>2 ^ 63\<close> positions are handed out: at most \<open>cap\<close> items are claimed
  and not yet taken; every completed pop returned the item of its own position, no position was taken
  twice; when no pop is under way all positions before the read position have been taken, so nothing is
  lost; and when all threads are idle the queue holds exactly the items not yet taken, in order.\<close>

theorem mpmc_interleaving:
  assumes "mpmc_reach cap s" "valid_capacity cap" "length (mt_items s) + unat cap < 2 ^ 63"
  shows "let E = length (mt_items s); D = unat (mq_dequeue_pos (mt_queue s)) in
     unat (mq_enqueue_pos (mt_queue s)) = E \<and> D \<le> E \<and> E \<le> D + unat cap \<and>
     distinct (map fst (mt_taken s)) \<and> (\<forall>(p, v) \<in> set (mt_taken s). p < D \<and> v = mt_items s ! p) \<and>
     ((\<forall>t. mt_cons s t = MCIdle) \<longrightarrow> fst ` set (mt_taken s) = {..<D}) \<and>
     ((\<forall>t. mt_prod s t = MPIdle) \<and> (\<forall>t. mt_cons s t = MCIdle) \<longrightarrow> mpmc_holds cap D (mt_queue s) (drop D (mt_items s)))"
proof -
  let ?E = "length (mt_items s)" and ?D = "unat (mq_dequeue_pos (mt_queue s))"
  have inv: "minv cap s" using minv_reach assms by blast
  note M = minvD [OF inv] and I = slots_invD [OF minvD(3) [OF inv]]
  have T: "distinct (map fst (mt_taken s))" "\<forall>(p, v) \<in> set (mt_taken s). p < ?D \<and> v = mt_items s ! p"
    "\<forall>p < ?D. claimed (cclaim \<circ> mt_cons s) p \<or> p \<in> fst ` set (mt_taken s)"
    using M(6) by (auto simp: taken_ok_def)
  have none: "cclaim \<circ> mt_cons s = (\<lambda>_. None)" if "\<forall>t. mt_cons s t = MCIdle" using that by (auto simp: fun_eq_iff)
  have "fst ` set (mt_taken s) = {..<?D}" if "\<forall>t. mt_cons s t = MCIdle"
    using T(2,3) unfolding none [OF that] by (fastforce simp: claimed_def)
  moreover have "mpmc_holds cap ?D (mt_queue s) (drop ?D (mt_items s))"
    if "\<forall>t. mt_prod s t = MPIdle" "\<forall>t. mt_cons s t = MCIdle"
    using idle_holds [OF inv _ none [OF that(2)]] that(1) by (auto simp: fun_eq_iff)
  ultimately show ?thesis using M(2) I(1,2) T(1,2) unfolding Let_def by blast
qed

text \<open>Two producers race for position 0, the second loses its exchange, and a consumer takes the winner's item.\<close>

theorem mpmc_interleaving_witness:
  "\<exists>s. mpmc_reach 4 s \<and> mt_items s = [7 :: nat] \<and> mt_taken s = [(0, 7)] \<and> mt_prod s 1 = MPLoop 8 1 \<and>
     fst ` set (mt_taken s) = {..<unat (mq_dequeue_pos (mt_queue s))}"
proof -
  have cap: "valid_capacity 4" by (simp add: valid_capacity_def)
  define raw :: "nat MPMCQueue" where "raw = \<lparr>mq_sequence = \<lambda>_. 9, mq_data = \<lambda>_. 0, mq_enqueue_pos = 3, mq_dequeue_pos = 8\<rparr>"
  note run = mpmc_start_def mpmc_init_def mslot_def mpmc_kMask_def ptr_diff_eq_0 raw_def
  have s0: "mpmc_reach 4 (mpmc_start 4 raw)" by (rule mpmc_reach.start)
  note s1 = mpmc_reach.step [OF s0 p_call [of _ 0 _ 7], simplified run, simplified]
  note s2 = mpmc_reach.step [OF s1 p_call [of _ 1 _ 8], simplified run, simplified]
  note s3 = mpmc_reach.step [OF s2 p_room [of _ 0 7 0], simplified run, simplified]
  note s4 = mpmc_reach.step [OF s3 p_room [of _ 1 8 0], simplified run, simplified]
  note s5 = mpmc_reach.step [OF s4 p_claim [of _ 0 7 0], simplified run, simplified]
  note s6 = mpmc_reach.step [OF s5 p_lost [of _ 1 8 0], simplified run, simplified]
  note s7 = mpmc_reach.step [OF s6 p_write [of _ 0 7 0], simplified run, simplified]
  note s8 = mpmc_reach.step [OF s7 p_publish [of _ 0 7 0], simplified run, simplified]
  note s9 = mpmc_reach.step [OF s8 c_call [of _ 0], simplified run, simplified]
  note s10 = mpmc_reach.step [OF s9 c_ready [of _ 0 0], simplified run, simplified]
  note s11 = mpmc_reach.step [OF s10 c_claim [of _ 0 0], simplified run, simplified]
  note s12 = mpmc_reach.step [OF s11 c_read [of _ 0 0], simplified run, simplified]
  note s13 = mpmc_reach.step [OF s12 c_release [of _ 0 0 7], simplified run, simplified]
  show ?thesis
    by (rule exI, rule conjI, rule s13) (use mpmc_interleaving [OF s13 cap] in \<open>simp add: Let_def\<close>)
qed

end
