(* ===== verification/Market_Data.thy ===== *)
theory Market_Data
  imports Byte_Codec Spsc_Queue
begin

text \<open>
  \<^verbatim>\<open>MarketDataIngestion\<close> (\<^verbatim>\<open>core/market_data.hpp\<close>, \<^verbatim>\<open>core/market_data.cpp\<close>): the feed decoder.  A datagram
  is a list of bytes; decoded messages go to the queue the matching engine reads.  The gap callback
  is external code: \<open>mi_gap_cb\<close> says whether one is bound and \<open>mi_gap_calls\<close> records the calls made to it.
  \<open>Inl\<close> is a call whose precondition the code does not establish.
\<close>

subsection \<open>Wire format\<close>

record WireHeader =
  wh_magic :: u32
  wh_version :: u16
  wh_msg_type :: u16
  wh_seq_num :: u64
  wh_payload_len :: u32

record WireNewOrder =
  wn_order_id :: u64
  wn_price_fp :: u64
  wn_qty :: u32
  wn_symbol_id :: u16
  wn_side :: u8
  wn_order_type :: u8

record WireCancelOrder =
  wc_order_id :: u64
  wc_symbol_id :: u16

record WireModifyOrder =
  wm_order_id :: u64
  wm_new_qty :: u32
  wm_symbol_id :: u16

definition kMagic :: u32 where "kMagic = 0xFEED1234"

definition sizeof_WireHeader :: nat where "sizeof_WireHeader = 20"
definition sizeof_WireNewOrder :: nat where "sizeof_WireNewOrder = 24"
definition sizeof_WireCancelOrder :: nat where "sizeof_WireCancelOrder = 16"
definition sizeof_WireModifyOrder :: nat where "sizeof_WireModifyOrder = 16"

lemmas sizeof_defs = sizeof_WireHeader_def sizeof_WireNewOrder_def sizeof_WireCancelOrder_def
  sizeof_WireModifyOrder_def

text \<open>\<^verbatim>\<open>std::memcpy(&hdr, data.data(), sizeof(hdr))\<close> and its three companions.\<close>

definition load_header :: "u8 list \<Rightarrow> WireHeader" where
  "load_header bs = \<lparr>wh_magic = get_le (bytes_at 0 4 bs), wh_version = get_le (bytes_at 4 2 bs),
     wh_msg_type = get_le (bytes_at 6 2 bs), wh_seq_num = get_le (bytes_at 8 8 bs),
     wh_payload_len = get_le (bytes_at 16 4 bs)\<rparr>"

definition load_new_order :: "u8 list \<Rightarrow> WireNewOrder" where
  "load_new_order bs = \<lparr>wn_order_id = get_le (bytes_at 0 8 bs), wn_price_fp = get_le (bytes_at 8 8 bs),
     wn_qty = get_le (bytes_at 16 4 bs), wn_symbol_id = get_le (bytes_at 20 2 bs),
     wn_side = get_le (bytes_at 22 1 bs), wn_order_type = get_le (bytes_at 23 1 bs)\<rparr>"

definition load_cancel_order :: "u8 list \<Rightarrow> WireCancelOrder" where
  "load_cancel_order bs = \<lparr>wc_order_id = get_le (bytes_at 0 8 bs), wc_symbol_id = get_le (bytes_at 8 2 bs)\<rparr>"

definition load_modify_order :: "u8 list \<Rightarrow> WireModifyOrder" where
  "load_modify_order bs = \<lparr>wm_order_id = get_le (bytes_at 0 8 bs), wm_new_qty = get_le (bytes_at 8 4 bs),
     wm_symbol_id = get_le (bytes_at 12 2 bs)\<rparr>"

definition kMsgNewOrder :: u16 where "kMsgNewOrder = 1"
definition kMsgCancelOrder :: u16 where "kMsgCancelOrder = 2"
definition kMsgModify :: u16 where "kMsgModify = 3"
definition kMsgHeartbeat :: u16 where "kMsgHeartbeat = 99"

lemmas kMsg_defs = kMsgNewOrder_def kMsgCancelOrder_def kMsgModify_def kMsgHeartbeat_def

subsection \<open>Decoders\<close>

text \<open>\<open>None\<close> is the return value \<^verbatim>\<open>false\<close>; \<open>out\<close> is the message passed by reference.\<close>

definition decode_new_order :: "u8 list \<Rightarrow> MarketDataMsg \<Rightarrow> MarketDataMsg option" where
  "decode_new_order payload out = (
     if length payload < sizeof_WireNewOrder then None
     else let w = load_new_order payload
       in Some (out\<lparr>m_msg_type := NewOrder, m_order_id := wn_order_id w, m_price := sint (wn_price_fp w),
            m_qty := wn_qty w, m_symbol := wn_symbol_id w,
            m_side := (if wn_side w = 0 then Buy else Sell),
            m_order_type := order_type_of_byte (wn_order_type w)\<rparr>))"

definition decode_cancel :: "u8 list \<Rightarrow> MarketDataMsg \<Rightarrow> MarketDataMsg option" where
  "decode_cancel payload out = (
     if length payload < sizeof_WireCancelOrder then None
     else let w = load_cancel_order payload
       in Some (out\<lparr>m_msg_type := CancelOrder, m_order_id := wc_order_id w, m_symbol := wc_symbol_id w\<rparr>))"

definition decode_modify :: "u8 list \<Rightarrow> MarketDataMsg \<Rightarrow> MarketDataMsg option" where
  "decode_modify payload out = (
     if length payload < sizeof_WireModifyOrder then None
     else let w = load_modify_order payload
       in Some (out\<lparr>m_msg_type := ModifyOrder, m_order_id := wm_order_id w, m_qty := wm_new_qty w,
            m_symbol := wm_symbol_id w\<rparr>))"

text \<open>\<^verbatim>\<open>MarketDataMsg msg{}\<close>: all members zero, that is a limit buy \<^verbatim>\<open>NewOrder\<close>.\<close>

definition zero_msg :: MarketDataMsg where
  "zero_msg = \<lparr>m_seq = 0, m_order_id = 0, m_price = 0, m_qty = 0, m_symbol = 0, m_side = Buy,
     m_msg_type = NewOrder, m_order_type = Limit\<rparr>"

text \<open>The switch of \<^verbatim>\<open>ingest\<close>; an unknown type and a failed decoder both end in an error.\<close>

definition decode_message :: "WireHeader \<Rightarrow> u8 list \<Rightarrow> MarketDataMsg option" where
  "decode_message hdr payload = (
     let msg = zero_msg\<lparr>m_seq := wh_seq_num hdr\<rparr>
     in if wh_msg_type hdr = kMsgNewOrder then decode_new_order payload msg
        else if wh_msg_type hdr = kMsgCancelOrder then decode_cancel payload msg
        else if wh_msg_type hdr = kMsgModify then decode_modify payload msg
        else if wh_msg_type hdr = kMsgHeartbeat then Some (msg\<lparr>m_msg_type := Heartbeat\<rparr>)
        else None)"

subsection \<open>Ingestion\<close>

definition md_kQueueDepth :: u64 where "md_kQueueDepth = 65536"

record MarketDataIngestion =
  mi_outbound :: "MarketDataMsg SPSCQueue"
  mi_gap_cb :: bool
  mi_gap_calls :: "(u64 \<times> u64) list"
  mi_expected_seq :: u64
  mi_stat_ingested :: u64
  mi_stat_gaps :: u64
  mi_stat_errors :: u64

definition new_ingestion :: "MarketDataMsg SPSCQueue \<Rightarrow> MarketDataIngestion" where
  "new_ingestion outbound = \<lparr>mi_outbound = outbound, mi_gap_cb = False, mi_gap_calls = [],
     mi_expected_seq = 0, mi_stat_ingested = 0, mi_stat_gaps = 0, mi_stat_errors = 0\<rparr>"

definition on_gap :: "bool \<Rightarrow> MarketDataIngestion \<Rightarrow> MarketDataIngestion" where
  "on_gap callable mi = mi\<lparr>mi_gap_cb := callable\<rparr>"

definition inject :: "MarketDataMsg \<Rightarrow> MarketDataIngestion \<Rightarrow> bool \<times> MarketDataIngestion" where
  "inject msg mi = (let (ok, q) = spsc_try_push md_kQueueDepth msg (mi_outbound mi) in (ok, mi\<lparr>mi_outbound := q\<rparr>))"

definition reset_sequence :: "MarketDataIngestion \<Rightarrow> MarketDataIngestion" where
  "reset_sequence mi = mi\<lparr>mi_expected_seq := 0\<rparr>"

definition count_error :: "MarketDataIngestion \<Rightarrow> MarketDataIngestion" where
  "count_error mi = mi\<lparr>mi_stat_errors := mi_stat_errors mi + 1\<rparr>"

text \<open>Gap detection and the new expectation.\<close>

definition track_sequence :: "u64 \<Rightarrow> MarketDataIngestion \<Rightarrow> MarketDataIngestion" where
  "track_sequence seq_num mi = (
     let expected = mi_expected_seq mi;
         mi1 = (if expected \<noteq> 0 \<and> seq_num \<noteq> expected
                then mi\<lparr>mi_stat_gaps := mi_stat_gaps mi + 1,
                        mi_gap_calls := mi_gap_calls mi @ (if mi_gap_cb mi then [(expected, seq_num)] else [])\<rparr>
                else mi)
     in mi1\<lparr>mi_expected_seq := seq_num + 1\<rparr>)"

datatype feed_fault = SubspanOutOfRange

definition ingest :: "u8 list \<Rightarrow> MarketDataIngestion \<Rightarrow> feed_fault + (int \<times> MarketDataIngestion)" where
  "ingest data mi = (
     if length data < sizeof_WireHeader then Inr (0, count_error mi)
     else let hdr = load_header data
     in if wh_magic hdr \<noteq> kMagic then Inr (0, count_error mi)
     else let mi1 = track_sequence (wh_seq_num hdr) mi;
              payload_len = unat (wh_payload_len hdr)
     in if payload_len > length data - sizeof_WireHeader then Inl SubspanOutOfRange
     else let payload = bytes_at sizeof_WireHeader payload_len data
     in if length payload < payload_len then Inr (0, count_error mi1)
     else (case decode_message hdr payload of None \<Rightarrow> Inr (0, count_error mi1)
       | Some msg \<Rightarrow> (let (ok, q) = spsc_try_push md_kQueueDepth msg (mi_outbound mi1)
           in if \<not> ok then Inr (0, mi1\<lparr>mi_outbound := q\<rparr>)
              else Inr (1, mi1\<lparr>mi_outbound := q, mi_stat_ingested := mi_stat_ingested mi1 + 1\<rparr>))))"

text \<open>A feed: datagrams in order of arrival, with the number of messages decoded.\<close>

primrec ingest_all :: "u8 list list \<Rightarrow> MarketDataIngestion \<Rightarrow> feed_fault + (int \<times> MarketDataIngestion)" where
  "ingest_all [] mi = Inr (0, mi)"
| "ingest_all (d # ds) mi = (case ingest d mi of Inl e \<Rightarrow> Inl e
     | Inr (n, mi1) \<Rightarrow> (case ingest_all ds mi1 of Inl e \<Rightarrow> Inl e | Inr (k, mi2) \<Rightarrow> Inr (n + k, mi2)))"

subsection \<open>What a sender puts on the wire\<close>

text \<open>The encoding the wire structs prescribe, for the messages that the decoder can produce: members a
  message type does not carry are zero.\<close>

definition wire_payload :: "MarketDataMsg \<Rightarrow> u8 list" where
  "wire_payload m = (case m_msg_type m of
     NewOrder \<Rightarrow> put_le 8 (m_order_id m) @ put_le 8 (word_of_int (m_price m) :: u64) @ put_le 4 (m_qty m) @
       put_le 2 (m_symbol m) @ [side_byte (m_side m), order_type_byte (m_order_type m)]
   | CancelOrder \<Rightarrow> put_le 8 (m_order_id m) @ put_le 2 (m_symbol m) @ replicate 6 0
   | ModifyOrder \<Rightarrow> put_le 8 (m_order_id m) @ put_le 4 (m_qty m) @ put_le 2 (m_symbol m) @ replicate 2 0
   | _ \<Rightarrow> [])"

definition wire_type :: "MsgType \<Rightarrow> u16" where
  "wire_type t = (case t of NewOrder \<Rightarrow> kMsgNewOrder | CancelOrder \<Rightarrow> kMsgCancelOrder
     | ModifyOrder \<Rightarrow> kMsgModify | Heartbeat \<Rightarrow> kMsgHeartbeat | UnknownMsgType b \<Rightarrow> ucast b)"

definition wire_encode :: "u16 \<Rightarrow> MarketDataMsg \<Rightarrow> u8 list" where
  "wire_encode version m = put_le 4 kMagic @ put_le 2 version @ put_le 2 (wire_type (m_msg_type m)) @
     put_le 8 (m_seq m) @ put_le 4 (of_nat (length (wire_payload m)) :: u32) @ wire_payload m"

definition wire_msg :: "MarketDataMsg \<Rightarrow> bool" where
  "wire_msg m = (case m_msg_type m of
     NewOrder \<Rightarrow> in_int64 (m_price m) \<and> order_type_ok (m_order_type m)
   | CancelOrder \<Rightarrow> m_price m = 0 \<and> m_qty m = 0 \<and> m_side m = Buy \<and> m_order_type m = Limit
   | ModifyOrder \<Rightarrow> m_price m = 0 \<and> m_side m = Buy \<and> m_order_type m = Limit
   | Heartbeat \<Rightarrow> m_order_id m = 0 \<and> m_price m = 0 \<and> m_qty m = 0 \<and> m_symbol m = 0 \<and> m_side m = Buy \<and>
       m_order_type m = Limit
   | UnknownMsgType _ \<Rightarrow> False)"

text \<open>The datagrams that have a header, and those the decoder accepts.\<close>

definition header_ok :: "u8 list \<Rightarrow> bool" where
  "header_ok data = (20 \<le> length data \<and> wh_magic (load_header data) = kMagic)"

definition datagram_ok :: "u8 list \<Rightarrow> bool" where
  "datagram_ok data = (20 \<le> length data \<and> (let hdr = load_header data; len = unat (wh_payload_len hdr) in
     wh_magic hdr = kMagic \<and> 20 + len \<le> length data \<and>
     (wh_msg_type hdr = 1 \<and> 24 \<le> len \<or> wh_msg_type hdr = 2 \<and> 16 \<le> len \<or> wh_msg_type hdr = 3 \<and> 16 \<le> len \<or>
      wh_msg_type hdr = 99)))"

text \<open>The gaps of a sequence of numbers: a successor other than the one expected.  The expectation 0
  means none, so nothing is detected after the number \<open>2 ^ 64 - 1\<close>.\<close>

definition seq_breaks :: "u64 list \<Rightarrow> (u64 \<times> u64) list" where
  "seq_breaks ss = filter (\<lambda>(e, s). e \<noteq> 0 \<and> s \<noteq> e) (zip (map (\<lambda>s. s + 1) ss) (tl ss))"

subsection \<open>Decoding\<close>

lemma valid_queue_depth: "valid_capacity md_kQueueDepth"
  by (simp add: valid_capacity_def md_kQueueDepth_def)

lemma queue_room: "unat md_kQueueDepth - 1 = 65535"
  by (simp add: md_kQueueDepth_def)

lemma length_wire_payload:
  "length (wire_payload m) = (case m_msg_type m of NewOrder \<Rightarrow> 24 | CancelOrder \<Rightarrow> 16 | ModifyOrder \<Rightarrow> 16 | _ \<Rightarrow> 0)"
  by (simp add: wire_payload_def split: MsgType.split)

lemma load_header_encode:
  "load_header (wire_encode version m) = \<lparr>wh_magic = kMagic, wh_version = version,
     wh_msg_type = wire_type (m_msg_type m), wh_seq_num = m_seq m,
     wh_payload_len = of_nat (length (wire_payload m))\<rparr>"
  by (simp add: load_header_def wire_encode_def)

lemma load_new_order_encode:
  assumes "m_msg_type m = NewOrder"
  shows "load_new_order (wire_payload m) = \<lparr>wn_order_id = m_order_id m, wn_price_fp = word_of_int (m_price m),
     wn_qty = m_qty m, wn_symbol_id = m_symbol m, wn_side = side_byte (m_side m),
     wn_order_type = order_type_byte (m_order_type m)\<rparr>"
proof -
  have "bytes_at 0 1 [a, b] = [a]" "bytes_at 1 1 [a, b] = [b]" for a b :: u8 by (simp_all add: bytes_at_def)
  then show ?thesis using assms by (simp add: load_new_order_def wire_payload_def)
qed

lemma decode_message_encode:
  assumes "wire_msg m" "wh_msg_type hdr = wire_type (m_msg_type m)" "wh_seq_num hdr = m_seq m"
  shows "decode_message hdr (wire_payload m) = Some m"
proof (cases "m_msg_type m")
  case NewOrder
  then show ?thesis
    using assms load_new_order_encode [OF NewOrder] length_wire_payload [of m]
    by (cases "m_side m") (simp_all add: wire_msg_def decode_message_def decode_new_order_def wire_type_def
        kMsg_defs sizeof_defs zero_msg_def order_type_ok_def)
next
  case CancelOrder
  then show ?thesis
    using assms length_wire_payload [of m]
    by (simp add: wire_msg_def decode_message_def decode_cancel_def wire_type_def kMsg_defs sizeof_defs
        zero_msg_def load_cancel_order_def wire_payload_def)
next
  case ModifyOrder
  then show ?thesis
    using assms length_wire_payload [of m]
    by (simp add: wire_msg_def decode_message_def decode_modify_def wire_type_def kMsg_defs sizeof_defs
        zero_msg_def load_modify_order_def wire_payload_def)
next
  case Heartbeat
  then show ?thesis
    using assms by (simp add: wire_msg_def decode_message_def wire_type_def kMsg_defs zero_msg_def)
next
  case (UnknownMsgType b)
  then show ?thesis using assms by (simp add: wire_msg_def)
qed

subsection \<open>One datagram\<close>

definition datagram_msg :: "u8 list \<Rightarrow> MarketDataMsg option" where
  "datagram_msg data = (let hdr = load_header data
     in decode_message hdr (bytes_at 20 (unat (wh_payload_len hdr)) data))"

lemma decode_message_None:
  "decode_message hdr payload = None \<longleftrightarrow> \<not> (wh_msg_type hdr = 1 \<and> 24 \<le> length payload \<or>
     wh_msg_type hdr = 2 \<and> 16 \<le> length payload \<or> wh_msg_type hdr = 3 \<and> 16 \<le> length payload \<or> wh_msg_type hdr = 99)"
  by (simp add: decode_message_def decode_new_order_def decode_cancel_def decode_modify_def kMsg_defs sizeof_defs
      Let_def not_less)

lemma decode_message_seq: "decode_message hdr payload = Some m \<Longrightarrow> m_seq m = wh_seq_num hdr"
  by (auto simp: decode_message_def decode_new_order_def decode_cancel_def decode_modify_def Let_def split: if_splits)

lemma datagram_msg_Some:
  "20 \<le> length data \<Longrightarrow> wh_magic (load_header data) = kMagic \<Longrightarrow>
    20 + unat (wh_payload_len (load_header data)) \<le> length data \<Longrightarrow> datagram_ok data \<longleftrightarrow> datagram_msg data \<noteq> None"
  by (simp add: datagram_ok_def datagram_msg_def Let_def decode_message_None length_bytes_at)

lemma ingest_accepts:
  assumes "datagram_ok data" "spsc_holds md_kQueueDepth (mi_outbound mi) xs"
  obtains m q where "datagram_msg data = Some m" "m_seq m = wh_seq_num (load_header data)"
    "spsc_holds md_kQueueDepth q (if length xs < 65535 then xs @ [m] else xs)"
    "ingest data mi = Inr (if length xs < 65535 then 1 else 0,
       (track_sequence (m_seq m) mi)\<lparr>mi_outbound := q,
          mi_stat_ingested := mi_stat_ingested mi + (if length xs < 65535 then 1 else 0)\<rparr>)"
proof -
  let ?hdr = "load_header data"
  have d: "20 \<le> length data" "wh_magic ?hdr = kMagic" "20 + unat (wh_payload_len ?hdr) \<le> length data"
    using assms(1) by (auto simp: datagram_ok_def Let_def)
  then obtain m where m: "datagram_msg data = Some m" using datagram_msg_Some [of data] assms(1) by auto
  then have dec: "decode_message ?hdr (bytes_at 20 (unat (wh_payload_len ?hdr)) data) = Some m"
    by (simp add: datagram_msg_def Let_def)
  then have seq: "m_seq m = wh_seq_num ?hdr" by (rule decode_message_seq)
  have frame: "mi_outbound (track_sequence s mi) = mi_outbound mi"
    "mi_stat_ingested (track_sequence s mi) = mi_stat_ingested mi" for s
    by (simp_all add: track_sequence_def Let_def)
  obtain q where q: "spsc_try_push md_kQueueDepth m (mi_outbound mi) = (length xs < 65535, q)"
    "spsc_holds md_kQueueDepth q (if length xs < 65535 then xs @ [m] else xs)"
    using spsc.push_cases [OF assms(2), of m thesis] unfolding queue_room by blast
  have "ingest data mi = Inr (if length xs < 65535 then 1 else 0,
     (track_sequence (m_seq m) mi)\<lparr>mi_outbound := q,
        mi_stat_ingested := mi_stat_ingested mi + (if length xs < 65535 then 1 else 0)\<rparr>)"
    using d dec q(1) seq
    by (auto simp: ingest_def sizeof_defs Let_def length_bytes_at frame)
  then show thesis using that m seq q(2) by blast
qed

lemma ingest_rejects:
  assumes "\<not> datagram_ok data"
  shows "if 20 \<le> length data \<and> wh_magic (load_header data) = kMagic
     then ingest data mi = (if length data < 20 + unat (wh_payload_len (load_header data)) then Inl SubspanOutOfRange
       else Inr (0, count_error (track_sequence (wh_seq_num (load_header data)) mi)))
     else ingest data mi = Inr (0, count_error mi)"
proof -
  let ?hdr = "load_header data"
  have "decode_message ?hdr (bytes_at 20 (unat (wh_payload_len ?hdr)) data) = None"
    if "20 \<le> length data" "wh_magic ?hdr = kMagic" "20 + unat (wh_payload_len ?hdr) \<le> length data"
    using datagram_msg_Some [OF that] assms by (simp add: datagram_msg_def Let_def)
  then show ?thesis by (auto simp: ingest_def sizeof_defs Let_def length_bytes_at)
qed

subsection \<open>A feed\<close>

lemma datagram_ok_encode: "wire_msg m \<Longrightarrow> datagram_ok (wire_encode v m)"
  by (cases "m_msg_type m")
    (simp_all add: datagram_ok_def load_header_encode Let_def length_wire_payload wire_type_def kMsg_defs wire_msg_def,
     simp_all add: wire_encode_def length_wire_payload)

lemma datagram_msg_encode: "wire_msg m \<Longrightarrow> datagram_msg (wire_encode v m) = Some m"
proof -
  assume m: "wire_msg m"
  have "unat (of_nat (length (wire_payload m)) :: u32) = length (wire_payload m)"
    by (simp add: length_wire_payload split: MsgType.split)
  moreover have "bytes_at 20 (length (wire_payload m)) (wire_encode v m) = wire_payload m"
    by (simp add: wire_encode_def)
  ultimately show ?thesis
    using decode_message_encode [OF m] by (simp add: datagram_msg_def load_header_encode Let_def)
qed

definition gaps_from :: "u64 \<Rightarrow> u64 list \<Rightarrow> (u64 \<times> u64) list" where
  "gaps_from e ss = filter (\<lambda>(e, s). e \<noteq> 0 \<and> s \<noteq> e) (zip (e # map (\<lambda>s. s + 1) ss) ss)"

lemma gaps_from_Nil [simp]: "gaps_from e [] = []"
  by (simp add: gaps_from_def)

lemma gaps_from_Cons: "gaps_from e (s # ss) = (if e \<noteq> 0 \<and> s \<noteq> e then [(e, s)] else []) @ gaps_from (s + 1) ss"
  by (simp add: gaps_from_def)

lemma gaps_from_0: "gaps_from 0 ss = seq_breaks ss"
  by (cases ss) (simp_all add: gaps_from_def seq_breaks_def)

lemma track_sequence_gaps:
  "track_sequence s mi = mi\<lparr>mi_expected_seq := s + 1,
     mi_stat_gaps := mi_stat_gaps mi + of_nat (length (gaps_from (mi_expected_seq mi) [s])),
     mi_gap_calls := mi_gap_calls mi @ (if mi_gap_cb mi then gaps_from (mi_expected_seq mi) [s] else [])\<rparr>"
  by (simp add: track_sequence_def gaps_from_def Let_def)

text \<open>What a run of accepted messages does to the decoder.\<close>

definition fed :: "MarketDataMsg list \<Rightarrow> nat \<Rightarrow> MarketDataIngestion \<Rightarrow> MarketDataIngestion \<Rightarrow> bool" where
  "fed ms k mi mi' = (let gaps = gaps_from (mi_expected_seq mi) (map m_seq ms) in
     mi_gap_cb mi' = mi_gap_cb mi \<and>
     mi_gap_calls mi' = mi_gap_calls mi @ (if mi_gap_cb mi then gaps else []) \<and>
     mi_stat_gaps mi' = mi_stat_gaps mi + of_nat (length gaps) \<and>
     mi_stat_ingested mi' = mi_stat_ingested mi + of_nat k \<and> mi_stat_errors mi' = mi_stat_errors mi)"

lemma feed_delivers_aux:
  assumes "\<forall>m \<in> set ms. wire_msg m" "spsc_holds md_kQueueDepth (mi_outbound mi) xs"
  shows "\<exists>mi'. ingest_all (map (wire_encode v) ms) mi = Inr (int (min (length ms) (65535 - length xs)), mi') \<and>
     spsc_holds md_kQueueDepth (mi_outbound mi') (xs @ take (65535 - length xs) ms) \<and>
     fed ms (min (length ms) (65535 - length xs)) mi mi'"
  using assms
proof (induction ms arbitrary: mi xs)
  case Nil
  then show ?case by (simp add: fed_def gaps_from_def)
next
  case (Cons m ms)
  let ?fits = "length xs < 65535"
  let ?xs1 = "if ?fits then xs @ [m] else xs"
  have m: "wire_msg m" "datagram_msg (wire_encode v m) = Some m"
    using Cons.prems(1) datagram_msg_encode [of m v] by auto
  obtain q where q: "spsc_holds md_kQueueDepth q ?xs1"
    "ingest (wire_encode v m) mi = Inr (if ?fits then 1 else 0, (track_sequence (m_seq m) mi)\<lparr>mi_outbound := q,
       mi_stat_ingested := mi_stat_ingested mi + (if ?fits then 1 else 0)\<rparr>)"
    using ingest_accepts [OF datagram_ok_encode [OF m(1), of v] Cons.prems(2)] m(2) by (metis option.inject)
  let ?mi1 = "(track_sequence (m_seq m) mi)\<lparr>mi_outbound := q,
       mi_stat_ingested := mi_stat_ingested mi + (if ?fits then 1 else 0)\<rparr>"
  have "\<forall>m \<in> set ms. wire_msg m" "spsc_holds md_kQueueDepth (mi_outbound ?mi1) ?xs1" using Cons.prems q(1) by simp_all
  from Cons.IH [OF this] obtain mi' where
    run: "ingest_all (map (wire_encode v) ms) ?mi1 = Inr (int (min (length ms) (65535 - length ?xs1)), mi')" and
    holds: "spsc_holds md_kQueueDepth (mi_outbound mi') (?xs1 @ take (65535 - length ?xs1) ms)" and
    fed: "fed ms (min (length ms) (65535 - length ?xs1)) ?mi1 mi'" by blast
  have count: "min (length (m # ms)) (65535 - length xs) = (if ?fits then 1 else 0) + min (length ms) (65535 - length ?xs1)"
    by (auto simp: min_def)
  have "?xs1 @ take (65535 - length ?xs1) ms = xs @ take (65535 - length xs) (m # ms)"
    by (simp add: take_Cons')
  moreover have "fed (m # ms) (min (length (m # ms)) (65535 - length xs)) mi mi'"
    using fed unfolding count fed_def Let_def track_sequence_gaps by (cases "mi_gap_cb mi") (simp_all add: gaps_from_Cons)
  ultimately show ?case using run holds q(2) count by auto
qed

subsection \<open>Properties\<close>

text \<open>C19. Feed delivery.  Encoding messages in the wire format and ingesting the datagrams decodes
  every one of them: the queue to the engine receives exactly those messages, in order and
  unchanged, up to its capacity of 65535; the return values count what was queued; no parse error is
  counted; and the gap counter and the gap callbacks are exactly the places where a sequence number
  is not the successor of its predecessor (except after the largest number, where the expectation
  wraps to 0, which stands for none).\<close>

theorem feed_delivers:
  assumes "\<forall>m \<in> set ms. wire_msg m" and "spsc_holds md_kQueueDepth q xs"
    and "n = min (length ms) (65535 - length xs)"
  shows "\<exists>mi'. ingest_all (map (wire_encode v) ms) (on_gap True (new_ingestion q)) = Inr (int n, mi') \<and>
     spsc_holds md_kQueueDepth (mi_outbound mi') (xs @ take n ms) \<and>
     mi_gap_calls mi' = seq_breaks (map m_seq ms) \<and>
     mi_stat_gaps mi' = of_nat (length (seq_breaks (map m_seq ms))) \<and>
     mi_stat_ingested mi' = of_nat n \<and> mi_stat_errors mi' = 0"
proof -
  let ?mi = "on_gap True (new_ingestion q)"
  have mi: "mi_outbound ?mi = q" "mi_expected_seq ?mi = 0" "mi_gap_cb ?mi" "mi_gap_calls ?mi = []"
    "mi_stat_gaps ?mi = 0" "mi_stat_ingested ?mi = 0" "mi_stat_errors ?mi = 0"
    by (simp_all add: on_gap_def new_ingestion_def)
  have tk: "take n ms = take (65535 - length xs) ms" using assms(3) by (simp add: min_def)
  show ?thesis
    using feed_delivers_aux [of ms ?mi xs v] assms mi tk by (auto simp: fed_def gaps_from_0 Let_def)
qed

theorem feed_delivers_witness:
  "\<exists>mi'. ingest_all (map (wire_encode 1) [zero_msg\<lparr>m_seq := 5, m_order_id := 7, m_price := - 3\<rparr>, zero_msg\<lparr>m_seq := 9\<rparr>])
       (on_gap True (new_ingestion (spsc_init \<lparr>sq_buffer = \<lambda>_. zero_msg, sq_write_pos = 3, sq_read_pos = 1\<rparr>))) = Inr (2, mi') \<and>
     mi_gap_calls mi' = [(6, 9)] \<and> mi_stat_ingested mi' = 2"
proof -
  let ?q = "spsc_init \<lparr>sq_buffer = \<lambda>_. zero_msg, sq_write_pos = 3, sq_read_pos = 1\<rparr>"
  let ?ms = "[zero_msg\<lparr>m_seq := 5, m_order_id := 7, m_price := - 3\<rparr>, zero_msg\<lparr>m_seq := 9\<rparr>]"
  have "\<forall>m \<in> set ?ms. wire_msg m" by (simp add: wire_msg_def zero_msg_def in_int64_def)
  moreover have "spsc_holds md_kQueueDepth ?q []" using valid_queue_depth by (rule spsc_init_holds)
  ultimately show ?thesis
    using feed_delivers [of ?ms ?q "[]" 2 1] by (auto simp: seq_breaks_def)
qed

text \<open>A datagram that is a header alone.\<close>

definition bare_header :: "u16 \<Rightarrow> u32 \<Rightarrow> u8 list" where
  "bare_header ty len = put_le 4 kMagic @ put_le 2 (1 :: u16) @ put_le 2 ty @ put_le 8 (9 :: u64) @ put_le 4 len"

lemma bare_header_load:
  "length (bare_header ty len) = 20"
  "load_header (bare_header ty len) = \<lparr>wh_magic = kMagic, wh_version = 1, wh_msg_type = ty, wh_seq_num = 9, wh_payload_len = len\<rparr>"
  by (simp_all add: bare_header_def load_header_def)

text \<open>C20. Datagram accounting.  Whatever the bytes, they decide which of four outcomes a datagram has.  One whose header is
  valid and announces more payload than the datagram has, and only such a one, violates the precondition of
  \<^verbatim>\<open>std::span::subspan\<close>, before the length check that is meant to catch it.  Every other datagram returns: a
  well-formed one is queued as the message its bytes encode and counted as ingested, or dropped without any count when the queue
  is full, and a malformed one is counted as a parse error and queues nothing.  The sequence number is tracked, and a gap
  counted, exactly when size and magic of the header are right.\<close>

theorem ingest_accounting:
  assumes "spsc_holds md_kQueueDepth (mi_outbound mi) xs"
  shows "if header_ok data \<and> length data < 20 + unat (wh_payload_len (load_header data))
     then ingest data mi = Inl SubspanOutOfRange
     else \<exists>n mi'. ingest data mi = Inr (n, mi') \<and>
       mi_expected_seq mi' = (if header_ok data then wh_seq_num (load_header data) + 1 else mi_expected_seq mi) \<and>
       mi_stat_gaps mi' = mi_stat_gaps mi +
         of_bool (header_ok data \<and> mi_expected_seq mi \<noteq> 0 \<and> wh_seq_num (load_header data) \<noteq> mi_expected_seq mi) \<and>
       (if datagram_ok data then
         \<exists>m. datagram_msg data = Some m \<and> m_seq m = wh_seq_num (load_header data) \<and> mi_stat_errors mi' = mi_stat_errors mi \<and>
           (if length xs < 65535
            then n = 1 \<and> spsc_holds md_kQueueDepth (mi_outbound mi') (xs @ [m]) \<and>
                 mi_stat_ingested mi' = mi_stat_ingested mi + 1
            else n = 0 \<and> spsc_holds md_kQueueDepth (mi_outbound mi') xs \<and> mi_stat_ingested mi' = mi_stat_ingested mi)
       else n = 0 \<and> mi_outbound mi' = mi_outbound mi \<and> mi_stat_errors mi' = mi_stat_errors mi + 1 \<and>
            mi_stat_ingested mi' = mi_stat_ingested mi)"
proof (cases "datagram_ok data")
  case True
  then have ok: "header_ok data" "\<not> length data < 20 + unat (wh_payload_len (load_header data))"
    by (auto simp: datagram_ok_def header_ok_def Let_def)
  obtain m q where "datagram_msg data = Some m" "m_seq m = wh_seq_num (load_header data)"
    "spsc_holds md_kQueueDepth q (if length xs < 65535 then xs @ [m] else xs)"
    "ingest data mi = Inr (if length xs < 65535 then 1 else 0,
       (track_sequence (m_seq m) mi)\<lparr>mi_outbound := q,
          mi_stat_ingested := mi_stat_ingested mi + (if length xs < 65535 then 1 else 0)\<rparr>)"
    using True assms by (rule ingest_accepts)
  with True ok show ?thesis by (cases "length xs < 65535") (simp_all add: track_sequence_gaps gaps_from_def)
next
  case False
  with ingest_rejects [OF False, of mi] show ?thesis
    by (auto simp: header_ok_def track_sequence_gaps gaps_from_def count_error_def split: if_splits)
qed

theorem ingest_accounting_witness:
  "let q = spsc_init \<lparr>sq_buffer = \<lambda>_. zero_msg, sq_write_pos = 3, sq_read_pos = 1\<rparr> in spsc_holds md_kQueueDepth q [] \<and>
   (\<exists>mi'. ingest [1, 2, 3] (new_ingestion q) = Inr (0, mi') \<and> mi_stat_errors mi' = 1) \<and>
   ingest (bare_header 1 5) (new_ingestion q) = Inl SubspanOutOfRange \<and>
   (\<exists>mi' m. ingest (bare_header 99 0) (new_ingestion q) = Inr (1, mi') \<and> spsc_holds md_kQueueDepth (mi_outbound mi') [m] \<and>
     m_seq m = 9 \<and> mi_expected_seq mi' = 10)"
proof -
  let ?q = "spsc_init \<lparr>sq_buffer = \<lambda>_. zero_msg, sq_write_pos = 3, sq_read_pos = 1\<rparr>"
  have q: "spsc_holds md_kQueueDepth ?q []" using valid_queue_depth by (rule spsc_init_holds)
  then have mi: "spsc_holds md_kQueueDepth (mi_outbound (new_ingestion ?q)) []" by (simp add: new_ingestion_def)
  note acc = ingest_accounting [OF mi]
  have "\<exists>mi'. ingest [1, 2, 3] (new_ingestion ?q) = Inr (0, mi') \<and> mi_stat_errors mi' = 1"
    using acc [of "[1, 2, 3]"] by (auto simp: new_ingestion_def datagram_ok_def header_ok_def)
  moreover have "ingest (bare_header 1 5) (new_ingestion ?q) = Inl SubspanOutOfRange"
    using acc [of "bare_header 1 5"] by (simp add: header_ok_def bare_header_load)
  moreover have "\<exists>mi' m. ingest (bare_header 99 0) (new_ingestion ?q) = Inr (1, mi') \<and>
      spsc_holds md_kQueueDepth (mi_outbound mi') [m] \<and> m_seq m = 9 \<and> mi_expected_seq mi' = 10"
    using acc [of "bare_header 99 0"] by (auto simp: header_ok_def datagram_ok_def bare_header_load)
  ultimately show ?thesis using q by simp
qed

subsection \<open>What arbitrary bytes can put into the queue\<close>

lemma decode_message_typed: "decode_message hdr payload = Some m \<Longrightarrow> wire_msg m"
  by (auto simp: decode_message_def decode_new_order_def decode_cancel_def decode_modify_def zero_msg_def wire_msg_def Let_def split: if_splits)

lemma track_sequence_outbound [simp]: "mi_outbound (track_sequence s mi) = mi_outbound mi"
  by (simp add: track_sequence_def Let_def)

lemma ingest_typed_one:
  assumes h: "spsc_holds md_kQueueDepth (mi_outbound mi) xs" and i: "ingest d mi = Inr (n, mi')"
  shows "\<exists>ys. spsc_holds md_kQueueDepth (mi_outbound mi') (xs @ ys) \<and> int (length ys) = n \<and> (\<forall>m \<in> set ys. wire_msg m)"
proof -
  have keep: ?thesis if "n = 0" "mi_outbound mi' = mi_outbound mi" using that h by (intro exI [of _ "[]"]) simp
  let ?hdr = "load_header d" and ?payload = "bytes_at sizeof_WireHeader (unat (wh_payload_len (load_header d))) d"
  show ?thesis
  proof (cases "sizeof_WireHeader \<le> length d \<and> wh_magic ?hdr = kMagic \<and> unat (wh_payload_len ?hdr) \<le> length ?payload \<and>
      decode_message ?hdr ?payload \<noteq> None")
    case False
    then have "n = 0 \<and> mi_outbound mi' = mi_outbound mi"
      using i by (auto simp: ingest_def count_error_def Let_def split: if_splits option.splits)
    then show ?thesis using keep by blast
  next
    case True
    then obtain m where m: "decode_message ?hdr ?payload = Some m" by blast
    obtain q where q: "spsc_try_push md_kQueueDepth m (mi_outbound mi) = (length xs < unat md_kQueueDepth - 1, q)"
      "spsc_holds md_kQueueDepth q (if length xs < unat md_kQueueDepth - 1 then xs @ [m] else xs)"
      using spsc.push_cases [OF h] by blast
    have "n = (if length xs < unat md_kQueueDepth - 1 then 1 else 0) \<and> mi_outbound mi' = q"
      using i True m q(1) by (auto simp: ingest_def Let_def split: if_splits)
    then show ?thesis using q(2) decode_message_typed [OF m]
      by (intro exI [of _ "if length xs < unat md_kQueueDepth - 1 then [m] else []"]) auto
  qed
qed

text \<open>C40. Whatever the datagrams, what the decoder queues is well typed: every queued message is one of the
  wire format (a 64-bit price, a declared message type, and zero in the members its type does not use),
  the order type of a new order being any byte, declared or not; the return
  values count exactly the queued messages, which follow those already in the queue.\<close>

theorem ingest_typed:
  assumes "spsc_holds md_kQueueDepth (mi_outbound mi) xs" "ingest_all ds mi = Inr (n, mi')"
  shows "\<exists>ys. spsc_holds md_kQueueDepth (mi_outbound mi') (xs @ ys) \<and> int (length ys) = n \<and> (\<forall>m \<in> set ys. wire_msg m)"
  using assms
proof (induction ds arbitrary: mi xs n)
  case Nil
  then show ?case by (intro exI [of _ "[]"]) simp
next
  case (Cons d ds)
  obtain k l mi1 where s: "ingest d mi = Inr (k, mi1)" "ingest_all ds mi1 = Inr (l, mi')" "n = k + l"
    using Cons.prems(2) by (auto split: sum.splits)
  obtain ys where ys: "spsc_holds md_kQueueDepth (mi_outbound mi1) (xs @ ys)" "int (length ys) = k" "\<forall>m \<in> set ys. wire_msg m"
    using ingest_typed_one [OF Cons.prems(1) s(1)] by blast
  obtain zs where "spsc_holds md_kQueueDepth (mi_outbound mi') ((xs @ ys) @ zs)" "int (length zs) = l" "\<forall>m \<in> set zs. wire_msg m"
    using Cons.IH [OF ys(1) s(2)] by blast
  then show ?case using ys s(3) by (intro exI [of _ "ys @ zs"]) auto
qed

text \<open>A new order of the unknown type 9 is queued.\<close>

theorem ingest_typed_witness:
  "\<exists>mi' m. ingest_all [put_le 4 kMagic @ put_le 2 (1 :: u16) @ put_le 2 kMsgNewOrder @ put_le 8 (5 :: u64) @ put_le 4 (24 :: u32) @
       replicate 23 0 @ [9]] (new_ingestion (spsc_init \<lparr>sq_buffer = \<lambda>_. zero_msg, sq_write_pos = 3, sq_read_pos = 1\<rparr>)) = Inr (1, mi') \<and>
     spsc_holds md_kQueueDepth (mi_outbound mi') [m] \<and> wire_msg m"
proof -
  let ?q = "spsc_init \<lparr>sq_buffer = \<lambda>_. zero_msg, sq_write_pos = 3, sq_read_pos = 1\<rparr>"
  let ?d = "put_le 4 kMagic @ put_le 2 (1 :: u16) @ put_le 2 kMsgNewOrder @ put_le 8 (5 :: u64) @ put_le 4 (24 :: u32) @ replicate 23 0 @ [9 :: u8]"
  have q: "spsc_holds md_kQueueDepth ?q []" using valid_queue_depth by (rule spsc_init_holds)
  have "fst (spsc_try_push md_kQueueDepth m ?q)" for m
    using spsc.push_room [OF q, of m] cap_gt_1 [OF valid_queue_depth] by auto
  then obtain mi' where r: "ingest_all [?d] (new_ingestion ?q) = Inr (1, mi')"
    by (simp add: ingest_def sizeof_defs load_header_def kMsg_defs kMagic_def decode_message_def decode_new_order_def new_ingestion_def
        length_bytes_at Let_def track_sequence_def case_prod_unfold)
  from ingest_typed [of "new_ingestion ?q" "[]", OF _ r] q obtain ys
    where "spsc_holds md_kQueueDepth (mi_outbound mi') ys" "int (length ys) = 1" "\<forall>m \<in> set ys. wire_msg m"
    by (auto simp: new_ingestion_def)
  moreover from this(2) obtain m where "ys = [m]" by (cases ys) auto
  ultimately show ?thesis using r by auto
qed

end
