(* ===== verification/Matching_Engine.thy ===== *)
theory Matching_Engine
  imports Book_Theorems Spsc_Queue
begin

text \<open>
  \<^verbatim>\<open>MatchingEngine\<close> (\<^verbatim>\<open>core/matching_engine.hpp\<close>, \<^verbatim>\<open>core/matching_engine.cpp\<close>): one book per registered
  symbol between an inbound queue of messages and an outbound queue of execution reports.  The books
  call back into \<^verbatim>\<open>on_execution\<close> once per fill; the callback touches the outbound queue and a counter
  only, so the reports of a call are delivered, in order, after it.  An operation returns \<open>None\<close> when a
  loop of the book does not end.
\<close>

subsection \<open>State and operations\<close>

definition me_kQueueDepth :: u64 where "me_kQueueDepth = 65536"
definition kMaxSymbols :: nat where "kMaxSymbols = 256"

record MatchingEngine =
  me_inbound :: "MarketDataMsg SPSCQueue"
  me_outbound :: "ExecutionReport SPSCQueue"
  me_books :: "OrderBook option arr"
  me_running :: bool
  me_stat_messages :: u64
  me_stat_matches :: u64
  me_next_order_id :: u64

text \<open>Construction; \<open>inq\<close> and \<open>outq\<close> hold the uninitialised buffers.\<close>

definition new_engine :: "MarketDataMsg SPSCQueue \<Rightarrow> ExecutionReport SPSCQueue \<Rightarrow> MatchingEngine" where
  "new_engine inq outq = \<lparr>me_inbound = spsc_init inq, me_outbound = spsc_init outq, me_books = \<lambda>_. None,
     me_running = False, me_stat_messages = 0, me_stat_matches = 0, me_next_order_id = 1\<rparr>"

definition register_symbol :: "SymbolId \<Rightarrow> OrderBook \<Rightarrow> MatchingEngine \<Rightarrow> bool \<times> MatchingEngine" where
  "register_symbol sid raw me = (
     if unat sid \<ge> kMaxSymbols then (False, me)
     else if me_books me (unat sid) \<noteq> None then (False, me)
     else (True, me\<lparr>me_books := (me_books me)(unat sid := Some (new_book sid True raw))\<rparr>))"

definition engine_start :: "MatchingEngine \<Rightarrow> MatchingEngine" where
  "engine_start me = me\<lparr>me_running := True\<rparr>"

definition engine_stop :: "MatchingEngine \<Rightarrow> MatchingEngine" where
  "engine_stop me = me\<lparr>me_running := False\<rparr>"

definition engine_submit :: "MarketDataMsg \<Rightarrow> MatchingEngine \<Rightarrow> bool \<times> MatchingEngine" where
  "engine_submit msg me = (let (ok, q) = spsc_try_push me_kQueueDepth msg (me_inbound me) in (ok, me\<lparr>me_inbound := q\<rparr>))"

definition poll_report :: "MatchingEngine \<Rightarrow> ExecutionReport option \<times> MatchingEngine" where
  "poll_report me = (let (r, q) = spsc_try_pop me_kQueueDepth (me_outbound me) in (r, me\<lparr>me_outbound := q\<rparr>))"

definition on_execution :: "ExecutionReport \<Rightarrow> MatchingEngine \<Rightarrow> MatchingEngine" where
  "on_execution rpt me = me\<lparr>me_stat_matches := me_stat_matches me + 1,
     me_outbound := snd (spsc_try_push me_kQueueDepth rpt (me_outbound me))\<rparr>"

text \<open>The order built from a \<^verbatim>\<open>NewOrder\<close> message, \<open>oid\<close> being its own id or a synthetic one.\<close>

definition msg_order :: "OrderId \<Rightarrow> MarketDataMsg \<Rightarrow> Order" where
  "msg_order oid msg = \<lparr>o_id = oid, o_price = m_price msg, o_qty = m_qty msg, o_qty_remaining = m_qty msg,
     o_symbol = m_symbol msg, o_side = m_side msg, o_type = m_order_type msg, o_status = StatusNew, o_account_id = 0\<rparr>"

text \<open>The switch of \<^verbatim>\<open>process_message\<close>: the call on the book, with the reports it fires.\<close>

definition dispatch_message ::
  "MarketDataMsg \<Rightarrow> OrderBook \<Rightarrow> MatchingEngine \<Rightarrow> (MatchingEngine \<times> ExecutionReport list) option" where
  "dispatch_message msg book me = (
     let store = (\<lambda>b e. e\<lparr>me_books := (me_books e)(unat (m_symbol msg) := Some b)\<rparr>)
     in case m_msg_type msg of
       NewOrder \<Rightarrow>
         (let oid = (if m_order_id msg \<noteq> 0 then m_order_id msg else me_next_order_id me);
              me1 = (if m_order_id msg \<noteq> 0 then me else me\<lparr>me_next_order_id := me_next_order_id me + 1\<rparr>)
          in do { (_, book', rpts) \<leftarrow> add_order (msg_order oid msg) book; Some (store book' me1, rpts) })
     | CancelOrder \<Rightarrow> do { (_, book') \<leftarrow> cancel_order (m_order_id msg) book; Some (store book' me, []) }
     | ModifyOrder \<Rightarrow> do { (_, book') \<leftarrow> modify_order (m_order_id msg) (m_qty msg) book; Some (store book' me, []) }
     | Heartbeat \<Rightarrow> Some (me, [])
     | UnknownMsgType _ \<Rightarrow> Some (me, []))"

definition handle_message :: "MarketDataMsg \<Rightarrow> MatchingEngine \<Rightarrow> (MatchingEngine \<times> ExecutionReport list) option" where
  "handle_message msg me = (
     if unat (m_symbol msg) \<ge> kMaxSymbols then Some (me, [])
     else case me_books me (unat (m_symbol msg)) of None \<Rightarrow> Some (me, [])
       | Some book \<Rightarrow> dispatch_message msg book me)"

definition process_message :: "MarketDataMsg \<Rightarrow> MatchingEngine \<Rightarrow> MatchingEngine option" where
  "process_message msg me = do { (me', rpts) \<leftarrow> handle_message msg me; Some (fold on_execution rpts me') }"

text \<open>One turn of the busy-polling loop, and the drain loop on shutdown.\<close>

definition loop_turn :: "MatchingEngine \<Rightarrow> MatchingEngine option" where
  "loop_turn me = (case spsc_try_pop me_kQueueDepth (me_inbound me) of
     (None, q) \<Rightarrow> Some (me\<lparr>me_inbound := q\<rparr>)
   | (Some msg, q) \<Rightarrow> do {
       me' \<leftarrow> process_message msg (me\<lparr>me_inbound := q\<rparr>);
       Some (me'\<lparr>me_stat_messages := me_stat_messages me' + 1\<rparr>) })"

partial_function (option) drain_inbound :: "MatchingEngine \<Rightarrow> MatchingEngine option" where
  "drain_inbound me = (case spsc_try_pop me_kQueueDepth (me_inbound me) of
     (None, q) \<Rightarrow> Some (me\<lparr>me_inbound := q\<rparr>)
   | (Some msg, q) \<Rightarrow> do { me' \<leftarrow> process_message msg (me\<lparr>me_inbound := q\<rparr>); drain_inbound me' })"

declare drain_inbound.simps [code]

subsection \<open>Abstract engine\<close>

text \<open>What the engine computes: a reference book per registered symbol, and the next synthetic id.\<close>

record RefEngine =
  re_books :: "nat \<Rightarrow> RefBook option"
  re_next :: OrderId

definition msg_op :: "MarketDataMsg \<Rightarrow> OrderId \<Rightarrow> BookOp option \<times> OrderId" where
  "msg_op msg fresh = (case m_msg_type msg of
     NewOrder \<Rightarrow> if m_order_id msg \<noteq> 0 then (Some (AddOp (msg_order (m_order_id msg) msg)), fresh)
       else (Some (AddOp (msg_order fresh msg)), fresh + 1)
   | CancelOrder \<Rightarrow> (Some (CancelOp (m_order_id msg)), fresh)
   | ModifyOrder \<Rightarrow> (Some (ModifyOp (m_order_id msg) (m_qty msg)), fresh)
   | _ \<Rightarrow> (None, fresh))"

definition ref_message :: "MarketDataMsg \<Rightarrow> RefEngine \<Rightarrow> RefEngine \<times> Fill list" where
  "ref_message msg re = (case re_books re (unat (m_symbol msg)) of None \<Rightarrow> (re, [])
     | Some rb \<Rightarrow> (case msg_op msg (re_next re) of (None, n) \<Rightarrow> (re, [])
         | (Some op, n) \<Rightarrow> (let (_, rb', fs) = ref_step op rb
             in (\<lparr>re_books = (re_books re)(unat (m_symbol msg) := Some rb'), re_next = n\<rparr>, fs))))"

primrec ref_messages :: "MarketDataMsg list \<Rightarrow> RefEngine \<Rightarrow> RefEngine \<times> Fill list" where
  "ref_messages [] re = (re, [])"
| "ref_messages (m # ms) re = (let (re1, fs) = ref_message m re; (re2, gs) = ref_messages ms re1 in (re2, fs @ gs))"

text \<open>No message reuses the id of an order that rests in its book.\<close>

definition msg_fresh :: "MarketDataMsg \<Rightarrow> RefEngine \<Rightarrow> bool" where
  "msg_fresh msg re = (case re_books re (unat (m_symbol msg)) of None \<Rightarrow> True
     | Some rb \<Rightarrow> (case fst (msg_op msg (re_next re)) of None \<Rightarrow> True | Some op \<Rightarrow> op_fresh op rb))"

primrec msgs_fresh :: "MarketDataMsg list \<Rightarrow> RefEngine \<Rightarrow> bool" where
  "msgs_fresh [] re = True"
| "msgs_fresh (m # ms) re = (msg_fresh m re \<and> msgs_fresh ms (fst (ref_message m re)))"

definition abs_engine :: "MatchingEngine \<Rightarrow> RefEngine" where
  "abs_engine me = \<lparr>re_books = \<lambda>i. if i < kMaxSymbols then map_option abs_book (me_books me i) else None,
     re_next = me_next_order_id me\<rparr>"

text \<open>The invariant: every book is well formed, bound to the engine, and filed under its own symbol.  With
  \<open>u\<close> it also says that no book holds an id twice.\<close>

definition engine_inv :: "bool \<Rightarrow> MatchingEngine \<Rightarrow> bool" where
  "engine_inv u me = (\<forall>i < kMaxSymbols. \<forall>b. me_books me i = Some b \<longrightarrow>
     book_inv b \<and> (u \<longrightarrow> book_inv_unique b) \<and> ob_match_cb b \<and> unat (ob_symbol b) = i)"

subsection \<open>One call on a book\<close>

lemma fill_reports_symbol: "r \<in> set (fill_reports sy od n fs) \<Longrightarrow> r_symbol r = sy"
  by (induction fs arbitrary: n) auto

lemma book_step_result:
  assumes inv: "book_inv b" and cb: "ob_match_cb b"
  shows "\<exists>ok b' rs. book_step op b = Some (ok, b', rs) \<and> book_inv b' \<and> ob_match_cb b' \<and> ob_symbol b' = ob_symbol b \<and>
     (\<forall>r \<in> set rs. r_symbol r = ob_symbol b) \<and>
     (book_inv_unique b \<and> op_fresh op (abs_book b) \<longrightarrow>
        book_inv_unique b' \<and> ref_step op (abs_book b) = (ok, abs_book b', map report_fill rs))"
proof (cases op)
  case (AddOp od)
  obtain acc rb' fs where ref: "ref_add kMaxLevels kMaxOrders od (abs_book b) = (acc, rb', fs)" by (metis prod_cases3)
  obtain b' where b': "add_order od b = Some (acc, b', emitted b od (o_qty_remaining od) fs)"
    "book_inv b'" "abs_book b' = rb'" "counted b acc (walled od (abs_book b)) (length fs) b'"
    "book_inv_unique b \<and> o_id od \<notin> set (ref_ids (abs_book b)) \<longrightarrow> book_inv_unique b'"
    using add_order_result [OF inv ref] by metis
  have "ob_match_cb b'" "ob_symbol b' = ob_symbol b" using b'(4) cb by (simp_all add: counted_def)
  then show ?thesis
    using AddOp b' ref cb by (auto simp: book_step_def ref_step_def emitted_def op_fresh_def fill_reports_symbol)
next
  case (CancelOp oid)
  obtain ok b' where b': "cancel_order oid b = Some (ok, b')" "book_inv b'" "if ok then cancel_conf b b' else b' = b"
    "book_inv_unique b \<longrightarrow> book_inv_unique b' \<and> ref_cancel oid (abs_book b) = (ok, abs_book b')"
    using cancel_order_result [OF inv, of oid] by blast
  have "ob_match_cb b'" "ob_symbol b' = ob_symbol b"
    using b'(3) cb by (auto simp: cancel_conf_def same_conf_def split: if_splits)
  then show ?thesis using CancelOp b' by (auto simp: book_step_def ref_step_def)
next
  case (ModifyOp oid n)
  obtain ok b' where b': "modify_order oid n b = Some (ok, b')" "book_inv b'" "if ok then modify_conf b b' else b' = b"
    "book_inv_unique b \<longrightarrow> book_inv_unique b' \<and> ref_modify oid n (abs_book b) = (ok, abs_book b')"
    using modify_order_result [OF inv, of oid n] by blast
  have "ob_match_cb b'" "ob_symbol b' = ob_symbol b"
    using b'(3) cb by (auto simp: modify_conf_def same_conf_def split: if_splits)
  then show ?thesis using ModifyOp b' by (auto simp: book_step_def ref_step_def)
qed

lemma handle_message_step:
  "handle_message msg me = (
     if unat (m_symbol msg) \<ge> kMaxSymbols then Some (me, [])
     else case me_books me (unat (m_symbol msg)) of None \<Rightarrow> Some (me, [])
       | Some b \<Rightarrow> (case msg_op msg (me_next_order_id me) of (None, n) \<Rightarrow> Some (me, [])
         | (Some op, n) \<Rightarrow> do { (ok, b', rs) \<leftarrow> book_step op b;
             Some (me\<lparr>me_books := (me_books me)(unat (m_symbol msg) := Some b'), me_next_order_id := n\<rparr>, rs) }))"
proof (cases "me_books me (unat (m_symbol msg))")
  case (Some b)
  show ?thesis
  proof (cases "m_msg_type msg")
    case NewOrder
    with Some show ?thesis
      by (cases me) (auto simp: handle_message_def dispatch_message_def msg_op_def book_step_def Let_def)
  qed (use Some in \<open>auto simp: handle_message_def dispatch_message_def msg_op_def book_step_def Let_def
        split: bind_split\<close>)
qed (simp add: handle_message_def)

subsection \<open>One message\<close>

lemma engine_inv_book:
  "engine_inv u me \<Longrightarrow> me_books me i = Some b \<Longrightarrow> i < kMaxSymbols \<Longrightarrow>
     book_inv b \<and> (u \<longrightarrow> book_inv_unique b) \<and> ob_match_cb b \<and> unat (ob_symbol b) = i"
  by (simp add: engine_inv_def)

text \<open>Which parts of the engine handling a message leaves alone.\<close>

definition handled_frame :: "nat \<Rightarrow> MatchingEngine \<Rightarrow> MatchingEngine \<Rightarrow> bool" where
  "handled_frame s me me' = (me_inbound me' = me_inbound me \<and> me_outbound me' = me_outbound me \<and>
     me_running me' = me_running me \<and> me_stat_messages me' = me_stat_messages me \<and>
     me_stat_matches me' = me_stat_matches me \<and> (\<forall>j. j \<noteq> s \<longrightarrow> me_books me' j = me_books me j))"

lemma handle_message_result:
  assumes inv: "engine_inv u me"
  shows "\<exists>me' rs. handle_message msg me = Some (me', rs) \<and> engine_inv (u \<and> msg_fresh msg (abs_engine me)) me' \<and>
     handled_frame (unat (m_symbol msg)) me me' \<and> (\<forall>r \<in> set rs. r_symbol r = m_symbol msg) \<and>
     (u \<and> msg_fresh msg (abs_engine me) \<longrightarrow> ref_message msg (abs_engine me) = (abs_engine me', map report_fill rs))"
proof -
  let ?s = "unat (m_symbol msg)"
  have idle: ?thesis if "handle_message msg me = Some (me, [])" "ref_message msg (abs_engine me) = (abs_engine me, [])"
    using that inv by (auto simp: handled_frame_def engine_inv_def)
  show ?thesis
  proof (cases "?s < kMaxSymbols \<and> me_books me ?s \<noteq> None \<and> fst (msg_op msg (me_next_order_id me)) \<noteq> None")
    case False
    then have "handle_message msg me = Some (me, [])"
      unfolding handle_message_step by (auto split: option.split prod.split)
    moreover have "ref_message msg (abs_engine me) = (abs_engine me, [])"
      using False by (auto simp: ref_message_def abs_engine_def split: option.split prod.split)
    ultimately show ?thesis by (rule idle)
  next
    case True
    then obtain b op n where b: "?s < kMaxSymbols" "me_books me ?s = Some b" "msg_op msg (me_next_order_id me) = (Some op, n)"
      by (metis not_None_eq prod.collapse)
    note binv = engine_inv_book [OF inv b(2,1)]
    obtain ok b' rs where st: "book_step op b = Some (ok, b', rs)" "book_inv b'" "ob_match_cb b'" "ob_symbol b' = ob_symbol b"
      "\<forall>r \<in> set rs. r_symbol r = ob_symbol b"
      "book_inv_unique b \<and> op_fresh op (abs_book b) \<longrightarrow>
        book_inv_unique b' \<and> ref_step op (abs_book b) = (ok, abs_book b', map report_fill rs)"
      using book_step_result [of b op] binv by blast
    let ?me' = "me\<lparr>me_books := (me_books me)(?s := Some b'), me_next_order_id := n\<rparr>"
    have "handle_message msg me = Some (?me', rs)" using b st(1) by (simp add: handle_message_step)
    moreover have fresh: "msg_fresh msg (abs_engine me) \<longleftrightarrow> op_fresh op (abs_book b)"
      using b by (simp add: msg_fresh_def abs_engine_def)
    moreover have "engine_inv (u \<and> msg_fresh msg (abs_engine me)) ?me'"
      using inv st binv unfolding fresh by (auto simp: engine_inv_def)
    moreover have "ob_symbol b = m_symbol msg" using binv by (simp add: word_unat_eq_iff)
    moreover have "abs_engine ?me' = \<lparr>re_books = (re_books (abs_engine me))(?s := Some (abs_book b')), re_next = n\<rparr>"
      using b(1) by (auto simp: abs_engine_def fun_eq_iff)
    ultimately show ?thesis using st(5,6) b binv
      by (auto simp: handled_frame_def ref_message_def abs_engine_def)
  qed
qed

text \<open>Delivering the reports of a call.\<close>

lemma valid_engine_depth: "valid_capacity me_kQueueDepth"
  by (simp add: valid_capacity_def me_kQueueDepth_def)

lemma engine_room: "unat me_kQueueDepth - 1 = 65535"
  by (simp add: me_kQueueDepth_def)

lemma deliver_eq: "fold on_execution rs me = me\<lparr>me_stat_matches := me_stat_matches me + of_nat (length rs),
     me_outbound := spsc.push_all me_kQueueDepth rs (me_outbound me)\<rparr>"
  by (induction rs arbitrary: me) (simp_all add: on_execution_def)

lemma deliver_frame [simp]:
  "abs_engine (fold on_execution rs me) = abs_engine me" "engine_inv u (fold on_execution rs me) = engine_inv u me"
  "me_inbound (fold on_execution rs me) = me_inbound me" "me_books (fold on_execution rs me) = me_books me"
  "me_running (fold on_execution rs me) = me_running me" "me_stat_messages (fold on_execution rs me) = me_stat_messages me"
  "me_stat_matches (fold on_execution rs me) = me_stat_matches me + of_nat (length rs)"
  by (simp_all add: deliver_eq abs_engine_def engine_inv_def fun_eq_iff)

lemma deliver_holds:
  "spsc_holds me_kQueueDepth (me_outbound me) ys \<Longrightarrow>
   spsc_holds me_kQueueDepth (me_outbound (fold on_execution rs me)) (ys @ take (65535 - length ys) rs)"
  using spsc.push_all_holds [of me_kQueueDepth "me_outbound me" ys rs, unfolded engine_room] by (simp add: deliver_eq)

lemma inbound_frame [simp]:
  "abs_engine (me\<lparr>me_inbound := q\<rparr>) = abs_engine me" "engine_inv u (me\<lparr>me_inbound := q\<rparr>) = engine_inv u me"
  "abs_engine (me\<lparr>me_outbound := q'\<rparr>) = abs_engine me" "engine_inv u (me\<lparr>me_outbound := q'\<rparr>) = engine_inv u me"
  "abs_engine (me\<lparr>me_running := r\<rparr>) = abs_engine me" "engine_inv u (me\<lparr>me_running := r\<rparr>) = engine_inv u me"
  "abs_engine (me\<lparr>me_stat_messages := k\<rparr>) = abs_engine me" "engine_inv u (me\<lparr>me_stat_messages := k\<rparr>) = engine_inv u me"
  by (simp_all add: abs_engine_def engine_inv_def fun_eq_iff)

lemma process_message_eq:
  "handle_message msg me = Some (me', rs) \<Longrightarrow> process_message msg me = Some (fold on_execution rs me')"
  by (simp add: process_message_def)

lemma take_room_append:
  "(ys @ take (k - length ys) rs1) @ take (k - length (ys @ take (k - length ys) rs1)) rs2 =
   ys @ take (k - length ys) (rs1 @ rs2)"
  by (auto simp: min_def)

lemma take_msgs_fresh: "msgs_fresh ms re \<Longrightarrow> msgs_fresh (take n ms) re"
  by (induction ms arbitrary: re n) (auto simp: take_Cons')

lemma ref_messages_append:
  "ref_messages (ms @ ns) re = (let (re1, fs) = ref_messages ms re; (re2, gs) = ref_messages ns re1 in (re2, fs @ gs))"
  by (induction ms arbitrary: re) (simp_all add: Let_def case_prod_unfold)

subsection \<open>Draining\<close>

definition drained :: "bool \<Rightarrow> MarketDataMsg list \<Rightarrow> MatchingEngine \<Rightarrow> ExecutionReport list \<Rightarrow> MatchingEngine \<Rightarrow> bool" where
  "drained u xs me rs me' = (engine_inv (u \<and> msgs_fresh xs (abs_engine me)) me' \<and>
     (\<forall>r \<in> set rs. \<exists>m \<in> set xs. r_symbol r = m_symbol m) \<and>
     me_stat_matches me' = me_stat_matches me + of_nat (length rs) \<and> me_stat_messages me' = me_stat_messages me \<and>
     (\<forall>j. (\<forall>m \<in> set xs. unat (m_symbol m) \<noteq> j) \<longrightarrow> me_books me' j = me_books me j) \<and>
     (u \<and> msgs_fresh xs (abs_engine me) \<longrightarrow> ref_messages xs (abs_engine me) = (abs_engine me', map report_fill rs)))"

lemma drained_Cons:
  assumes inv: "engine_inv u me"
    and h: "handle_message m (me\<lparr>me_inbound := q\<rparr>) = Some (me1, rs1)"
    and d: "drained (u \<and> msg_fresh m (abs_engine me)) xs (fold on_execution rs1 me1) rs2 me'"
  shows "drained u (m # xs) me (rs1 @ rs2) me'"
proof -
  have "engine_inv u (me\<lparr>me_inbound := q\<rparr>)" using inv by simp
  from handle_message_result [OF this, of m] h
  have r: "handled_frame (unat (m_symbol m)) (me\<lparr>me_inbound := q\<rparr>) me1" "\<forall>r \<in> set rs1. r_symbol r = m_symbol m"
    "u \<and> msg_fresh m (abs_engine me) \<longrightarrow> ref_message m (abs_engine me) = (abs_engine me1, map report_fill rs1)"
    by simp_all
  show ?thesis
  proof (cases "u \<and> msg_fresh m (abs_engine me)")
    case True
    with r(3) have "ref_message m (abs_engine me) = (abs_engine me1, map report_fill rs1)" by blast
    with True d r(1,2) show ?thesis unfolding drained_def handled_frame_def by (auto simp: add.assoc)
  next
    case False
    with d r(1,2) show ?thesis unfolding drained_def handled_frame_def by (auto simp: add.assoc)
  qed
qed

lemma drain_inbound_result:
  assumes "engine_inv u me" "spsc_holds me_kQueueDepth (me_inbound me) xs" "spsc_holds me_kQueueDepth (me_outbound me) ys"
  shows "\<exists>me' rs. drain_inbound me = Some me' \<and> spsc_holds me_kQueueDepth (me_inbound me') [] \<and>
     spsc_holds me_kQueueDepth (me_outbound me') (ys @ take (65535 - length ys) rs) \<and> drained u xs me rs me'"
  using assms
proof (induction xs arbitrary: u me ys)
  case Nil
  then have "spsc_try_pop me_kQueueDepth (me_inbound me) = (None, me_inbound me)" using spsc.pop_Nil by blast
  then have "drain_inbound me = Some me" by (subst drain_inbound.simps) simp
  moreover have "drained u [] me [] me" using Nil.prems(1) by (simp add: drained_def)
  ultimately show ?case using Nil.prems(2,3) by (intro exI [of _ me] exI [of _ "[]"]) simp
next
  case (Cons m xs)
  obtain q where q: "spsc_try_pop me_kQueueDepth (me_inbound me) = (Some m, q)" "spsc_holds me_kQueueDepth q xs"
    using spsc.pop_Cons [OF Cons.prems(2)] by blast
  let ?me = "me\<lparr>me_inbound := q\<rparr>"
  have "engine_inv u ?me" using Cons.prems(1) by simp
  from handle_message_result [OF this, of m] obtain me1 rs1 where h: "handle_message m ?me = Some (me1, rs1)"
    "engine_inv (u \<and> msg_fresh m (abs_engine me)) me1" "handled_frame (unat (m_symbol m)) ?me me1" by auto
  let ?me2 = "fold on_execution rs1 me1"
  have "spsc_holds me_kQueueDepth (me_outbound ?me2) (ys @ take (65535 - length ys) rs1)"
    using Cons.prems(3) h(3) by (intro deliver_holds) (simp add: handled_frame_def)
  moreover have "spsc_holds me_kQueueDepth (me_inbound ?me2) xs" using q(2) h(3) by (simp add: handled_frame_def)
  moreover have "engine_inv (u \<and> msg_fresh m (abs_engine me)) ?me2" using h(2) by simp
  ultimately obtain me' rs2 where d: "drain_inbound ?me2 = Some me'" "spsc_holds me_kQueueDepth (me_inbound me') []"
    "spsc_holds me_kQueueDepth (me_outbound me') (ys @ take (65535 - length ys) (rs1 @ rs2))"
    "drained (u \<and> msg_fresh m (abs_engine me)) xs ?me2 rs2 me'"
    using Cons.IH unfolding take_room_append [symmetric] by blast
  have "drain_inbound me = Some me'"
    using d(1) q(1) process_message_eq [OF h(1)] by (subst drain_inbound.simps) simp
  then show ?case using d(2,3) drained_Cons [OF Cons.prems(1) h(1) d(4)] by blast
qed

end
