(* ===== verification/Engine_Theorems.thy ===== *)
theory Engine_Theorems
  imports Matching_Engine Spsc_Threads
begin

text \<open>
  The engine thread among its neighbours.  A transition relation interleaves the feed thread
  (\<^verbatim>\<open>submit\<close>), the consumer of reports (\<^verbatim>\<open>poll_report\<close>), the controlling thread (\<^verbatim>\<open>stop\<close>) and the turns of
  \<^verbatim>\<open>run_loop\<close>.  Queue calls are single steps, which the interleaving theorem of the queue justifies.
\<close>

subsection \<open>The running system\<close>

datatype EnginePhase = Looping | Draining | Finished

text \<open>\<open>er_accepted\<close>: messages whose \<^verbatim>\<open>submit\<close> returned true; \<open>er_handled\<close>: those processed; \<open>er_emitted\<close>: reports
  fired; \<open>er_polled\<close>: reports handed to the consumer.\<close>

record EngineRun =
  er_engine :: MatchingEngine
  er_phase :: EnginePhase
  er_accepted :: "MarketDataMsg list"
  er_handled :: "MarketDataMsg list"
  er_emitted :: "ExecutionReport list"
  er_polled :: "ExecutionReport list"

definition handled_by :: "MarketDataMsg \<Rightarrow> ExecutionReport list \<Rightarrow> MatchingEngine \<Rightarrow> EngineRun \<Rightarrow> EngineRun" where
  "handled_by msg rs me s = s\<lparr>er_engine := me, er_handled := er_handled s @ [msg], er_emitted := er_emitted s @ rs\<rparr>"

inductive run_step :: "EngineRun \<Rightarrow> EngineRun \<Rightarrow> bool" where
  submit: "engine_submit msg (er_engine s) = (ok, me) \<Longrightarrow>
     run_step s (s\<lparr>er_engine := me, er_accepted := er_accepted s @ (if ok then [msg] else [])\<rparr>)"
| poll: "poll_report (er_engine s) = (r, me) \<Longrightarrow>
     run_step s (s\<lparr>er_engine := me, er_polled := er_polled s @ (case r of None \<Rightarrow> [] | Some x \<Rightarrow> [x])\<rparr>)"
| stop: "run_step s (s\<lparr>er_engine := engine_stop (er_engine s)\<rparr>)"
| turn: "er_phase s = Looping \<Longrightarrow> me_running (er_engine s) \<Longrightarrow>
     spsc_try_pop me_kQueueDepth (me_inbound (er_engine s)) = (Some msg, q) \<Longrightarrow>
     handle_message msg ((er_engine s)\<lparr>me_inbound := q\<rparr>) = Some (me, rs) \<Longrightarrow>
     loop_turn (er_engine s) = Some me' \<Longrightarrow> run_step s (handled_by msg rs me' s)"
| idle: "er_phase s = Looping \<Longrightarrow> me_running (er_engine s) \<Longrightarrow>
     fst (spsc_try_pop me_kQueueDepth (me_inbound (er_engine s))) = None \<Longrightarrow>
     loop_turn (er_engine s) = Some me' \<Longrightarrow> run_step s (s\<lparr>er_engine := me'\<rparr>)"
| leave: "er_phase s = Looping \<Longrightarrow> \<not> me_running (er_engine s) \<Longrightarrow> run_step s (s\<lparr>er_phase := Draining\<rparr>)"
| drain: "er_phase s = Draining \<Longrightarrow>
     spsc_try_pop me_kQueueDepth (me_inbound (er_engine s)) = (Some msg, q) \<Longrightarrow>
     handle_message msg ((er_engine s)\<lparr>me_inbound := q\<rparr>) = Some (me, rs) \<Longrightarrow>
     process_message msg ((er_engine s)\<lparr>me_inbound := q\<rparr>) = Some me' \<Longrightarrow> run_step s (handled_by msg rs me' s)"
| finish: "er_phase s = Draining \<Longrightarrow>
     fst (spsc_try_pop me_kQueueDepth (me_inbound (er_engine s))) = None \<Longrightarrow> run_step s (s\<lparr>er_phase := Finished\<rparr>)"

text \<open>Construction, registration of symbols, and start.\<close>

primrec register_all :: "SymbolId list \<Rightarrow> OrderBook \<Rightarrow> MatchingEngine \<Rightarrow> MatchingEngine" where
  "register_all [] raw me = me"
| "register_all (s # ss) raw me = register_all ss raw (snd (register_symbol s raw me))"

definition run_start :: "SymbolId list \<Rightarrow> OrderBook \<Rightarrow> MarketDataMsg SPSCQueue \<Rightarrow> ExecutionReport SPSCQueue \<Rightarrow> EngineRun" where
  "run_start syms raw inq outq = \<lparr>er_engine = engine_start (register_all syms raw (new_engine inq outq)),
     er_phase = Looping, er_accepted = [], er_handled = [], er_emitted = [], er_polled = []\<rparr>"

inductive run_reach :: "SymbolId list \<Rightarrow> EngineRun \<Rightarrow> bool" for syms where
  start: "run_reach syms (run_start syms raw inq outq)"
| step: "run_reach syms s \<Longrightarrow> run_step s s' \<Longrightarrow> run_reach syms s'"

text \<open>The abstract engine with an empty book for each registered symbol.\<close>

definition ref_boot :: "SymbolId list \<Rightarrow> RefEngine" where
  "ref_boot syms = \<lparr>re_books = \<lambda>i. if i < kMaxSymbols \<and> i \<in> unat ` set syms then Some \<lparr>rb_bids = [], rb_asks = []\<rparr> else None,
     re_next = 1\<rparr>"

subsection \<open>Registration\<close>

lemma register_symbol_inv: "engine_inv True me \<Longrightarrow> engine_inv True (snd (register_symbol s raw me))"
  using new_book_unique [of s True raw] book_inv_unique_inv [OF new_book_unique, of s True raw]
  by (auto simp: register_symbol_def engine_inv_def new_book_def)

text \<open>Adding empty books to an engine whose books are all empty.\<close>

definition with_empty :: "nat set \<Rightarrow> RefEngine \<Rightarrow> RefEngine" where
  "with_empty S re = re\<lparr>re_books := \<lambda>i. if i < kMaxSymbols \<and> i \<in> S then Some \<lparr>rb_bids = [], rb_asks = []\<rparr> else re_books re i\<rparr>"

definition all_empty :: "RefEngine \<Rightarrow> bool" where
  "all_empty re = (\<forall>i rb. re_books re i = Some rb \<longrightarrow> rb = \<lparr>rb_bids = [], rb_asks = []\<rparr>)"

lemma with_empty_Nil: "with_empty {} re = re"
  by (simp add: with_empty_def)

lemma with_empty_Un: "with_empty S (with_empty T re) = with_empty (T \<union> S) re"
  by (simp add: with_empty_def, rule arg_cong [where f = "\<lambda>f. re\<lparr>re_books := f\<rparr>"], auto simp: fun_eq_iff)

lemma all_empty_with: "all_empty re \<Longrightarrow> all_empty (with_empty S re)"
  by (simp add: all_empty_def with_empty_def)

lemma register_symbol_abs:
  assumes "all_empty (abs_engine me)"
  shows "abs_engine (snd (register_symbol s raw me)) = with_empty {unat s} (abs_engine me)"
proof (cases "unat s < kMaxSymbols \<and> me_books me (unat s) = None")
  case True
  then show ?thesis
    by (simp add: register_symbol_def abs_engine_def abs_new_book with_empty_def fun_eq_iff)
next
  case False
  have "abs_book y = \<lparr>rb_bids = [], rb_asks = []\<rparr>" if "unat s < kMaxSymbols" "me_books me (unat s) = Some y" for y
    using assms [unfolded all_empty_def, rule_format, of "unat s" "abs_book y"] that by (simp add: abs_engine_def)
  with False show ?thesis
    by (auto simp: register_symbol_def abs_engine_def with_empty_def fun_eq_iff)
qed

lemma register_all_ok:
  assumes "engine_inv True me" "all_empty (abs_engine me)"
  shows "engine_inv True (register_all syms raw me) \<and>
     abs_engine (register_all syms raw me) = with_empty (unat ` set syms) (abs_engine me) \<and>
     me_inbound (register_all syms raw me) = me_inbound me \<and> me_outbound (register_all syms raw me) = me_outbound me"
  using assms
proof (induction syms arbitrary: me)
  case (Cons s syms)
  let ?me1 = "snd (register_symbol s raw me)"
  have inv: "engine_inv True ?me1" using Cons.prems(1) by (rule register_symbol_inv)
  note abs1 = register_symbol_abs [OF Cons.prems(2), of s raw]
  have "all_empty (abs_engine ?me1)" unfolding abs1 using Cons.prems(2) by (rule all_empty_with)
  moreover have "me_inbound ?me1 = me_inbound me" "me_outbound ?me1 = me_outbound me"
    by (simp_all add: register_symbol_def)
  ultimately show ?case using Cons.IH [OF inv] by (simp add: abs1 with_empty_Un)
qed (simp add: with_empty_Nil)

lemma run_start_ok:
  "engine_inv True (er_engine (run_start syms raw inq outq))"
  "abs_engine (er_engine (run_start syms raw inq outq)) = ref_boot syms"
  "spsc_holds me_kQueueDepth (me_inbound (er_engine (run_start syms raw inq outq))) []"
  "spsc_holds me_kQueueDepth (me_outbound (er_engine (run_start syms raw inq outq))) []"
proof -
  have "engine_inv True (new_engine inq outq)" by (simp add: engine_inv_def new_engine_def)
  moreover have "abs_engine (new_engine inq outq) = \<lparr>re_books = \<lambda>_. None, re_next = 1\<rparr>"
    by (simp add: abs_engine_def new_engine_def fun_eq_iff)
  ultimately have reg: "engine_inv True (register_all syms raw (new_engine inq outq))"
    "abs_engine (register_all syms raw (new_engine inq outq)) = ref_boot syms"
    "me_inbound (register_all syms raw (new_engine inq outq)) = spsc_init inq"
    "me_outbound (register_all syms raw (new_engine inq outq)) = spsc_init outq"
    using register_all_ok [of "new_engine inq outq" syms raw]
    by (simp_all add: ref_boot_def new_engine_def all_empty_def with_empty_def cong: if_cong)
  then show "engine_inv True (er_engine (run_start syms raw inq outq))"
    "abs_engine (er_engine (run_start syms raw inq outq)) = ref_boot syms"
    "spsc_holds me_kQueueDepth (me_inbound (er_engine (run_start syms raw inq outq))) []"
    "spsc_holds me_kQueueDepth (me_outbound (er_engine (run_start syms raw inq outq))) []"
    using spsc_init_holds [OF valid_engine_depth] by (simp_all add: run_start_def engine_start_def)
qed

subsection \<open>Invariant of the running system\<close>

lemma msgs_fresh_snoc: "msgs_fresh (ms @ [m]) re \<longleftrightarrow> msgs_fresh ms re \<and> msg_fresh m (fst (ref_messages ms re))"
  by (induction ms arbitrary: re) (auto simp: Let_def case_prod_unfold)

definition run_inv :: "SymbolId list \<Rightarrow> EngineRun \<Rightarrow> MarketDataMsg list \<Rightarrow> ExecutionReport list \<Rightarrow> bool" where
  "run_inv syms s xs ys = (let me = er_engine s; fresh = msgs_fresh (er_handled s) (ref_boot syms) in
     spsc_holds me_kQueueDepth (me_inbound me) xs \<and> spsc_holds me_kQueueDepth (me_outbound me) ys \<and>
     er_accepted s = er_handled s @ xs \<and> engine_inv fresh me \<and>
     (fresh \<longrightarrow> ref_messages (er_handled s) (ref_boot syms) = (abs_engine me, map report_fill (er_emitted s))) \<and>
     subseq (er_polled s @ ys) (er_emitted s) \<and>
     (length (er_emitted s) \<le> 65535 \<longrightarrow> er_polled s @ ys = er_emitted s) \<and>
     me_stat_matches me = of_nat (length (er_emitted s)) \<and>
     (er_phase s = Looping \<longrightarrow> me_stat_messages me = of_nat (length (er_handled s))))"

lemma subseq_deliver:
  assumes "subseq (ps @ ys) es"
  shows "subseq (ps @ ys @ take k rs) (es @ rs)"
proof -
  have "subseq ((ps @ ys) @ take k rs) (es @ rs)"
    using assms take_is_prefix prefix_imp_subseq by (intro list_emb_append_mono) blast+
  then show ?thesis by simp
qed

lemma run_inv_handled:
  assumes inv: "run_inv syms s xs ys"
    and pop: "spsc_try_pop me_kQueueDepth (me_inbound (er_engine s)) = (Some msg, q)"
    and h: "handle_message msg ((er_engine s)\<lparr>me_inbound := q\<rparr>) = Some (me, rs)"
    and turn: "me' = (fold on_execution rs me)\<lparr>me_stat_messages := me_stat_messages me + k\<rparr>" "er_phase s = Looping \<Longrightarrow> k = 1"
  shows "\<exists>xs' ys'. run_inv syms (handled_by msg rs me' s) xs' ys'"
proof -
  let ?e = "er_engine s" and ?hs = "er_handled s" and ?boot = "ref_boot syms"
  note I = inv [unfolded run_inv_def Let_def]
  obtain xs' where xs: "xs = msg # xs'" "spsc_holds me_kQueueDepth q xs'"
    using I pop spsc.pop_Nil spsc.pop_Cons by (cases xs) fastforce+
  let ?u = "msgs_fresh ?hs ?boot"
  have "engine_inv ?u (?e\<lparr>me_inbound := q\<rparr>)" using I by simp
  from handle_message_result [OF this, of msg] h
  have r: "engine_inv (?u \<and> msg_fresh msg (abs_engine ?e)) me" "handled_frame (unat (m_symbol msg)) (?e\<lparr>me_inbound := q\<rparr>) me"
    "?u \<and> msg_fresh msg (abs_engine ?e) \<longrightarrow> ref_message msg (abs_engine ?e) = (abs_engine me, map report_fill rs)"
    by simp_all
  have fresh: "msgs_fresh (?hs @ [msg]) ?boot \<longleftrightarrow> ?u \<and> msg_fresh msg (abs_engine ?e)"
    using I by (auto simp: msgs_fresh_snoc)
  let ?ys' = "ys @ take (65535 - length ys) rs"
  have "spsc_holds me_kQueueDepth (me_outbound me') ?ys'"
    using I r(2) deliver_holds [of me ys rs] turn(1) by (simp add: handled_frame_def)
  moreover have "spsc_holds me_kQueueDepth (me_inbound me') xs'"
    using xs(2) r(2) turn(1) by (simp add: handled_frame_def)
  moreover have "er_accepted s = (?hs @ [msg]) @ xs'" using I xs(1) by simp
  moreover have "engine_inv (msgs_fresh (?hs @ [msg]) ?boot) me'" using r(1) turn(1) unfolding fresh by simp
  moreover have "ref_messages (?hs @ [msg]) ?boot = (abs_engine me', map report_fill (er_emitted s @ rs))"
    if "msgs_fresh (?hs @ [msg]) ?boot"
    using that I r(3) turn(1) unfolding fresh by (simp add: ref_messages_append)
  moreover have "subseq (er_polled s @ ?ys') (er_emitted s @ rs)" using I by (intro subseq_deliver) simp
  moreover have "er_polled s @ ?ys' = er_emitted s @ rs" if "length (er_emitted s @ rs) \<le> 65535"
  proof -
    have eq: "er_polled s @ ys = er_emitted s" using that I by simp
    then have "length ys \<le> length (er_emitted s)" by (metis length_append le_add2)
    then have "take (65535 - length ys) rs = rs" using that by simp
    then show ?thesis using eq by simp
  qed
  moreover have "me_stat_matches me' = of_nat (length (er_emitted s @ rs))"
    using I r(2) turn(1) by (simp add: handled_frame_def)
  moreover have "me_stat_messages me' = of_nat (length (?hs @ [msg]))" if "er_phase s = Looping"
    using that I r(2) turn by (simp add: handled_frame_def)
  ultimately show ?thesis unfolding run_inv_def Let_def handled_by_def by (intro exI [of _ xs'] exI [of _ ?ys']) simp
qed

lemma run_inv_step:
  assumes "run_step s s'" "run_inv syms s xs ys"
  shows "\<exists>xs' ys'. run_inv syms s' xs' ys'"
  using assms
proof (cases rule: run_step.cases)
  case (submit msg ok me)
  obtain q where q: "spsc_try_push me_kQueueDepth msg (me_inbound (er_engine s)) = (length xs < 65535, q)"
    "spsc_holds me_kQueueDepth q (if length xs < 65535 then xs @ [msg] else xs)"
    using assms(2) spsc.push_cases [of me_kQueueDepth "me_inbound (er_engine s)" xs msg thesis] unfolding engine_room
    by (auto simp: run_inv_def Let_def)
  then have "run_inv syms s' (if length xs < 65535 then xs @ [msg] else xs) ys"
    using assms(2) submit by (auto simp: run_inv_def Let_def engine_submit_def split: if_splits)
  then show ?thesis by blast
next
  case (poll r me)
  have ys: "spsc_holds me_kQueueDepth (me_outbound (er_engine s)) ys" using assms(2) by (simp add: run_inv_def Let_def)
  obtain q where q: "spsc_try_pop me_kQueueDepth (me_outbound (er_engine s)) = (case ys of [] \<Rightarrow> None | x # _ \<Rightarrow> Some x, q)"
    "spsc_holds me_kQueueDepth q (tl ys)" using ys by (rule spsc.pop_cases)
  then have "run_inv syms s' xs (tl ys)"
    using assms(2) poll by (cases ys) (auto simp: run_inv_def Let_def poll_report_def)
  then show ?thesis by blast
next
  case stop
  then have "run_inv syms s' xs ys" using assms(2) by (simp add: run_inv_def Let_def engine_stop_def)
  then show ?thesis by blast
next
  case (turn msg q me rs me')
  have "me' = (fold on_execution rs me)\<lparr>me_stat_messages := me_stat_messages me + 1\<rparr>"
    using turn process_message_eq [OF turn(5)] by (simp add: loop_turn_def)
  then show ?thesis using run_inv_handled [OF assms(2) turn(4,5), of me' 1] turn(1) by simp
next
  case (idle me')
  then obtain q where q: "spsc_try_pop me_kQueueDepth (me_inbound (er_engine s)) = (None, q)" by (metis prod.collapse)
  have xs: "spsc_holds me_kQueueDepth (me_inbound (er_engine s)) xs" using assms(2) by (simp add: run_inv_def Let_def)
  then have "xs = []" "q = me_inbound (er_engine s)"
    using q spsc.pop_Cons spsc.pop_Nil by (cases xs; fastforce)+
  then have "run_inv syms s' xs ys" using assms(2) idle q by (auto simp: run_inv_def Let_def loop_turn_def)
  then show ?thesis by blast
next
  case leave
  then have "run_inv syms s' xs ys" using assms(2) by (simp add: run_inv_def Let_def)
  then show ?thesis by blast
next
  case (drain msg q me rs me')
  have "me' = (fold on_execution rs me)\<lparr>me_stat_messages := me_stat_messages me + 0\<rparr>"
    using drain process_message_eq [OF drain(4)] deliver_frame(6) [of rs me] by simp
  then show ?thesis using run_inv_handled [OF assms(2) drain(3,4), of me' 0] drain(1,2) by simp
next
  case finish
  then have "run_inv syms s' xs ys" using assms(2) by (simp add: run_inv_def Let_def)
  then show ?thesis by blast
qed

lemma run_reach_inv: "run_reach syms s \<Longrightarrow> \<exists>xs ys. run_inv syms s xs ys"
proof (induction rule: run_reach.induct)
  case (start raw inq outq)
  have "me_stat_matches (register_all syms raw me) = me_stat_matches me" "me_stat_messages (register_all syms raw me) = me_stat_messages me"
    for me by (induction syms arbitrary: me) (simp_all add: register_symbol_def)
  then have "run_inv syms (run_start syms raw inq outq) [] []"
    using run_start_ok [of syms raw inq outq]
    by (simp add: run_inv_def Let_def run_start_def engine_start_def new_engine_def)
  then show ?case by blast
next
  case (step s s')
  then show ?case using run_inv_step by blast
qed

subsection \<open>A concrete engine\<close>

definition sample_msg :: "OrderId \<Rightarrow> Side \<Rightarrow> Price \<Rightarrow> Qty \<Rightarrow> MarketDataMsg" where
  "sample_msg oid sd px n = \<lparr>m_seq = 1, m_order_id = oid, m_price = px, m_qty = n, m_symbol = 7, m_side = sd,
     m_msg_type = NewOrder, m_order_type = Limit\<rparr>"

definition sample_msgs :: "MarketDataMsg list" where
  "sample_msgs = [sample_msg 3 Sell 100 10, sample_msg 0 Buy 100 4]"

definition blank_in :: "MarketDataMsg SPSCQueue" where
  "blank_in = \<lparr>sq_buffer = \<lambda>_. sample_msg 0 Buy 0 0, sq_write_pos = 0, sq_read_pos = 0\<rparr>"

definition blank_out :: "ExecutionReport SPSCQueue" where
  "blank_out = \<lparr>sq_buffer = \<lambda>_. \<lparr>r_order_id = 0, r_contra_order_id = 0, r_exec_price = 0, r_exec_qty = 0, r_leaves_qty = 0,
     r_symbol = 0, r_side = Buy, r_exec_type = ExecNew\<rparr>, sq_write_pos = 0, sq_read_pos = 0\<rparr>"

abbreviation sample_start :: EngineRun where
  "sample_start \<equiv> run_start [7] blank_book blank_in blank_out"

definition sample_engine :: MatchingEngine where
  "sample_engine = (er_engine sample_start)\<lparr>me_inbound := spsc.push_all me_kQueueDepth sample_msgs (spsc_init blank_in)\<rparr>"

lemma sample_engine_ok:
  "engine_inv True sample_engine" "abs_engine sample_engine = ref_boot [7]"
  "spsc_holds me_kQueueDepth (me_inbound sample_engine) sample_msgs"
  "spsc_holds me_kQueueDepth (me_outbound sample_engine) []"
proof -
  have "spsc_holds me_kQueueDepth (spsc_init blank_in) []" using valid_engine_depth by (rule spsc_init_holds)
  from spsc.push_all_holds [OF this, of sample_msgs, unfolded engine_room]
  show "spsc_holds me_kQueueDepth (me_inbound sample_engine) sample_msgs"
    by (simp add: sample_engine_def sample_msgs_def)
qed (use run_start_ok [of "[7]" blank_book blank_in blank_out] in \<open>simp_all add: sample_engine_def\<close>)

lemmas engine_eval = ref_message_def msg_op_def msg_order_def ref_boot_def kMaxSymbols_def sample_msgs_def sample_msg_def ref_eval

lemma sample_msgs_fresh: "msgs_fresh sample_msgs (ref_boot [7])"
  by (simp add: msg_fresh_def op_fresh_def ref_ids_def engine_eval)

lemma sample_msgs_run: "ref_messages sample_msgs (ref_boot [7]) =
   (\<lparr>re_books = (re_books (ref_boot [7]))(7 := Some \<lparr>rb_bids = [], rb_asks = [(100, [\<lparr>ro_id = 3, ro_rem = 6, ro_account = 0\<rparr>])]\<rparr>),
      re_next = 2\<rparr>, [\<lparr>f_aggr = 1, f_passive = 3, f_px = 100, f_qty = 4\<rparr>])"
  by (simp add: engine_eval)

text \<open>An order whose message carries no id gets a synthetic one counted from 1, which the feed may have
  used already: the freshness assumption of the theorems excludes such feeds.\<close>

lemma synthetic_id_collides:
  "\<not> msgs_fresh [sample_msg 1 Sell 100 10, sample_msg 0 Sell 101 4] (ref_boot [7])"
  by (simp add: msg_fresh_def op_fresh_def ref_ids_def engine_eval)

text \<open>Orders for two of three registered symbols and one for a symbol that is not, interleaved.\<close>

definition mixed_msgs :: "MarketDataMsg list" where
  "mixed_msgs = [sample_msg 3 Sell 100 10, (sample_msg 4 Buy 105 8)\<lparr>m_symbol := 9\<rparr>, (sample_msg 6 Sell 90 1)\<lparr>m_symbol := 5\<rparr>,
     sample_msg 5 Buy 100 4]"

definition mixed_engine :: MatchingEngine where
  "mixed_engine = (er_engine (run_start [7, 9, 11] blank_book blank_in blank_out))
     \<lparr>me_inbound := spsc.push_all me_kQueueDepth mixed_msgs (spsc_init blank_in)\<rparr>"

lemma mixed_engine_ok:
  "engine_inv True mixed_engine" "abs_engine mixed_engine = ref_boot [7, 9, 11]"
  "spsc_holds me_kQueueDepth (me_inbound mixed_engine) mixed_msgs"
  "spsc_holds me_kQueueDepth (me_outbound mixed_engine) []"
proof -
  have "spsc_holds me_kQueueDepth (spsc_init blank_in) []" using valid_engine_depth by (rule spsc_init_holds)
  from spsc.push_all_holds [OF this, of mixed_msgs, unfolded engine_room]
  show "spsc_holds me_kQueueDepth (me_inbound mixed_engine) mixed_msgs"
    by (simp add: mixed_engine_def mixed_msgs_def)
qed (use run_start_ok [of "[7, 9, 11]" blank_book blank_in blank_out] in \<open>simp_all add: mixed_engine_def\<close>)

lemma mixed_msgs_fresh: "msgs_fresh mixed_msgs (ref_boot [7, 9, 11])"
  by (simp add: mixed_msgs_def msg_fresh_def op_fresh_def ref_ids_def engine_eval)

lemma mixed_books:
  "me_books mixed_engine 7 = Some (new_book 7 True blank_book)" "me_books mixed_engine 9 = Some (new_book 9 True blank_book)"
  "me_books mixed_engine 11 = Some (new_book 11 True blank_book)" "me_books mixed_engine 5 = None"
  by (simp_all add: mixed_engine_def run_start_def engine_start_def register_symbol_def new_engine_def kMaxSymbols_def)

text \<open>The engine is never stuck on a message, and two submissions and two turns lead to a fill.\<close>

lemma turn_progress:
  assumes inv: "run_inv syms s (msg # xs) ys" and on: "er_phase s = Looping" "me_running (er_engine s)"
  shows "\<exists>s'. run_step s s' \<and> er_handled s' = er_handled s @ [msg] \<and> er_accepted s' = er_accepted s \<and> er_polled s' = er_polled s \<and>
     er_phase s' = Looping \<and> me_running (er_engine s')"
proof -
  let ?e = "er_engine s"
  note I = inv [unfolded run_inv_def Let_def]
  have "spsc_holds me_kQueueDepth (me_inbound ?e) (msg # xs)" using I by blast
  then obtain q where pop: "spsc_try_pop me_kQueueDepth (me_inbound ?e) = (Some msg, q)" using spsc.pop_Cons by fastforce
  have "engine_inv (msgs_fresh (er_handled s) (ref_boot syms)) (?e\<lparr>me_inbound := q\<rparr>)" using I by simp
  then obtain me rs where h: "handle_message msg (?e\<lparr>me_inbound := q\<rparr>) = Some (me, rs)" "handled_frame (unat (m_symbol msg)) (?e\<lparr>me_inbound := q\<rparr>) me"
    using handle_message_result by blast
  let ?me' = "(fold on_execution rs me)\<lparr>me_stat_messages := me_stat_messages (fold on_execution rs me) + 1\<rparr>"
  have "loop_turn ?e = Some ?me'" using pop process_message_eq [OF h(1)] by (simp add: loop_turn_def)
  then have "run_step s (handled_by msg rs ?me' s)" using run_step.turn [OF on pop h(1)] by blast
  moreover have "me_running ?me'" using h(2) on(2) by (simp add: handled_frame_def)
  ultimately show ?thesis using on(1) by (intro exI [of _ "handled_by msg rs ?me' s"]) (simp add: handled_by_def)
qed

lemma turn_reach:
  assumes "run_reach syms s" "er_phase s = Looping" "me_running (er_engine s)" "er_accepted s = er_handled s @ msg # xs"
  shows "\<exists>s'. run_reach syms s' \<and> er_handled s' = er_handled s @ [msg] \<and> er_accepted s' = er_accepted s \<and> er_polled s' = er_polled s \<and>
     er_phase s' = Looping \<and> me_running (er_engine s')"
proof -
  obtain zs ys where "run_inv syms s zs ys" using run_reach_inv [OF assms(1)] by blast
  moreover from this have "zs = msg # xs" using assms(4) by (simp add: run_inv_def Let_def)
  ultimately show ?thesis using turn_progress [OF _ assms(2,3)] run_reach.step [OF assms(1)] by blast
qed

lemma submit_reach:
  assumes "run_reach syms s" "length (er_accepted s) < 65535"
  shows "\<exists>s'. run_reach syms s' \<and> er_accepted s' = er_accepted s @ [msg] \<and> er_handled s' = er_handled s \<and> er_polled s' = er_polled s \<and>
     er_phase s' = er_phase s \<and> me_running (er_engine s') = me_running (er_engine s)"
proof -
  obtain xs ys where I: "run_inv syms s xs ys" using run_reach_inv [OF assms(1)] by blast
  then have xs: "spsc_holds me_kQueueDepth (me_inbound (er_engine s)) xs" "length xs < 65535"
    using assms(2) by (auto simp: run_inv_def Let_def)
  then obtain q where "spsc_try_push me_kQueueDepth msg (me_inbound (er_engine s)) = (True, q)"
    using spsc.push_room [OF xs(1), of msg] unfolding engine_room by auto
  then have "engine_submit msg (er_engine s) = (True, (er_engine s)\<lparr>me_inbound := q\<rparr>)" by (simp add: engine_submit_def)
  from run_reach.step [OF assms(1) run_step.submit [OF this]] show ?thesis
    by (intro exI [of _ "s\<lparr>er_engine := (er_engine s)\<lparr>me_inbound := q\<rparr>, er_accepted := er_accepted s @ [msg]\<rparr>"]) simp
qed

lemma sample_run_reached:
  "\<exists>s. run_reach [7] s \<and> er_handled s = sample_msgs \<and> er_accepted s = sample_msgs \<and> er_polled s = []"
proof -
  have s0: "run_reach [7] sample_start" "er_accepted sample_start = []" "er_handled sample_start = []" "er_polled sample_start = []"
    "er_phase sample_start = Looping" "me_running (er_engine sample_start)"
    by (rule run_reach.start) (simp_all add: run_start_def engine_start_def)
  obtain m1 m2 where ms: "sample_msgs = [m1, m2]" by (simp add: sample_msgs_def)
  obtain s1 where s1: "run_reach [7] s1" "er_accepted s1 = [m1]" "er_handled s1 = []" "er_polled s1 = []"
    "er_phase s1 = Looping" "me_running (er_engine s1)" using submit_reach [OF s0(1), of m1] s0(2-) by auto
  obtain s2 where s2: "run_reach [7] s2" "er_accepted s2 = [m1, m2]" "er_handled s2 = []" "er_polled s2 = []"
    "er_phase s2 = Looping" "me_running (er_engine s2)" using submit_reach [OF s1(1), of m2] s1(2-) by auto
  obtain s3 where s3: "run_reach [7] s3" "er_accepted s3 = [m1, m2]" "er_handled s3 = [m1]" "er_polled s3 = []"
    "er_phase s3 = Looping" "me_running (er_engine s3)" using turn_reach [OF s2(1,5,6), of m1 "[m2]"] s2(2-4) by auto
  show ?thesis using turn_reach [OF s3(1,5,6), of m2 "[]"] s3(2-4) ms by auto
qed

subsection \<open>Properties\<close>

text \<open>C21. Shutdown drains.  When the loop is told to stop, draining the inbound queue ends, leaves it
  empty, and has processed every queued message in order: books and synthetic ids are those of the
  reference engine, every fill is counted, and the reports are appended to the outbound queue in
  order, only the newest being lost when it runs full.  Messages are not counted as processed here.\<close>

theorem engine_drains:
  assumes "engine_inv True me" "spsc_holds me_kQueueDepth (me_inbound me) xs"
    "spsc_holds me_kQueueDepth (me_outbound me) ys" "msgs_fresh xs (abs_engine me)"
  shows "\<exists>me' rs. drain_inbound me = Some me' \<and> engine_inv True me' \<and> spsc_holds me_kQueueDepth (me_inbound me') [] \<and>
     ref_messages xs (abs_engine me) = (abs_engine me', map report_fill rs) \<and>
     spsc_holds me_kQueueDepth (me_outbound me') (ys @ take (65535 - length ys) rs) \<and>
     me_stat_matches me' = me_stat_matches me + of_nat (length rs) \<and> me_stat_messages me' = me_stat_messages me"
  using drain_inbound_result [OF assms(1-3)] assms(4) unfolding drained_def by auto

theorem engine_drains_witness:
  "\<exists>me' rs. drain_inbound sample_engine = Some me' \<and> spsc_holds me_kQueueDepth (me_inbound me') [] \<and>
     spsc_holds me_kQueueDepth (me_outbound me') rs \<and> map report_fill rs = [\<lparr>f_aggr = 1, f_passive = 3, f_px = 100, f_qty = 4\<rparr>] \<and>
     re_books (abs_engine me') 7 = Some \<lparr>rb_bids = [], rb_asks = [(100, [\<lparr>ro_id = 3, ro_rem = 6, ro_account = 0\<rparr>])]\<rparr>"
proof -
  obtain me' rs where r: "drain_inbound sample_engine = Some me'" "spsc_holds me_kQueueDepth (me_inbound me') []"
    "ref_messages sample_msgs (ref_boot [7]) = (abs_engine me', map report_fill rs)"
    "spsc_holds me_kQueueDepth (me_outbound me') (take 65535 rs)"
    using engine_drains [OF sample_engine_ok(1,3,4)] sample_msgs_fresh unfolding sample_engine_ok(2) by auto
  have fills: "map report_fill rs = [\<lparr>f_aggr = 1, f_passive = 3, f_px = 100, f_qty = 4\<rparr>]"
    using r(3) by (simp add: sample_msgs_run)
  have books: "re_books (abs_engine me') 7 = Some \<lparr>rb_bids = [], rb_asks = [(100, [\<lparr>ro_id = 3, ro_rem = 6, ro_account = 0\<rparr>])]\<rparr>"
    using r(3) by (metis sample_msgs_run fst_conv RefEngine.select_convs(1) fun_upd_same)
  have "length rs = 1" using fills by (metis One_nat_def length_map length_Cons list.size(3))
  then have "take 65535 rs = rs" by simp
  then show ?thesis using r fills books by auto
qed

text \<open>C22. Interleaving.  However the feed, the consumer of reports, the controlling thread and the engine
  loop interleave, in every reachable state the accepted messages are those handled followed by those
  still queued; the books and the fills are what the reference engine computes from the handled
  messages alone; the consumer has seen, and will see, a subsequence of the reports fired, all of them
  in order as long as no more than 65535 have been fired; and the counters agree.\<close>

theorem engine_interleaving:
  assumes "run_reach syms s" "msgs_fresh (er_handled s) (ref_boot syms)"
  shows "\<exists>xs ys. spsc_holds me_kQueueDepth (me_inbound (er_engine s)) xs \<and> er_accepted s = er_handled s @ xs \<and>
     ref_messages (er_handled s) (ref_boot syms) = (abs_engine (er_engine s), map report_fill (er_emitted s)) \<and>
     spsc_holds me_kQueueDepth (me_outbound (er_engine s)) ys \<and> subseq (er_polled s @ ys) (er_emitted s) \<and>
     (length (er_emitted s) \<le> 65535 \<longrightarrow> er_polled s @ ys = er_emitted s) \<and>
     me_stat_matches (er_engine s) = of_nat (length (er_emitted s)) \<and>
     (er_phase s = Looping \<longrightarrow> me_stat_messages (er_engine s) = of_nat (length (er_handled s)))"
  using run_reach_inv [OF assms(1)] assms(2) unfolding run_inv_def Let_def by blast

theorem engine_interleaving_witness:
  "\<exists>s. run_reach [7] s \<and> er_handled s = sample_msgs \<and> msgs_fresh (er_handled s) (ref_boot [7]) \<and>
     er_accepted s = sample_msgs \<and> map report_fill (er_emitted s) = [\<lparr>f_aggr = 1, f_passive = 3, f_px = 100, f_qty = 4\<rparr>] \<and>
     er_polled s = [] \<and> spsc_holds me_kQueueDepth (me_outbound (er_engine s)) (er_emitted s) \<and>
     me_stat_matches (er_engine s) = 1"
proof -
  obtain s where s: "run_reach [7] s" "er_handled s = sample_msgs" "er_accepted s = sample_msgs" "er_polled s = []"
    using sample_run_reached by blast
  have fresh: "msgs_fresh (er_handled s) (ref_boot [7])" using s(2) sample_msgs_fresh by simp
  obtain ys where i: "ref_messages (er_handled s) (ref_boot [7]) = (abs_engine (er_engine s), map report_fill (er_emitted s))"
    "spsc_holds me_kQueueDepth (me_outbound (er_engine s)) ys"
    "length (er_emitted s) \<le> 65535 \<longrightarrow> er_polled s @ ys = er_emitted s"
    "me_stat_matches (er_engine s) = of_nat (length (er_emitted s))"
    using engine_interleaving [OF s(1) fresh] by blast
  have fills: "map report_fill (er_emitted s) = [\<lparr>f_aggr = 1, f_passive = 3, f_px = 100, f_qty = 4\<rparr>]"
    using i(1) s(2) by (simp add: sample_msgs_run)
  then have "length (er_emitted s) = 1" by (metis One_nat_def length_map length_Cons list.size(3))
  then show ?thesis using s fresh fills i(2-4) by auto
qed

text \<open>The operations on the book of one symbol that a list of messages amounts to.\<close>

definition symbol_ops :: "SymbolId \<Rightarrow> MarketDataMsg list \<Rightarrow> BookOp list" where
  "symbol_ops s xs = concat (map (\<lambda>m. case fst (msg_op m 0) of None \<Rightarrow> [] | Some op \<Rightarrow> [op]) (filter (\<lambda>m. m_symbol m = s) xs))"

lemma msg_op_own_id:
  "m_msg_type m = NewOrder \<longrightarrow> m_order_id m \<noteq> 0 \<Longrightarrow> msg_op m n = (fst (msg_op m 0), n)"
  by (auto simp: msg_op_def split: MsgType.split)

lemma ref_messages_symbol:
  assumes "\<forall>m \<in> set xs. m_msg_type m = NewOrder \<longrightarrow> m_order_id m \<noteq> 0" "re_books re (unat s) = Some rb"
  shows "re_books (fst (ref_messages xs re)) (unat s) = Some (snd (ref_run (symbol_ops s xs) rb))"
  using assms
proof (induction xs arbitrary: re rb)
  case Nil
  then show ?case by (simp add: symbol_ops_def)
next
  case (Cons m xs)
  have op: "msg_op m (re_next re) = (fst (msg_op m 0), re_next re)" using Cons.prems(1) by (intro msg_op_own_id) simp
  have tail: "\<forall>m \<in> set xs. m_msg_type m = NewOrder \<longrightarrow> m_order_id m \<noteq> 0" using Cons.prems(1) by simp
  note IH = Cons.IH [OF tail]
  show ?case
  proof (cases "m_symbol m = s")
    case False
    then have "unat (m_symbol m) \<noteq> unat s" by (simp add: word_unat_eq_iff)
    then have "re_books (fst (ref_message m re)) (unat s) = Some rb"
      using Cons.prems(2) by (auto simp: ref_message_def Let_def split: option.split prod.split)
    with IH [of "fst (ref_message m re)" rb] False show ?thesis
      by (simp add: symbol_ops_def Let_def case_prod_unfold)
  next
    case True
    show ?thesis
    proof (cases "fst (msg_op m 0)")
      case None
      then have "ref_message m re = (re, [])" using op True Cons.prems(2) by (simp add: ref_message_def)
      with IH [of re rb] True None Cons.prems(2) show ?thesis by (simp add: symbol_ops_def Let_def case_prod_unfold)
    next
      case (Some bop)
      obtain ok rb' fs where st: "ref_step bop rb = (ok, rb', fs)" by (metis prod_cases3)
      then have "re_books (fst (ref_message m re)) (unat s) = Some rb'"
        using op True Some Cons.prems(2) by (simp add: ref_message_def)
      with IH [of "fst (ref_message m re)" rb'] True Some st show ?thesis
        by (simp add: symbol_ops_def Let_def case_prod_unfold)
    qed
  qed
qed

lemma ref_messages_None: "re_books re i = None \<Longrightarrow> re_books (fst (ref_messages xs re)) i = None"
proof (induction xs arbitrary: re)
  case (Cons m xs)
  have "re_books (fst (ref_message m re)) i = None"
    using Cons.prems by (auto simp: ref_message_def Let_def split: option.split prod.split)
  from Cons.IH [OF this] show ?case by (simp add: Let_def case_prod_unfold)
qed simp

lemma mixed_ops:
  "snd (ref_run (symbol_ops 7 mixed_msgs) (abs_book (new_book 7 True blank_book))) =
     \<lparr>rb_bids = [], rb_asks = [(100, [\<lparr>ro_id = 3, ro_rem = 6, ro_account = 0\<rparr>])]\<rparr>"
  "snd (ref_run (symbol_ops 9 mixed_msgs) (abs_book (new_book 9 True blank_book))) =
     \<lparr>rb_bids = [(105, [\<lparr>ro_id = 4, ro_rem = 8, ro_account = 0\<rparr>])], rb_asks = []\<rparr>"
  by (simp_all add: abs_new_book symbol_ops_def mixed_msgs_def engine_eval)

text \<open>C23. Symbols do not interfere.  When every new order carries its own id (orders without one draw from a counter that all
  symbols share), the book of a registered symbol after draining is what the messages of that symbol alone produce on that
  book; a symbol without messages keeps its book as it was, and messages for unregistered or out-of-range symbols change
  nothing.\<close>

theorem symbols_independent:
  assumes "engine_inv True me" "spsc_holds me_kQueueDepth (me_inbound me) xs"
    "spsc_holds me_kQueueDepth (me_outbound me) ys" "msgs_fresh xs (abs_engine me)"
    "\<forall>m \<in> set xs. m_msg_type m = NewOrder \<longrightarrow> m_order_id m \<noteq> 0"
  shows "\<exists>me'. drain_inbound me = Some me' \<and>
     (\<forall>s. unat s < kMaxSymbols \<longrightarrow> (case me_books me (unat s) of
        None \<Rightarrow> me_books me' (unat s) = None
      | Some b \<Rightarrow> \<exists>b'. me_books me' (unat s) = Some b' \<and>
          abs_book b' = snd (ref_run (symbol_ops s xs) (abs_book b)) \<and> ((\<forall>m \<in> set xs. m_symbol m \<noteq> s) \<longrightarrow> b' = b)))"
proof -
  obtain me' rs where d: "drain_inbound me = Some me'" "drained True xs me rs me'"
    using drain_inbound_result [OF assms(1-3)] by blast
  then have ref: "fst (ref_messages xs (abs_engine me)) = abs_engine me'"
    and keep: "\<And>j. \<forall>m \<in> set xs. unat (m_symbol m) \<noteq> j \<Longrightarrow> me_books me' j = me_books me j"
    using assms(4) by (simp_all add: drained_def)
  have "case me_books me (unat s) of None \<Rightarrow> me_books me' (unat s) = None
      | Some b \<Rightarrow> \<exists>b'. me_books me' (unat s) = Some b' \<and>
          abs_book b' = snd (ref_run (symbol_ops s xs) (abs_book b)) \<and> ((\<forall>m \<in> set xs. m_symbol m \<noteq> s) \<longrightarrow> b' = b)"
    if s: "unat s < kMaxSymbols" for s :: SymbolId
  proof (cases "me_books me (unat s)")
    case None
    then show ?thesis
      using ref_messages_None [of "abs_engine me" "unat s" xs] s unfolding ref by (simp add: abs_engine_def)
  next
    case (Some b)
    then have "re_books (abs_engine me') (unat s) = Some (snd (ref_run (symbol_ops s xs) (abs_book b)))"
      using ref_messages_symbol [OF assms(5), of "abs_engine me" s "abs_book b"] s unfolding ref by (simp add: abs_engine_def)
    then obtain b' where "me_books me' (unat s) = Some b'" "abs_book b' = snd (ref_run (symbol_ops s xs) (abs_book b))"
      using s by (auto simp: abs_engine_def)
    moreover have "b' = b" if "\<forall>m \<in> set xs. m_symbol m \<noteq> s"
      using keep [of "unat s"] that Some calculation(1) by (simp add: word_unat_eq_iff)
    ultimately show ?thesis using Some by auto
  qed
  then show ?thesis using d(1) by blast
qed

theorem symbols_independent_witness:
  "msgs_fresh mixed_msgs (ref_boot [7, 9, 11]) \<and> map m_order_id mixed_msgs = [3, 4, 6, 5] \<and> map m_symbol mixed_msgs = [7, 9, 5, 7] \<and>
   (\<exists>me' b7 b9. drain_inbound mixed_engine = Some me' \<and> me_books me' 7 = Some b7 \<and> me_books me' 9 = Some b9 \<and>
     abs_book b7 = \<lparr>rb_bids = [], rb_asks = [(100, [\<lparr>ro_id = 3, ro_rem = 6, ro_account = 0\<rparr>])]\<rparr> \<and>
     abs_book b9 = \<lparr>rb_bids = [(105, [\<lparr>ro_id = 4, ro_rem = 8, ro_account = 0\<rparr>])], rb_asks = []\<rparr> \<and>
     me_books me' 11 = me_books mixed_engine 11 \<and> me_books me' 11 \<noteq> None \<and> me_books me' 5 = None)"
proof -
  have own: "\<forall>m \<in> set mixed_msgs. m_msg_type m = NewOrder \<longrightarrow> m_order_id m \<noteq> 0" by (simp add: mixed_msgs_def sample_msg_def)
  obtain me' where me': "drain_inbound mixed_engine = Some me'" "\<And>s. unat s < kMaxSymbols \<Longrightarrow> (case me_books mixed_engine (unat s) of
        None \<Rightarrow> me_books me' (unat s) = None
      | Some b \<Rightarrow> \<exists>b'. me_books me' (unat s) = Some b' \<and>
          abs_book b' = snd (ref_run (symbol_ops s mixed_msgs) (abs_book b)) \<and> ((\<forall>m \<in> set mixed_msgs. m_symbol m \<noteq> s) \<longrightarrow> b' = b))"
    using symbols_independent [OF mixed_engine_ok(1,3,4) _ own] mixed_msgs_fresh unfolding mixed_engine_ok(2) by blast
  note at = me'(2) [of 7] me'(2) [of 9] me'(2) [of 11] me'(2) [of 5]
  have "\<exists>b7. me_books me' 7 = Some b7 \<and> abs_book b7 = \<lparr>rb_bids = [], rb_asks = [(100, [\<lparr>ro_id = 3, ro_rem = 6, ro_account = 0\<rparr>])]\<rparr>"
    using at(1) mixed_books by (auto simp: kMaxSymbols_def mixed_ops)
  moreover have "\<exists>b9. me_books me' 9 = Some b9 \<and> abs_book b9 = \<lparr>rb_bids = [(105, [\<lparr>ro_id = 4, ro_rem = 8, ro_account = 0\<rparr>])], rb_asks = []\<rparr>"
    using at(2) mixed_books by (auto simp: kMaxSymbols_def mixed_ops)
  moreover have "me_books me' 11 = me_books mixed_engine 11" "me_books me' 11 \<noteq> None" "me_books me' 5 = None"
    using at(3,4) mixed_books by (auto simp: kMaxSymbols_def mixed_msgs_def sample_msg_def)
  moreover have "map m_order_id mixed_msgs = [3, 4, 6, 5]" "map m_symbol mixed_msgs = [7, 9, 5, 7]"
    by (simp_all add: mixed_msgs_def sample_msg_def)
  ultimately show ?thesis using me'(1) mixed_msgs_fresh by auto
qed

end
