(* ===== verification/Execution_Layer.thy ===== *)
theory Execution_Layer
  imports Byte_Codec Spsc_Queue
begin

text \<open>
  \<^verbatim>\<open>ExecutionLayer\<close> (\<^verbatim>\<open>core/execution_layer.hpp\<close>, \<^verbatim>\<open>core/execution_layer.cpp\<close>): positions and realized P&L from
  execution reports.  The arithmetic is on \<^verbatim>\<open>int64_t\<close>, where overflow is undefined behaviour: \<open>checked\<close>
  continues with an in-range result and is \<open>Inl SignedOverflow\<close> otherwise.  The fill callback is external:
  \<open>el_fill_calls\<close> records its calls.
\<close>

subsection \<open>State and operations\<close>

record Position =
  p_symbol :: SymbolId
  p_net_qty :: int
  p_realized_pnl :: int
  p_avg_cost :: Price
  p_total_fills :: u64

record ExecutionLayer =
  el_inbound :: "ExecutionReport SPSCQueue"
  el_fill_cb :: bool
  el_fill_calls :: "(ExecutionReport \<times> Position) list"
  el_positions :: "SymbolId \<rightharpoonup> Position"
  el_running :: bool
  el_stat_fills :: u64

definition el_kQueueDepth :: u64 where "el_kQueueDepth = 65536"

definition new_layer :: "ExecutionReport SPSCQueue \<Rightarrow> ExecutionLayer" where
  "new_layer inbound = \<lparr>el_inbound = inbound, el_fill_cb = False, el_fill_calls = [], el_positions = Map.empty,
     el_running = False, el_stat_fills = 0\<rparr>"

definition on_fill :: "bool \<Rightarrow> ExecutionLayer \<Rightarrow> ExecutionLayer" where
  "on_fill callable el = el\<lparr>el_fill_cb := callable\<rparr>"

definition layer_start :: "ExecutionLayer \<Rightarrow> ExecutionLayer" where
  "layer_start el = el\<lparr>el_running := True\<rparr>"

definition layer_stop :: "ExecutionLayer \<Rightarrow> ExecutionLayer" where
  "layer_stop el = el\<lparr>el_running := False\<rparr>"

datatype layer_fault = SignedOverflow

definition checked :: "int \<Rightarrow> (int \<Rightarrow> layer_fault + 'a) \<Rightarrow> layer_fault + 'a" where
  "checked x k = (if in_int64 x then k x else Inl SignedOverflow)"

text \<open>\<^verbatim>\<open>positions_[rpt.symbol]\<close> value-initialises a missing entry.\<close>

definition zero_position :: Position where
  "zero_position = \<lparr>p_symbol = 0, p_net_qty = 0, p_realized_pnl = 0, p_avg_cost = 0, p_total_fills = 0\<rparr>"

definition signed_qty :: "ExecutionReport \<Rightarrow> int" where
  "signed_qty rpt = (if r_side rpt = Buy then uint (r_exec_qty rpt) else - uint (r_exec_qty rpt))"

text \<open>The new realized P&L, in the order of evaluation of the code.\<close>

definition realize :: "Price \<Rightarrow> int \<Rightarrow> Position \<Rightarrow> layer_fault + int" where
  "realize exec_price sq pos = (
     if p_net_qty pos > 0 \<and> sq < 0 \<or> p_net_qty pos < 0 \<and> sq > 0 then
       checked \<bar>p_net_qty pos\<bar> (\<lambda>a.
         let close_qty = min a \<bar>sq\<bar>
         in checked (exec_price - p_avg_cost pos) (\<lambda>pnl_per_unit.
           checked (pnl_per_unit * close_qty) (\<lambda>v.
             checked (v * (if p_net_qty pos > 0 then 1 else - 1)) (\<lambda>w.
               checked (p_realized_pnl pos + w) Inr))))
     else Inr (p_realized_pnl pos))"

definition update_position :: "ExecutionReport \<Rightarrow> Position \<Rightarrow> layer_fault + Position" where
  "update_position rpt old = (
     let pos = old\<lparr>p_symbol := r_symbol rpt, p_total_fills := p_total_fills old + 1\<rparr>;
         sq = signed_qty rpt
     in case realize (r_exec_price rpt) sq pos of Inl e \<Rightarrow> Inl e
       | Inr pnl \<Rightarrow> checked (p_net_qty pos + sq) (\<lambda>new_net.
           Inr (pos\<lparr>p_realized_pnl := pnl,
             p_avg_cost := (if new_net \<noteq> 0 then (if p_net_qty pos = 0 then r_exec_price rpt else p_avg_cost pos) else 0),
             p_net_qty := new_net\<rparr>)))"

definition process_report :: "ExecutionReport \<Rightarrow> ExecutionLayer \<Rightarrow> layer_fault + ExecutionLayer" where
  "process_report rpt el = (
     let old = (case el_positions el (r_symbol rpt) of None \<Rightarrow> zero_position | Some p \<Rightarrow> p)
     in case update_position rpt old of Inl e \<Rightarrow> Inl e
       | Inr pos \<Rightarrow> Inr (el\<lparr>el_stat_fills := el_stat_fills el + 1,
           el_positions := (el_positions el)(r_symbol rpt \<mapsto> pos),
           el_fill_calls := el_fill_calls el @ (if el_fill_cb el then [(rpt, pos)] else [])\<rparr>))"

text \<open>\<^verbatim>\<open>poll(max_msgs)\<close>; \<open>budget\<close> is \<open>max_msgs - count\<close>.\<close>

primrec poll_loop :: "nat \<Rightarrow> int \<Rightarrow> ExecutionLayer \<Rightarrow> layer_fault + (int \<times> ExecutionLayer)" where
  "poll_loop 0 cnt el = Inr (cnt, el)"
| "poll_loop (Suc budget) cnt el = (case spsc_try_pop el_kQueueDepth (el_inbound el) of
     (None, q) \<Rightarrow> Inr (cnt, el\<lparr>el_inbound := q\<rparr>)
   | (Some rpt, q) \<Rightarrow> (case process_report rpt (el\<lparr>el_inbound := q\<rparr>) of Inl e \<Rightarrow> Inl e
       | Inr el' \<Rightarrow> poll_loop budget (cnt + 1) el'))"

definition poll :: "int \<Rightarrow> ExecutionLayer \<Rightarrow> layer_fault + (int \<times> ExecutionLayer)" where
  "poll max_msgs el = poll_loop (nat max_msgs) 0 el"

text \<open>One turn of the background loop, and the drain when it is told to stop.\<close>

definition layer_turn :: "ExecutionLayer \<Rightarrow> layer_fault + (int \<times> ExecutionLayer)" where
  "layer_turn el = (if el_running el then poll 512 el else poll 2147483647 el)"

definition get_position :: "SymbolId \<Rightarrow> ExecutionLayer \<Rightarrow> Position option" where
  "get_position sid el = el_positions el sid"

subsection \<open>Polling processes a prefix of the queue\<close>

primrec process_all :: "ExecutionReport list \<Rightarrow> ExecutionLayer \<Rightarrow> layer_fault + ExecutionLayer" where
  "process_all [] el = Inr el"
| "process_all (r # rs) el = (case process_report r el of Inl e \<Rightarrow> Inl e | Inr el' \<Rightarrow> process_all rs el')"

lemma process_report_inbound:
  "process_report rpt (el\<lparr>el_inbound := q\<rparr>) =
     (case process_report rpt el of Inl e \<Rightarrow> Inl e | Inr el' \<Rightarrow> Inr (el'\<lparr>el_inbound := q\<rparr>))"
  by (simp add: process_report_def Let_def split: sum.split)

lemma process_all_inbound:
  "process_all rs (el\<lparr>el_inbound := q\<rparr>) =
     (case process_all rs el of Inl e \<Rightarrow> Inl e | Inr el' \<Rightarrow> Inr (el'\<lparr>el_inbound := q\<rparr>))"
  by (induction rs arbitrary: el) (simp_all add: process_report_inbound split: sum.split)

lemma poll_loop_process:
  assumes "spsc_holds el_kQueueDepth (el_inbound el) xs"
  shows "case process_all (take n xs) el of Inl e \<Rightarrow> poll_loop n c el = Inl e
    | Inr el' \<Rightarrow> \<exists>q. poll_loop n c el = Inr (c + int (min n (length xs)), el'\<lparr>el_inbound := q\<rparr>) \<and>
        spsc_holds el_kQueueDepth q (drop n xs)"
  using assms
proof (induction n arbitrary: c el xs)
  case 0
  then show ?case by (auto intro!: exI [of _ "el_inbound el"])
next
  case (Suc n)
  show ?case
  proof (cases xs)
    case Nil
    with Suc.prems have "spsc_try_pop el_kQueueDepth (el_inbound el) = (None, el_inbound el)" using spsc.pop_Nil by blast
    with Nil Suc.prems show ?thesis by (auto intro!: exI [of _ "el_inbound el"])
  next
    case (Cons x xs')
    then obtain q where q: "spsc_try_pop el_kQueueDepth (el_inbound el) = (Some x, q)" "spsc_holds el_kQueueDepth q xs'"
      using spsc.pop_Cons [of el_kQueueDepth "el_inbound el" x xs'] Suc.prems by blast
    show ?thesis
    proof (cases "process_report x el")
      case (Inl e)
      with Cons q(1) show ?thesis by (simp add: process_report_inbound)
    next
      case (Inr el1)
      let ?el1 = "el1\<lparr>el_inbound := q\<rparr>"
      have "poll_loop (Suc n) c el = poll_loop n (c + 1) ?el1" using Cons q(1) Inr by (simp add: process_report_inbound)
      moreover have "process_all (take (Suc n) xs) el = process_all (take n xs') el1" using Cons Inr by simp
      ultimately show ?thesis
        using Suc.IH [of ?el1 xs' "c + 1"] q(2) Cons
        by (auto simp: process_all_inbound split: sum.splits)
    qed
  qed
qed

subsection \<open>Positions\<close>

text \<open>The reports of one symbol, and the net quantity they amount to.\<close>

definition own :: "SymbolId \<Rightarrow> ExecutionReport list \<Rightarrow> ExecutionReport list" where
  "own sid rs = filter (\<lambda>r. r_symbol r = sid) rs"

text \<open>Bounds under which nothing overflows: \<open>P\<close> bounds prices, \<open>Q\<close> quantities, \<open>k\<close> the number of reports.\<close>

definition within :: "int \<Rightarrow> int \<Rightarrow> nat \<Rightarrow> Position \<Rightarrow> bool" where
  "within P Q k p = (\<bar>p_net_qty p\<bar> \<le> int k * Q \<and> \<bar>p_avg_cost p\<bar> \<le> P \<and> \<bar>p_realized_pnl p\<bar> \<le> int k * (2 * P * Q))"

definition fits :: "int \<Rightarrow> int \<Rightarrow> nat \<Rightarrow> bool" where
  "fits P Q k = (0 \<le> P \<and> 0 \<le> Q \<and> int k * Q < 2 ^ 63 \<and> int k * (2 * P * Q) < 2 ^ 63)"

definition report_within :: "int \<Rightarrow> int \<Rightarrow> ExecutionReport \<Rightarrow> bool" where
  "report_within P Q r = (\<bar>r_exec_price r\<bar> \<le> P \<and> uint (r_exec_qty r) \<le> Q)"

lemma in_int64_abs: "\<bar>x\<bar> < 2 ^ 63 \<Longrightarrow> in_int64 x"
  by (auto simp: in_int64_def)

lemma checked_ok: "in_int64 x \<Longrightarrow> checked x k = k x"
  by (simp add: checked_def)

lemma signed_qty_abs: "report_within P Q r \<Longrightarrow> \<bar>signed_qty r\<bar> \<le> Q"
  by (simp add: report_within_def signed_qty_def)

lemma realize_within:
  assumes "within P Q k p" "fits P Q (Suc k)" "\<bar>px\<bar> \<le> P" "\<bar>sq\<bar> \<le> Q"
  shows "\<exists>v. realize px sq p = Inr v \<and> \<bar>v\<bar> \<le> int (Suc k) * (2 * P * Q)"
proof (cases "p_net_qty p > 0 \<and> sq < 0 \<or> p_net_qty p < 0 \<and> sq > 0")
  case False
  have "0 \<le> 2 * P * Q" using assms(2) by (simp add: fits_def)
  then have "\<bar>p_realized_pnl p\<bar> \<le> int (Suc k) * (2 * P * Q)"
    using assms(1) by (simp add: within_def algebra_simps)
  moreover have "realize px sq p = Inr (p_realized_pnl p)" unfolding realize_def by (simp only: False if_False)
  ultimately show ?thesis by simp
next
  case True
  let ?c = "min \<bar>p_net_qty p\<bar> \<bar>sq\<bar>" and ?d = "px - p_avg_cost p" and ?s = "if p_net_qty p > 0 then 1 else - 1 :: int"
  have PQ: "0 \<le> P" "1 \<le> Q" "0 \<le> P * Q" using assms(2,4) True by (auto simp: fits_def)
  have net: "\<bar>p_net_qty p\<bar> < 2 ^ 63"
    using assms(1,2) PQ by (auto simp: within_def fits_def algebra_simps)
  have d: "\<bar>?d\<bar> \<le> 2 * P" using assms(1,3) unfolding within_def by linarith
  have prod: "\<bar>?d * ?c\<bar> \<le> 2 * P * Q"
    using d assms(4) mult_mono [of "\<bar>?d\<bar>" "2 * P" ?c Q] PQ by (simp add: abs_mult)
  have le: "2 * P * Q \<le> int (Suc k) * (2 * P * Q)" using PQ by (simp add: algebra_simps)
  have big: "int (Suc k) * (2 * P * Q) < 2 ^ 63" using assms(2) by (simp add: fits_def)
  have "2 * P \<le> 2 * P * Q" using PQ mult_left_mono [of 1 Q "2 * P"] by simp
  then have d63: "\<bar>?d\<bar> < 2 ^ 63" using d le big by linarith
  have flip: "\<bar>x * ?s\<bar> = \<bar>x\<bar>" for x by simp
  have w: "\<bar>p_realized_pnl p + ?d * ?c * ?s\<bar> \<le> int (Suc k) * (2 * P * Q)"
  proof -
    have "\<bar>?d * ?c * ?s\<bar> \<le> 2 * P * Q" unfolding flip by (rule prod)
    moreover have "\<bar>p_realized_pnl p\<bar> \<le> int k * (2 * P * Q)" using assms(1) by (simp add: within_def)
    moreover have suc: "int (Suc k) * (2 * P * Q) = int k * (2 * P * Q) + 2 * P * Q" by (simp add: algebra_simps)
    ultimately show ?thesis unfolding suc by (intro order_trans [OF abs_triangle_ineq add_mono])
  qed
  have small: "\<bar>?d * ?c\<bar> < 2 ^ 63" by (rule le_less_trans [OF prod le_less_trans [OF le big]])
  have "\<bar>?d * ?c * ?s\<bar> < 2 ^ 63" unfolding flip by (rule small)
  then have fit: "in_int64 (?d * ?c * ?s)" by (rule in_int64_abs)
  have "in_int64 \<bar>p_net_qty p\<bar>" using net by (intro in_int64_abs) simp
  note fits = this in_int64_abs [OF d63] in_int64_abs [OF small] fit in_int64_abs [OF le_less_trans [OF w big]]
  have "realize px sq p = Inr (p_realized_pnl p + ?d * ?c * ?s)"
    unfolding realize_def Let_def checked_def by (simp only: True if_True fits)
  then show ?thesis using w by blast
qed

lemma update_position_within:
  assumes w: "within P Q k p" and f: "fits P Q (Suc k)" and r: "report_within P Q rpt"
  shows "\<exists>p'. update_position rpt p = Inr p' \<and> within P Q (Suc k) p' \<and> p_symbol p' = r_symbol rpt \<and>
     p_net_qty p' = p_net_qty p + signed_qty rpt \<and> p_total_fills p' = p_total_fills p + 1"
proof -
  let ?pos = "p\<lparr>p_symbol := r_symbol rpt, p_total_fills := p_total_fills p + 1\<rparr>" and ?sq = "signed_qty rpt"
  have pos: "within P Q k ?pos" using w by (simp add: within_def)
  have px: "\<bar>r_exec_price rpt\<bar> \<le> P" using r by (simp add: report_within_def)
  obtain v where v: "realize (r_exec_price rpt) ?sq ?pos = Inr v" "\<bar>v\<bar> \<le> int (Suc k) * (2 * P * Q)"
    using realize_within [OF pos f px signed_qty_abs [OF r]] by blast
  have net: "\<bar>p_net_qty p + ?sq\<bar> \<le> int (Suc k) * Q"
    using w signed_qty_abs [OF r] by (auto simp: within_def algebra_simps)
  then have "in_int64 (p_net_qty p + ?sq)" using f by (intro in_int64_abs) (simp add: fits_def)
  with v(1) have u: "update_position rpt p = Inr (?pos\<lparr>p_realized_pnl := v,
      p_avg_cost := (if p_net_qty p + ?sq \<noteq> 0 then (if p_net_qty p = 0 then r_exec_price rpt else p_avg_cost p) else 0),
      p_net_qty := p_net_qty p + ?sq\<rparr>)"
    by (simp add: update_position_def Let_def checked_ok)
  have "0 \<le> P" using f by (simp add: fits_def)
  then show ?thesis unfolding u using net v(2) w px by (simp add: within_def)
qed

definition layer_inv :: "int \<Rightarrow> int \<Rightarrow> ExecutionReport list \<Rightarrow> ExecutionLayer \<Rightarrow> bool" where
  "layer_inv P Q rs el = (\<forall>sid. case el_positions el sid of None \<Rightarrow> own sid rs = []
     | Some p \<Rightarrow> own sid rs \<noteq> [] \<and> p_symbol p = sid \<and> p_net_qty p = sum_list (map signed_qty (own sid rs)) \<and>
         p_total_fills p = of_nat (length (own sid rs)) \<and> within P Q (length rs) p)"

lemma fits_mono: "fits P Q n \<Longrightarrow> k \<le> n \<Longrightarrow> fits P Q k"
proof -
  assume f: "fits P Q n" and "k \<le> n"
  then have "int k * Q \<le> int n * Q" "int k * (2 * P * Q) \<le> int n * (2 * P * Q)"
    by (auto simp: fits_def intro!: mult_right_mono)
  then show ?thesis using f unfolding fits_def by linarith
qed

lemma within_mono: "within P Q k p \<Longrightarrow> k \<le> n \<Longrightarrow> 0 \<le> P \<Longrightarrow> 0 \<le> Q \<Longrightarrow> within P Q n p"
proof -
  assume w: "within P Q k p" and "k \<le> n" "0 \<le> P" "0 \<le> Q"
  then have "int k * Q \<le> int n * Q" "int k * (2 * P * Q) \<le> int n * (2 * P * Q)" by (auto intro!: mult_right_mono)
  then show ?thesis using w by (auto simp: within_def)
qed

lemma process_report_inv:
  assumes inv: "layer_inv P Q rs el" and f: "fits P Q (Suc (length rs))" and r: "report_within P Q rpt"
  shows "\<exists>el'. process_report rpt el = Inr el' \<and> layer_inv P Q (rs @ [rpt]) el' \<and>
     el_stat_fills el' = el_stat_fills el + 1 \<and> el_fill_cb el' = el_fill_cb el \<and>
     (el_fill_cb el \<longrightarrow> map fst (el_fill_calls el') = map fst (el_fill_calls el) @ [rpt])"
proof -
  let ?s = "r_symbol rpt"
  define old where "old = (case el_positions el ?s of None \<Rightarrow> zero_position | Some p \<Rightarrow> p)"
  have PQ: "0 \<le> P" "0 \<le> Q" using f by (simp_all add: fits_def)
  have old: "p_net_qty old = sum_list (map signed_qty (own ?s rs))" "p_total_fills old = of_nat (length (own ?s rs))"
    "within P Q (length rs) old"
    using inv [unfolded layer_inv_def, rule_format, of ?s] PQ
    by (auto simp: old_def zero_position_def within_def split: option.splits)
  obtain p' where p': "update_position rpt old = Inr p'" "within P Q (Suc (length rs)) p'" "p_symbol p' = ?s"
    "p_net_qty p' = p_net_qty old + signed_qty rpt" "p_total_fills p' = p_total_fills old + 1"
    using update_position_within [OF old(3) f r] by blast
  let ?el' = "el\<lparr>el_stat_fills := el_stat_fills el + 1, el_positions := (el_positions el)(?s \<mapsto> p'),
     el_fill_calls := el_fill_calls el @ (if el_fill_cb el then [(rpt, p')] else [])\<rparr>"
  have "process_report rpt el = Inr ?el'" using p'(1) by (simp add: process_report_def old_def Let_def)
  moreover have "layer_inv P Q (rs @ [rpt]) ?el'"
    unfolding layer_inv_def
  proof
    fix sid
    show "case el_positions ?el' sid of None \<Rightarrow> own sid (rs @ [rpt]) = []
     | Some p \<Rightarrow> own sid (rs @ [rpt]) \<noteq> [] \<and> p_symbol p = sid \<and> p_net_qty p = sum_list (map signed_qty (own sid (rs @ [rpt]))) \<and>
         p_total_fills p = of_nat (length (own sid (rs @ [rpt]))) \<and> within P Q (length (rs @ [rpt])) p"
    proof (cases "sid = ?s")
      case True
      then show ?thesis using p' old by (simp add: own_def)
    next
      case False
      then show ?thesis using inv [unfolded layer_inv_def, rule_format, of sid] within_mono PQ
        by (auto simp: own_def split: option.splits)
    qed
  qed
  ultimately show ?thesis by auto
qed

lemma process_all_inv:
  assumes "layer_inv P Q rs0 el" "fits P Q (length rs0 + length rs)" "\<forall>r \<in> set rs. report_within P Q r"
  shows "\<exists>el'. process_all rs el = Inr el' \<and> layer_inv P Q (rs0 @ rs) el' \<and>
     el_stat_fills el' = el_stat_fills el + of_nat (length rs) \<and>
     (el_fill_cb el \<longrightarrow> map fst (el_fill_calls el') = map fst (el_fill_calls el) @ rs)"
  using assms
proof (induction rs arbitrary: rs0 el)
  case (Cons r rs)
  have "fits P Q (Suc (length rs0))" using Cons.prems(2) by (rule fits_mono) simp
  then obtain el1 where el1: "process_report r el = Inr el1" "layer_inv P Q (rs0 @ [r]) el1"
    "el_stat_fills el1 = el_stat_fills el + 1" "el_fill_cb el1 = el_fill_cb el"
    "el_fill_cb el \<longrightarrow> map fst (el_fill_calls el1) = map fst (el_fill_calls el) @ [r]"
    using process_report_inv [OF Cons.prems(1), of r] Cons.prems(3) by auto
  from Cons.IH [OF el1(2)] Cons.prems(2,3) el1 show ?case by (auto simp: algebra_simps)
qed simp

text \<open>The specification of a fill: the sign of its side times its quantity.\<close>

definition side_sign :: "Side \<Rightarrow> int" where
  "side_sign sd = (if sd = Buy then 1 else - 1)"

lemma signed_qty_sign: "signed_qty r = side_sign (r_side r) * uint (r_exec_qty r)"
  by (simp add: signed_qty_def side_sign_def)

lemma signed_qty_fun: "signed_qty = (\<lambda>r. side_sign (r_side r) * uint (r_exec_qty r))"
  by (simp add: fun_eq_iff signed_qty_sign)

lemma poll_positions:
  assumes "spsc_holds el_kQueueDepth q xs" "rs = take (nat max_msgs) xs" "fits P Q (length rs)"
    "\<forall>r \<in> set rs. report_within P Q r"
  shows "\<exists>el'. poll max_msgs (on_fill True (new_layer q)) = Inr (int (length rs), el') \<and>
     spsc_holds el_kQueueDepth (el_inbound el') (drop (nat max_msgs) xs) \<and>
     el_stat_fills el' = of_nat (length rs) \<and> map fst (el_fill_calls el') = rs \<and>
     (\<forall>sid. case get_position sid el' of None \<Rightarrow> own sid rs = []
       | Some p \<Rightarrow> own sid rs \<noteq> [] \<and> p_symbol p = sid \<and> p_net_qty p = sum_list (map signed_qty (own sid rs)) \<and>
           p_total_fills p = of_nat (length (own sid rs)))"
proof -
  let ?el = "on_fill True (new_layer q)"
  have el: "el_inbound ?el = q" "layer_inv P Q [] ?el" "el_fill_cb ?el" "el_fill_calls ?el = []" "el_stat_fills ?el = 0"
    by (simp_all add: on_fill_def new_layer_def layer_inv_def own_def)
  obtain el1 where el1: "process_all rs ?el = Inr el1" "layer_inv P Q rs el1" "el_stat_fills el1 = of_nat (length rs)"
    "map fst (el_fill_calls el1) = rs"
    using process_all_inv [OF el(2), of rs] assms(3,4) el by auto
  obtain q' where q': "poll max_msgs ?el = Inr (int (min (nat max_msgs) (length xs)), el1\<lparr>el_inbound := q'\<rparr>)"
    "spsc_holds el_kQueueDepth q' (drop (nat max_msgs) xs)"
    using poll_loop_process [of ?el xs "nat max_msgs" 0] assms(1,2) el(1) el1(1) by (auto simp: poll_def)
  have "case get_position sid (el1\<lparr>el_inbound := q'\<rparr>) of None \<Rightarrow> own sid rs = []
       | Some p \<Rightarrow> own sid rs \<noteq> [] \<and> p_symbol p = sid \<and> p_net_qty p = sum_list (map signed_qty (own sid rs)) \<and>
           p_total_fills p = of_nat (length (own sid rs))" for sid
    using el1(2) [unfolded layer_inv_def, rule_format, of sid] by (simp add: get_position_def split: option.splits)
  then show ?thesis using q' el1(3,4) assms(2) by (auto simp: min.commute)
qed

subsection \<open>Properties\<close>

text \<open>C24. Position keeping.  When prices, quantities and the number of reports are small enough for the
  products to stay in 64 bits, \<^verbatim>\<open>poll\<close> processes the oldest reports of the queue, as many as asked for or
  as there are, without overflow, calls the fill callback for each in order, and leaves for every
  symbol the signed sum of its executed quantities and the number of its fills; a symbol without
  report has no position.\<close>

theorem positions_correct:
  assumes "spsc_holds el_kQueueDepth q xs" "rs = take (nat max_msgs) xs" "fits P Q (length rs)"
    "\<forall>r \<in> set rs. report_within P Q r"
  shows "\<exists>el'. poll max_msgs (on_fill True (new_layer q)) = Inr (int (length rs), el') \<and>
     spsc_holds el_kQueueDepth (el_inbound el') (drop (nat max_msgs) xs) \<and>
     el_stat_fills el' = of_nat (length rs) \<and> map fst (el_fill_calls el') = rs \<and>
     (\<forall>sid. case get_position sid el' of None \<Rightarrow> own sid rs = []
       | Some p \<Rightarrow> own sid rs \<noteq> [] \<and> p_symbol p = sid \<and> p_net_qty p = (\<Sum>r \<leftarrow> own sid rs. side_sign (r_side r) * uint (r_exec_qty r)) \<and>
           p_total_fills p = of_nat (length (own sid rs)))"
  using poll_positions [OF assms] unfolding signed_qty_fun .

definition sample_report :: "Side \<Rightarrow> Price \<Rightarrow> Qty \<Rightarrow> ExecutionReport" where
  "sample_report sd px n = \<lparr>r_order_id = 1, r_contra_order_id = 2, r_exec_price = px, r_exec_qty = n, r_leaves_qty = 0,
     r_symbol = 7, r_side = sd, r_exec_type = ExecFill\<rparr>"

definition sample_reports :: "ExecutionReport list" where
  "sample_reports = [sample_report Buy 100 10, sample_report Sell 103 4]"

definition sample_inbound :: "ExecutionReport SPSCQueue" where
  "sample_inbound = spsc.push_all el_kQueueDepth sample_reports
     (spsc_init \<lparr>sq_buffer = \<lambda>_. sample_report Buy 0 0, sq_write_pos = 5, sq_read_pos = 3\<rparr>)"

lemma sample_inbound_holds: "spsc_holds el_kQueueDepth sample_inbound sample_reports"
proof -
  have "valid_capacity el_kQueueDepth" "unat el_kQueueDepth - 1 = 65535"
    by (simp_all add: valid_capacity_def el_kQueueDepth_def)
  then show ?thesis
    using spsc.push_all_holds [OF spsc_init_holds, of el_kQueueDepth sample_reports]
    by (simp add: sample_inbound_def sample_reports_def)
qed

theorem positions_correct_witness:
  "\<exists>el' p. poll 256 (on_fill True (new_layer sample_inbound)) = Inr (2, el') \<and>
     get_position 7 el' = Some p \<and> p_net_qty p = 6 \<and> p_total_fills p = 2 \<and> get_position 8 el' = None"
proof -
  have rs: "sample_reports = take (nat 256) sample_reports" by (simp add: sample_reports_def)
  obtain el' where el': "poll 256 (on_fill True (new_layer sample_inbound)) = Inr (2, el')"
    "\<forall>sid. case get_position sid el' of None \<Rightarrow> own sid sample_reports = []
       | Some p \<Rightarrow> own sid sample_reports \<noteq> [] \<and> p_symbol p = sid \<and>
           p_net_qty p = (\<Sum>r \<leftarrow> own sid sample_reports. side_sign (r_side r) * uint (r_exec_qty r)) \<and>
           p_total_fills p = of_nat (length (own sid sample_reports))"
    using positions_correct [OF sample_inbound_holds rs, of 103 10]
    by (auto simp: fits_def report_within_def sample_reports_def sample_report_def)
  from el'(2) [rule_format, of 7] obtain p where "get_position 7 el' = Some p" "p_net_qty p = 6" "p_total_fills p = 2"
    by (auto simp: own_def sample_reports_def sample_report_def side_sign_def split: option.splits)
  moreover from el'(2) [rule_format, of 8] have "get_position 8 el' = None"
    by (auto simp: own_def sample_reports_def sample_report_def split: option.splits)
  ultimately show ?thesis using el'(1) by blast
qed

text \<open>The quantity of a list of reports.\<close>

definition total_qty :: "ExecutionReport list \<Rightarrow> int" where
  "total_qty rs = sum_list (map (\<lambda>r. uint (r_exec_qty r)) rs)"

text \<open>A position of \<open>n\<close> units opened on side \<open>sd\<close> at cost \<open>a\<close>.\<close>

definition holding :: "Side \<Rightarrow> int \<Rightarrow> Price \<Rightarrow> int \<Rightarrow> Position \<Rightarrow> bool" where
  "holding sd n a pnl p = (0 \<le> n \<and> p_net_qty p = side_sign sd * n \<and> p_realized_pnl p = pnl \<and> p_avg_cost p = (if n = 0 then 0 else a))"

lemma checked_Inr: "checked x k = Inr y \<longleftrightarrow> in_int64 x \<and> k x = Inr y"
  by (simp add: checked_def)

lemma close_step:
  assumes h: "holding sd n a pnl p" and r: "r_side r \<noteq> sd" "uint (r_exec_qty r) \<le> n"
    and u: "update_position r p = Inr p'"
  shows "holding sd (n - uint (r_exec_qty r)) a
    (pnl + side_sign sd * (r_exec_price r - a) * uint (r_exec_qty r)) p'"
proof -
  let ?q = "uint (r_exec_qty r)" and ?s = "side_sign sd"
  have s: "side_sign (r_side r) = - ?s" using r(1) by (cases sd; cases "r_side r") (simp_all add: side_sign_def)
  then have sq: "signed_qty r = - ?s * ?q" by (simp add: signed_qty_sign)
  have net: "p_net_qty p = ?s * n" "0 \<le> n" using h by (simp_all add: holding_def)
  let ?pos = "p\<lparr>p_symbol := r_symbol r, p_total_fills := p_total_fills p + 1\<rparr>"
  obtain v where v: "realize (r_exec_price r) (signed_qty r) ?pos = Inr v"
    and p': "p' = ?pos\<lparr>p_realized_pnl := v, p_avg_cost := (if ?s * (n - ?q) \<noteq> 0
      then (if ?s * n = 0 then r_exec_price r else p_avg_cost p) else 0), p_net_qty := ?s * (n - ?q)\<rparr>"
    using u net sq by (auto simp: update_position_def Let_def checked_Inr algebra_simps split: sum.splits)
  have "v = pnl + ?s * (r_exec_price r - a) * ?q"
  proof (cases "?q = 0")
    case True
    then have "signed_qty r = 0" by (simp add: sq)
    then have "v = p_realized_pnl p" using v by (simp add: realize_def)
    then show ?thesis using h True by (simp add: holding_def)
  next
    case False
    then have pos: "0 < ?q" by (simp add: order_less_le)
    then have "0 < n" "p_avg_cost p = a" using r(2) h by (auto simp: holding_def)
    then show ?thesis using v h net r(2) pos unfolding sq
      by (cases sd) (auto simp: realize_def side_sign_def checked_Inr holding_def Let_def min_def algebra_simps split: if_splits)
  qed
  then show ?thesis using p' h net r(2) by (cases sd) (auto simp: holding_def side_sign_def)
qed

lemma close_all:
  assumes "el_positions el sid = Some p" "holding sd n a pnl p" "process_all cs el = Inr el'"
    "\<forall>c \<in> set cs. r_symbol c = sid \<and> r_side c \<noteq> sd" "total_qty cs \<le> n"
  shows "\<exists>p'. el_positions el' sid = Some p' \<and> holding sd (n - total_qty cs) a
     (pnl + sum_list (map (\<lambda>c. side_sign sd * (r_exec_price c - a) * uint (r_exec_qty c)) cs)) p'"
  using assms
proof (induction cs arbitrary: el p n pnl)
  case (Cons c cs)
  let ?q = "uint (r_exec_qty c)"
  have tot: "0 \<le> total_qty cs" by (auto simp: total_qty_def intro!: sum_list_nonneg)
  obtain el1 where el1: "process_report c el = Inr el1" "process_all cs el1 = Inr el'"
    using Cons.prems(3) by (auto split: sum.splits)
  then obtain p1 where p1: "update_position c p = Inr p1" "el_positions el1 sid = Some p1"
    using Cons.prems(1,4) by (auto simp: process_report_def Let_def split: sum.splits)
  have qn: "?q \<le> n" using Cons.prems(5) tot by (simp add: total_qty_def)
  have side: "r_side c \<noteq> sd" using Cons.prems(4) by simp
  note h1 = close_step [OF Cons.prems(2) side qn p1(1)]
  have "\<forall>c \<in> set cs. r_symbol c = sid \<and> r_side c \<noteq> sd" "total_qty cs \<le> n - ?q"
    using Cons.prems(4,5) by (auto simp: total_qty_def)
  from Cons.IH [OF p1(2) h1 el1(2) this] show ?case by (simp add: total_qty_def algebra_simps)
qed (simp add: total_qty_def)

text \<open>C25. Round trips.  From flat, a position opened by one fill and reduced by fills of the other side that
  do not exceed it realizes exactly the sum over the closing fills of quantity times price difference,
  negated for a short; what is left keeps the opening price as its cost, and a fully closed position
  is flat with cost zero.\<close>

theorem round_trip_pnl:
  assumes "spsc_holds el_kQueueDepth q (r0 # cs)" "fits P Q (length (r0 # cs))" "\<forall>r \<in> set (r0 # cs). report_within P Q r"
    "r_exec_qty r0 > 0" "\<forall>c \<in> set cs. r_symbol c = r_symbol r0 \<and> r_side c \<noteq> r_side r0"
    "total_qty cs \<le> uint (r_exec_qty r0)"
  shows "\<exists>el' p. poll (int (length (r0 # cs))) (new_layer q) = Inr (int (length (r0 # cs)), el') \<and>
     get_position (r_symbol r0) el' = Some p \<and>
     p_net_qty p = side_sign (r_side r0) * (uint (r_exec_qty r0) - total_qty cs) \<and>
     p_realized_pnl p = sum_list (map (\<lambda>c. side_sign (r_side r0) * (r_exec_price c - r_exec_price r0) * uint (r_exec_qty c)) cs) \<and>
     p_avg_cost p = (if total_qty cs = uint (r_exec_qty r0) then 0 else r_exec_price r0)"
proof -
  let ?el = "new_layer q" and ?n = "uint (r_exec_qty r0)" and ?a = "r_exec_price r0"
  have "layer_inv P Q [] ?el" by (simp add: new_layer_def layer_inv_def own_def)
  then obtain el' where run: "process_all (r0 # cs) ?el = Inr el'"
    using process_all_inv [of P Q "[]" ?el "r0 # cs"] assms(2,3) by auto
  then obtain el1 where el1: "process_report r0 ?el = Inr el1" "process_all cs el1 = Inr el'" by (auto split: sum.splits)
  have n: "0 < ?n" using assms(4) by (simp add: word_less_def)
  obtain p1 where p1: "el_positions el1 (r_symbol r0) = Some p1" "update_position r0 zero_position = Inr p1"
    using el1(1) by (auto simp: process_report_def new_layer_def Let_def split: sum.splits)
  have "holding (r_side r0) ?n ?a 0 p1"
    using p1(2) n by (auto simp: update_position_def realize_def zero_position_def checked_Inr Let_def holding_def
        signed_qty_sign side_sign_def)
  from close_all [OF p1(1) this el1(2) assms(5,6)]
  obtain p where p: "el_positions el' (r_symbol r0) = Some p" "holding (r_side r0) (?n - total_qty cs) ?a
     (0 + sum_list (map (\<lambda>c. side_sign (r_side r0) * (r_exec_price c - ?a) * uint (r_exec_qty c)) cs)) p"
    by blast
  have inb: "el_inbound ?el = q" by (simp add: new_layer_def)
  obtain q' where "poll (int (length (r0 # cs))) ?el = Inr (int (length (r0 # cs)), el'\<lparr>el_inbound := q'\<rparr>)"
    using poll_loop_process [of ?el "r0 # cs" "length (r0 # cs)" 0] assms(1) inb run by (auto simp: poll_def nat_add_distrib)
  then show ?thesis using p by (intro exI [of _ "el'\<lparr>el_inbound := q'\<rparr>"] exI [of _ p]) (auto simp: get_position_def holding_def)
qed

theorem round_trip_pnl_witness:
  "\<exists>el' p. poll 2 (new_layer sample_inbound) = Inr (2, el') \<and> get_position 7 el' = Some p \<and>
     p_net_qty p = 6 \<and> p_realized_pnl p = 12 \<and> p_avg_cost p = 100"
  using round_trip_pnl [OF sample_inbound_holds [unfolded sample_reports_def], of 103 10]
  by (auto simp: fits_def report_within_def sample_report_def total_qty_def side_sign_def)

text \<open>Outside that shape the cost is not a weighted average: adding to a position keeps the first price,
  and a position that changes sign keeps the cost of the side it left.\<close>

lemma cost_not_averaged:
  "process_all [sample_report Buy 100 10, sample_report Buy 200 10, sample_report Sell 150 20] (new_layer q) = Inr el' \<Longrightarrow>
   map_option p_realized_pnl (get_position 7 el') = Some 1000"
  "process_all [sample_report Sell 100 10, sample_report Buy 110 20] (new_layer q) = Inr el' \<Longrightarrow>
   map_option (\<lambda>p. (p_net_qty p, p_avg_cost p)) (get_position 7 el') = Some (10, 100)"
  by (auto simp: process_report_def update_position_def realize_def zero_position_def checked_def Let_def signed_qty_def
      sample_report_def new_layer_def in_int64_def get_position_def)

end
