(* ===== verification/Multi_Symbol.thy ===== *)
theory Multi_Symbol
  imports Engine_Theorems
begin

text \<open>
  \<^verbatim>\<open>MultiSymbolEngine\<close> (\<^verbatim>\<open>core/multi_symbol_engine.hpp\<close>): engines sharded over threads.  The class calls
  \<^verbatim>\<open>queue.push\<close>, \<^verbatim>\<open>queue.pop\<close> and \<^verbatim>\<open>engine.on_message\<close>, which neither \<^verbatim>\<open>SPSCQueue\<close> nor \<^verbatim>\<open>MatchingEngine\<close>
  declares; they are parameters here, with the contract of a bounded queue and of a handler that
  returns, and the interpretation shows that \<^verbatim>\<open>try_push\<close>, \<^verbatim>\<open>try_pop\<close> and \<^verbatim>\<open>process_message\<close> meet it.  The
  callback \<^verbatim>\<open>on_exec_\<close> is stored and never called, so the state leaves it out.
\<close>

unbundle bit_operations_syntax

subsection \<open>State and operations\<close>

definition fnv1a :: "string \<Rightarrow> u32" where
  "fnv1a s = fold (\<lambda>c h. (h XOR of_char c) * 16777619) s 2166136261"

record ShardConfig =
  sc_cpu_affinity :: int
  sc_numa_node :: int
  sc_queue_depth :: u64

text \<open>\<open>sh_thread\<close>: the thread object is joinable.\<close>

record Shard =
  sh_engine :: MatchingEngine
  sh_queue :: "MarketDataMsg SPSCQueue"
  sh_thread :: bool
  sh_running :: bool
  sh_cpu_id :: int
  sh_msgs_processed :: u64
  sh_msgs_dropped :: u64

record MultiSymbolEngine =
  ms_shards :: "Shard list"

text \<open>\<open>eng\<close> is a new engine, \<open>raw\<close> the uninitialised buffer of the shard's queue.\<close>

definition new_shard :: "MatchingEngine \<Rightarrow> MarketDataMsg SPSCQueue \<Rightarrow> Shard" where
  "new_shard eng raw = \<lparr>sh_engine = eng, sh_queue = spsc_init raw, sh_thread = False, sh_running = False,
     sh_cpu_id = - 1, sh_msgs_processed = 0, sh_msgs_dropped = 0\<rparr>"

definition new_multi :: "u64 \<Rightarrow> (nat \<Rightarrow> ShardConfig) option \<Rightarrow> (nat \<Rightarrow> MatchingEngine) \<Rightarrow> (nat \<Rightarrow> MarketDataMsg SPSCQueue) \<Rightarrow> MultiSymbolEngine" where
  "new_multi n cfgs engs raws = \<lparr>ms_shards = map (\<lambda>i. let sh = new_shard (engs i) (raws i)
     in case cfgs of None \<Rightarrow> sh | Some cf \<Rightarrow> sh\<lparr>sh_cpu_id := sc_cpu_affinity (cf i)\<rparr>) [0..<unat n]\<rparr>"

text \<open>The two routings: by the hash of the name on registration, by the numeric id on submission.\<close>

definition home_shard :: "u64 \<Rightarrow> string \<Rightarrow> nat" where
  "home_shard n name = unat ((ucast (fnv1a name) :: u64) AND (n - 1))"

definition shard_of :: "u64 \<Rightarrow> SymbolId \<Rightarrow> nat" where
  "shard_of n sid = unat ((ucast sid :: u64) AND (n - 1))"

definition ms_register :: "u64 \<Rightarrow> string \<Rightarrow> SymbolId \<Rightarrow> OrderBook \<Rightarrow> MultiSymbolEngine \<Rightarrow> bool \<times> MultiSymbolEngine" where
  "ms_register n name sid raw ms = (
     let i = home_shard n name; sh = ms_shards ms ! i; (ok, eng) = register_symbol sid raw (sh_engine sh)
     in (ok, ms\<lparr>ms_shards := (ms_shards ms)[i := sh\<lparr>sh_engine := eng\<rparr>]\<rparr>))"

definition ms_start :: "MultiSymbolEngine \<Rightarrow> MultiSymbolEngine" where
  "ms_start ms = ms\<lparr>ms_shards := map (\<lambda>sh. sh\<lparr>sh_running := True, sh_thread := True\<rparr>) (ms_shards ms)\<rparr>"

type_synonym queue_push = "MarketDataMsg \<Rightarrow> MarketDataMsg SPSCQueue \<Rightarrow> bool \<times> MarketDataMsg SPSCQueue"
type_synonym queue_pop = "MarketDataMsg SPSCQueue \<Rightarrow> MarketDataMsg option \<times> MarketDataMsg SPSCQueue"
type_synonym handler = "MarketDataMsg \<Rightarrow> MatchingEngine \<Rightarrow> MatchingEngine option"

definition ms_submit :: "queue_push \<Rightarrow> u64 \<Rightarrow> MarketDataMsg \<Rightarrow> MultiSymbolEngine \<Rightarrow> bool \<times> MultiSymbolEngine" where
  "ms_submit push n msg ms = (
     let i = shard_of n (m_symbol msg); sh = ms_shards ms ! i; (ok, q) = push msg (sh_queue sh)
     in if ok then (True, ms\<lparr>ms_shards := (ms_shards ms)[i := sh\<lparr>sh_queue := q\<rparr>]\<rparr>)
        else (False, ms\<lparr>ms_shards := (ms_shards ms)[i := sh\<lparr>sh_queue := q, sh_msgs_dropped := sh_msgs_dropped sh + 1\<rparr>]\<rparr>))"

text \<open>\<^verbatim>\<open>shard_loop\<close>: one turn while running, and the drain after it.\<close>

definition shard_turn :: "queue_pop \<Rightarrow> handler \<Rightarrow> Shard \<Rightarrow> Shard option" where
  "shard_turn pop on_message sh = (case pop (sh_queue sh) of
     (None, q) \<Rightarrow> Some (sh\<lparr>sh_queue := q\<rparr>)
   | (Some msg, q) \<Rightarrow> do {
       eng \<leftarrow> on_message msg (sh_engine sh);
       Some (sh\<lparr>sh_queue := q, sh_engine := eng, sh_msgs_processed := sh_msgs_processed sh + 1\<rparr>) })"

partial_function (option) shard_drain :: "queue_pop \<Rightarrow> handler \<Rightarrow> Shard \<Rightarrow> Shard option" where
  "shard_drain pop on_message sh = (case pop (sh_queue sh) of
     (None, q) \<Rightarrow> Some (sh\<lparr>sh_queue := q\<rparr>)
   | (Some msg, q) \<Rightarrow> do {
       eng \<leftarrow> on_message msg (sh_engine sh);
       shard_drain pop on_message (sh\<lparr>sh_queue := q, sh_engine := eng\<rparr>) })"

declare shard_drain.simps [code]

text \<open>\<^verbatim>\<open>join\<close> returns when the thread has left its loop and drained; a thread that was never started is skipped.\<close>

definition shard_join :: "queue_pop \<Rightarrow> handler \<Rightarrow> Shard \<Rightarrow> Shard option" where
  "shard_join pop on_message sh = (if sh_thread sh then do {
       sh' \<leftarrow> shard_drain pop on_message sh; Some (sh'\<lparr>sh_thread := False\<rparr>) } else Some sh)"

definition ms_stop :: "queue_pop \<Rightarrow> handler \<Rightarrow> MultiSymbolEngine \<Rightarrow> MultiSymbolEngine option" where
  "ms_stop pop on_message ms = do {
     shs \<leftarrow> those (map (shard_join pop on_message) (map (\<lambda>sh. sh\<lparr>sh_running := False\<rparr>) (ms_shards ms)));
     Some (ms\<lparr>ms_shards := shs\<rparr>) }"

record Stats =
  st_shard_id :: nat
  st_msgs_processed :: u64
  st_msgs_dropped :: u64
  st_cpu_id :: int

definition ms_stats :: "u64 \<Rightarrow> MultiSymbolEngine \<Rightarrow> Stats list" where
  "ms_stats n ms = map (\<lambda>i. let sh = ms_shards ms ! i in
     \<lparr>st_shard_id = i, st_msgs_processed = sh_msgs_processed sh, st_msgs_dropped = sh_msgs_dropped sh,
      st_cpu_id = sh_cpu_id sh\<rparr>) [0..<unat n]"

text \<open>The feed thread and the shard threads interleave; \<open>mr_accepted\<close> and \<open>mr_refused\<close> are the messages
  offered so far, \<open>mr_handled\<close> those each shard has handled.\<close>

record MultiRun =
  mr_engine :: MultiSymbolEngine
  mr_accepted :: "MarketDataMsg list"
  mr_refused :: "MarketDataMsg list"
  mr_handled :: "nat \<Rightarrow> MarketDataMsg list"

inductive ms_step :: "queue_push \<Rightarrow> queue_pop \<Rightarrow> handler \<Rightarrow> u64 \<Rightarrow> MultiRun \<Rightarrow> MultiRun \<Rightarrow> bool"
  for push pop on_message n where
  submits: "ms_submit push n msg (mr_engine s) = (ok, ms') \<Longrightarrow>
     ms_step push pop on_message n s (s\<lparr>mr_engine := ms',
       mr_accepted := mr_accepted s @ (if ok then [msg] else []), mr_refused := mr_refused s @ (if ok then [] else [msg])\<rparr>)"
| turns: "i < unat n \<Longrightarrow> sh = ms_shards (mr_engine s) ! i \<Longrightarrow> sh_running sh \<Longrightarrow> shard_turn pop on_message sh = Some sh' \<Longrightarrow>
     ms_step push pop on_message n s (s\<lparr>mr_engine := (mr_engine s)\<lparr>ms_shards := (ms_shards (mr_engine s))[i := sh']\<rparr>,
       mr_handled := (mr_handled s)(i := mr_handled s i @ (case fst (pop (sh_queue sh)) of None \<Rightarrow> [] | Some msg \<Rightarrow> [msg]))\<rparr>)"

definition ms_boot :: "MultiSymbolEngine \<Rightarrow> MultiRun" where
  "ms_boot ms = \<lparr>mr_engine = ms_start ms, mr_accepted = [], mr_refused = [], mr_handled = \<lambda>_. []\<rparr>"

inductive ms_reach :: "queue_push \<Rightarrow> queue_pop \<Rightarrow> handler \<Rightarrow> u64 \<Rightarrow> MultiSymbolEngine \<Rightarrow> MultiRun \<Rightarrow> bool"
  for push pop on_message n ms where
  boot: "ms_reach push pop on_message n ms (ms_boot ms)"
| step: "ms_reach push pop on_message n ms s \<Longrightarrow> ms_step push pop on_message n s s' \<Longrightarrow> ms_reach push pop on_message n ms s'"

primrec handle_all :: "handler \<Rightarrow> MarketDataMsg list \<Rightarrow> MatchingEngine \<Rightarrow> MatchingEngine option" where
  "handle_all h [] eng = Some eng"
| "handle_all h (m # ms) eng = Option.bind (h m eng) (handle_all h ms)"

definition routed :: "u64 \<Rightarrow> nat \<Rightarrow> MarketDataMsg list \<Rightarrow> MarketDataMsg list" where
  "routed n i ms = filter (\<lambda>m. shard_of n (m_symbol m) = i) ms"

lemma handle_all_append: "handle_all h (xs @ ys) eng = Option.bind (handle_all h xs eng) (handle_all h ys)"
  by (induction xs arbitrary: eng) (auto split: bind_split)

lemma handle_all_one: "handle_all h [m] eng = h m eng"
  by (cases "h m eng") simp_all

lemma register_new: "unat sid < kMaxSymbols \<Longrightarrow> register_symbol sid raw (new_engine inq outq) =
  (True, (new_engine inq outq)\<lparr>me_books := (\<lambda>_. None)(unat sid := Some (new_book sid True raw))\<rparr>)"
  by (simp add: register_symbol_def new_engine_def)

lemma new_engine_books: "me_books (new_engine inq outq) j = None"
  by (simp add: new_engine_def)

lemma routed_append [simp]: "routed n i (xs @ ys) = routed n i xs @ routed n i ys"
  by (simp add: routed_def)

lemma routed_simps [simp]: "routed n i [] = []" "routed n i [m] = (if shard_of n (m_symbol m) = i then [m] else [])"
  by (simp_all add: routed_def)

lemma mask_lt: "0 < n \<Longrightarrow> unat (x AND (n - 1)) < unat (n :: u64)"
proof -
  assume "0 < n"
  then have "unat (n - 1) < unat n" by (simp add: word_less_nat_alt unat_sub word_le_nat_alt)
  moreover have "x AND (n - 1) \<le> n - 1" by (rule word_and_le1)
  ultimately show ?thesis by (simp add: word_le_nat_alt)
qed

lemma shard_of_lt: "0 < n \<Longrightarrow> shard_of n sid < unat n"
  by (simp add: shard_of_def mask_lt)

lemma home_shard_lt: "0 < n \<Longrightarrow> home_shard n name < unat n"
  by (simp add: home_shard_def mask_lt)

subsection \<open>What the shards rely on\<close>

locale shard_members = bounded_fifo holds push pop room
  for holds :: "MarketDataMsg SPSCQueue \<Rightarrow> MarketDataMsg list \<Rightarrow> bool" and push :: queue_push and pop :: queue_pop and room :: nat +
  fixes on_message :: handler and good :: "MatchingEngine \<Rightarrow> bool"
  assumes handler_returns: "good eng \<Longrightarrow> \<exists>eng'. on_message msg eng = Some eng' \<and> good eng'"
begin

lemma drain_result:
  "holds (sh_queue sh) xs \<Longrightarrow> good (sh_engine sh) \<Longrightarrow>
     \<exists>q eng. shard_drain pop on_message sh = Some (sh\<lparr>sh_queue := q, sh_engine := eng\<rparr>) \<and> holds q [] \<and>
       handle_all on_message xs (sh_engine sh) = Some eng"
proof (induction xs arbitrary: sh)
  case Nil
  then have "pop (sh_queue sh) = (None, sh_queue sh)" by (simp add: pop_Nil)
  then have "shard_drain pop on_message sh = Some (sh\<lparr>sh_queue := sh_queue sh, sh_engine := sh_engine sh\<rparr>)"
    by (subst shard_drain.simps) simp
  then show ?case using Nil by (intro exI [of _ "sh_queue sh"] exI [of _ "sh_engine sh"]) simp
next
  case (Cons m xs)
  obtain q where q: "pop (sh_queue sh) = (Some m, q)" "holds q xs" using pop_Cons [OF Cons.prems(1)] by blast
  obtain eng where eng: "on_message m (sh_engine sh) = Some eng" "good eng" using handler_returns [OF Cons.prems(2)] by blast
  show ?case using Cons.IH [of "sh\<lparr>sh_queue := q, sh_engine := eng\<rparr>"] q eng
    by (subst shard_drain.simps) auto
qed

text \<open>One shard, after it was started with engine \<open>eng0\<close>: what it has taken, what it still holds, what it refused.\<close>

definition shard_ok :: "MatchingEngine \<Rightarrow> MarketDataMsg list \<Rightarrow> MarketDataMsg list \<Rightarrow> MarketDataMsg list \<Rightarrow> Shard \<Rightarrow> bool" where
  "shard_ok eng0 took refused handled sh = (\<exists>xs. holds (sh_queue sh) xs \<and> took = handled @ xs \<and>
     handle_all on_message handled eng0 = Some (sh_engine sh) \<and> good (sh_engine sh) \<and> sh_thread sh \<and>
     sh_msgs_processed sh = of_nat (length handled) \<and> sh_msgs_dropped sh = of_nat (length refused))"

definition run_ok :: "u64 \<Rightarrow> Shard list \<Rightarrow> MultiRun \<Rightarrow> bool" where
  "run_ok n shs s = (length (ms_shards (mr_engine s)) = unat n \<and> (\<forall>i < unat n.
     shard_ok (sh_engine (shs ! i)) (routed n i (mr_accepted s)) (routed n i (mr_refused s)) (mr_handled s i) (ms_shards (mr_engine s) ! i)))"

lemma submit_ok:
  assumes "shard_ok eng0 took refused handled sh" and "push msg (sh_queue sh) = (ok, q)"
  shows "shard_ok eng0 (took @ (if ok then [msg] else [])) (refused @ (if ok then [] else [msg])) handled
     (if ok then sh\<lparr>sh_queue := q\<rparr> else sh\<lparr>sh_queue := q, sh_msgs_dropped := sh_msgs_dropped sh + 1\<rparr>)"
proof -
  obtain xs where xs: "holds (sh_queue sh) xs" "took = handled @ xs" using assms(1) by (auto simp: shard_ok_def)
  show ?thesis using push_cases [OF xs(1), of msg] assms xs by (fastforce simp: shard_ok_def split: if_splits)
qed

lemma turn_ok:
  assumes ok: "shard_ok eng0 took refused handled sh" and turn: "shard_turn pop on_message sh = Some sh'"
  shows "shard_ok eng0 took refused (handled @ (case fst (pop (sh_queue sh)) of None \<Rightarrow> [] | Some msg \<Rightarrow> [msg])) sh'"
proof -
  obtain xs where xs: "holds (sh_queue sh) xs" "took = handled @ xs" "good (sh_engine sh)" using ok by (auto simp: shard_ok_def)
  show ?thesis
  proof (cases xs)
    case Nil
    then have "pop (sh_queue sh) = (None, sh_queue sh)" using xs by (simp add: pop_Nil)
    then show ?thesis using ok turn by (simp add: shard_turn_def)
  next
    case (Cons m ys)
    then obtain q where q: "pop (sh_queue sh) = (Some m, q)" "holds q ys" using pop_Cons xs by blast
    obtain eng where eng: "on_message m (sh_engine sh) = Some eng" "good eng" using handler_returns [OF xs(3)] by blast
    have "sh' = sh\<lparr>sh_queue := q, sh_engine := eng, sh_msgs_processed := sh_msgs_processed sh + 1\<rparr>"
      using turn q eng by (simp add: shard_turn_def)
    then show ?thesis using ok q eng xs Cons by (auto simp: shard_ok_def handle_all_append)
  qed
qed

lemma run_ok_step:
  assumes "ms_step push pop on_message n s s'" and ok: "run_ok n shs s" and n: "0 < n"
  shows "run_ok n shs s'"
  using assms(1)
proof cases
  case (submits msg acc ms')
  let ?i = "shard_of n (m_symbol msg)"
  obtain b q where q: "push msg (sh_queue (ms_shards (mr_engine s) ! ?i)) = (b, q)" by fastforce
  have i: "?i < unat n" using shard_of_lt [OF n] .
  have sh: "shard_ok (sh_engine (shs ! ?i)) (routed n ?i (mr_accepted s)) (routed n ?i (mr_refused s)) (mr_handled s ?i) (ms_shards (mr_engine s) ! ?i)"
    using ok i by (simp add: run_ok_def)
  show ?thesis using submits ok submit_ok [OF sh q] q i
    by (auto simp: run_ok_def ms_submit_def Let_def nth_list_update split: if_splits)
next
  case (turns i sh sh')
  then have "shard_ok (sh_engine (shs ! i)) (routed n i (mr_accepted s)) (routed n i (mr_refused s)) (mr_handled s i) sh"
    using ok by (simp add: run_ok_def)
  from turn_ok [OF this] show ?thesis using turns ok by (simp add: run_ok_def nth_list_update)
qed

lemma run_ok_reach:
  assumes "ms_reach push pop on_message n ms s" and n: "0 < n" "length (ms_shards ms) = unat n"
    and fresh: "\<And>i. i < unat n \<Longrightarrow> holds (sh_queue (ms_shards ms ! i)) [] \<and> good (sh_engine (ms_shards ms ! i)) \<and>
       sh_msgs_processed (ms_shards ms ! i) = 0 \<and> sh_msgs_dropped (ms_shards ms ! i) = 0"
  shows "run_ok n (ms_shards ms) s"
  using assms(1)
proof (induction rule: ms_reach.induct)
  case boot
  then show ?case using n fresh by (simp add: run_ok_def ms_boot_def ms_start_def shard_ok_def)
next
  case (step s s')
  then show ?case using run_ok_step n(1) by blast
qed

lemma join_result:
  assumes "shard_ok eng0 took refused handled sh"
  shows "\<exists>sh'. shard_join pop on_message (sh\<lparr>sh_running := False\<rparr>) = Some sh' \<and> handle_all on_message took eng0 = Some (sh_engine sh') \<and>
     holds (sh_queue sh') [] \<and> \<not> sh_thread sh' \<and> \<not> sh_running sh' \<and> sh_msgs_dropped sh' = of_nat (length refused)"
proof -
  obtain xs where xs: "holds (sh_queue sh) xs" "took = handled @ xs" "good (sh_engine sh)" using assms by (auto simp: shard_ok_def)
  show ?thesis using drain_result [of "sh\<lparr>sh_running := False\<rparr>" xs] xs assms
    by (auto simp: shard_join_def shard_ok_def handle_all_append)
qed

lemma those_map: "(\<And>x. x \<in> set xs \<Longrightarrow> \<exists>y. f x = Some y) \<Longrightarrow> those (map f xs) = Some (map (the \<circ> f) xs)"
  by (induction xs) fastforce+

lemma stop_result:
  assumes ok: "run_ok n shs s"
  shows "\<exists>ms'. ms_stop pop on_message (mr_engine s) = Some ms' \<and> length (ms_shards ms') = unat n \<and>
     (\<forall>i < unat n. handle_all on_message (routed n i (mr_accepted s)) (sh_engine (shs ! i)) = Some (sh_engine (ms_shards ms' ! i)) \<and>
        holds (sh_queue (ms_shards ms' ! i)) [] \<and> \<not> sh_thread (ms_shards ms' ! i) \<and> \<not> sh_running (ms_shards ms' ! i) \<and>
        sh_msgs_dropped (ms_shards ms' ! i) = of_nat (length (routed n i (mr_refused s))))"
proof -
  let ?shs = "map (\<lambda>sh. sh\<lparr>sh_running := False\<rparr>) (ms_shards (mr_engine s))"
  have len: "length (ms_shards (mr_engine s)) = unat n" using ok by (simp add: run_ok_def)
  have joins: "\<exists>sh'. shard_join pop on_message (?shs ! i) = Some sh' \<and>
      handle_all on_message (routed n i (mr_accepted s)) (sh_engine (shs ! i)) = Some (sh_engine sh') \<and>
      holds (sh_queue sh') [] \<and> \<not> sh_thread sh' \<and> \<not> sh_running sh' \<and> sh_msgs_dropped sh' = of_nat (length (routed n i (mr_refused s)))"
    if "i < unat n" for i
    using join_result [of "sh_engine (shs ! i)" "routed n i (mr_accepted s)" "routed n i (mr_refused s)" "mr_handled s i" "ms_shards (mr_engine s) ! i"] ok that len
    by (simp add: run_ok_def)
  have "those (map (shard_join pop on_message) ?shs) = Some (map (the \<circ> shard_join pop on_message) ?shs)"
  proof (rule those_map)
    fix x assume "x \<in> set ?shs"
    then obtain i where "i < unat n" "x = ?shs ! i" using len by (auto simp: in_set_conv_nth)
    then show "\<exists>y. shard_join pop on_message x = Some y" using joins by blast
  qed
  then have "ms_stop pop on_message (mr_engine s) = Some ((mr_engine s)\<lparr>ms_shards := map (the \<circ> shard_join pop on_message) ?shs\<rparr>)"
    unfolding ms_stop_def by simp
  moreover have "map (the \<circ> shard_join pop on_message) ?shs ! i = the (shard_join pop on_message (?shs ! i))" if "i < unat n" for i
    using that len by simp
  ultimately show ?thesis using joins len by fastforce
qed

lemma shards_complete:
  assumes "ms_reach push pop on_message n ms s" "0 < n" "length (ms_shards ms) = unat n"
    "\<And>i. i < unat n \<Longrightarrow> holds (sh_queue (ms_shards ms ! i)) [] \<and> good (sh_engine (ms_shards ms ! i)) \<and>
       sh_msgs_processed (ms_shards ms ! i) = 0 \<and> sh_msgs_dropped (ms_shards ms ! i) = 0"
  shows "\<exists>ms'. ms_stop pop on_message (mr_engine s) = Some ms' \<and> length (ms_shards ms') = unat n \<and>
     (\<forall>i < unat n. handle_all on_message (routed n i (mr_accepted s)) (sh_engine (ms_shards ms ! i)) = Some (sh_engine (ms_shards ms' ! i)) \<and>
        holds (sh_queue (ms_shards ms' ! i)) [] \<and> \<not> sh_thread (ms_shards ms' ! i) \<and> \<not> sh_running (ms_shards ms' ! i) \<and>
        sh_msgs_dropped (ms_shards ms' ! i) = of_nat (length (routed n i (mr_refused s))))"
  using stop_result run_ok_reach [OF assms] by blast

end

interpretation shm: shard_members "spsc_holds me_kQueueDepth" "spsc_try_push me_kQueueDepth" "spsc_try_pop me_kQueueDepth"
  "unat me_kQueueDepth - 1" process_message "engine_inv False"
proof unfold_locales
  fix eng msg assume "engine_inv False eng"
  from handle_message_result [OF this, of msg]
  obtain eng' rs where "handle_message msg eng = Some (eng', rs)" "engine_inv False eng'" by auto
  then show "\<exists>eng'. process_message msg eng = Some eng' \<and> engine_inv False eng'"
    by (auto simp: process_message_def engine_inv_def)
qed

subsection \<open>Properties\<close>

text \<open>C35. Sharding loses nothing.  With a queue that is a bounded FIFO and a handler that returns, for every
  interleaving of submissions and shard turns after a start: stopping returns, and then each shard has
  handled exactly the accepted messages whose symbol is routed to it, in the order of their submission,
  starting from its own engine and undisturbed by the other shards; its queue is empty, its thread has
  ended, and its drop counter is the number of messages it refused.\<close>

theorem shards_handle_all:
  assumes "shard_members holds push pop room on_message good" "ms_reach push pop on_message n ms s"
    "0 < n" "length (ms_shards ms) = unat n"
    "\<And>i. i < unat n \<Longrightarrow> holds (sh_queue (ms_shards ms ! i)) [] \<and> good (sh_engine (ms_shards ms ! i)) \<and>
       sh_msgs_processed (ms_shards ms ! i) = 0 \<and> sh_msgs_dropped (ms_shards ms ! i) = 0"
  shows "\<exists>ms'. ms_stop pop on_message (mr_engine s) = Some ms' \<and> length (ms_shards ms') = unat n \<and>
     (\<forall>i < unat n. handle_all on_message (routed n i (mr_accepted s)) (sh_engine (ms_shards ms ! i)) = Some (sh_engine (ms_shards ms' ! i)) \<and>
        holds (sh_queue (ms_shards ms' ! i)) [] \<and> \<not> sh_thread (ms_shards ms' ! i) \<and> \<not> sh_running (ms_shards ms' ! i) \<and>
        sh_msgs_dropped (ms_shards ms' ! i) = of_nat (length (routed n i (mr_refused s))))"
  by (rule shard_members.shards_complete [OF assms])

text \<open>Two shards, one order for symbol 7 submitted: stopping leaves it handled by shard 1 only.\<close>

theorem shards_handle_all_witness:
  "\<exists>s ms'. ms_reach (spsc_try_push me_kQueueDepth) (spsc_try_pop me_kQueueDepth) process_message 2
       (new_multi 2 None (\<lambda>_. new_engine blank_in blank_out) (\<lambda>_. blank_in)) s \<and> mr_accepted s = [sample_msg 3 Sell 100 10] \<and>
     ms_stop (spsc_try_pop me_kQueueDepth) process_message (mr_engine s) = Some ms' \<and>
     sh_engine (ms_shards ms' ! 0) = new_engine blank_in blank_out \<and>
     process_message (sample_msg 3 Sell 100 10) (new_engine blank_in blank_out) = Some (sh_engine (ms_shards ms' ! 1))"
proof -
  let ?m = "sample_msg 3 Sell 100 10" and ?ms = "new_multi 2 None (\<lambda>_. new_engine blank_in blank_out) (\<lambda>_. blank_in)"
  let ?push = "spsc_try_push me_kQueueDepth" and ?pop = "spsc_try_pop me_kQueueDepth"
  have r7: "shard_of 2 (m_symbol ?m) = 1" by (simp add: shard_of_def sample_msg_def)
  have start: "mr_engine (ms_boot ?ms) = ms_start ?ms" "mr_accepted (ms_boot ?ms) = []" by (simp_all add: ms_boot_def)
  have q1: "sh_queue (ms_shards (ms_start ?ms) ! 1) = spsc_init blank_in"
    by (simp add: ms_start_def new_multi_def new_shard_def)
  obtain q where "?push ?m (spsc_init blank_in) = (True, q)"
    using spsc.push_room [OF spsc_init_holds [OF valid_engine_depth], of ?m blank_in] cap_gt_1 [OF valid_engine_depth] by auto
  then obtain ms' where sub: "ms_submit ?push 2 ?m (mr_engine (ms_boot ?ms)) = (True, ms')"
    unfolding ms_submit_def r7 start Let_def q1 by simp
  let ?s = "(ms_boot ?ms)\<lparr>mr_engine := ms', mr_accepted := mr_accepted (ms_boot ?ms) @ (if True then [?m] else []),
     mr_refused := mr_refused (ms_boot ?ms) @ (if True then [] else [?m])\<rparr>"
  have reach: "ms_reach ?push ?pop process_message 2 ?ms ?s"
    by (rule ms_reach.step [OF ms_reach.boot ms_step.submits [OF sub]])
  have acc: "mr_accepted ?s = [?m]" using start by simp
  have "\<exists>ms'. ms_stop ?pop process_message (mr_engine ?s) = Some ms' \<and> length (ms_shards ms') = unat (2 :: u64) \<and>
     (\<forall>i < unat (2 :: u64). handle_all process_message (routed 2 i (mr_accepted ?s)) (sh_engine (ms_shards ?ms ! i)) = Some (sh_engine (ms_shards ms' ! i)) \<and>
        spsc_holds me_kQueueDepth (sh_queue (ms_shards ms' ! i)) [] \<and> \<not> sh_thread (ms_shards ms' ! i) \<and> \<not> sh_running (ms_shards ms' ! i) \<and>
        sh_msgs_dropped (ms_shards ms' ! i) = of_nat (length (routed 2 i (mr_refused ?s))))"
    by (rule shards_handle_all [OF shm.shard_members_axioms reach])
      (auto simp: new_multi_def new_shard_def spsc_init_holds valid_engine_depth engine_inv_def new_engine_def less_Suc_eq numeral_2_eq_2)
  then obtain ms2 where st: "ms_stop ?pop process_message (mr_engine ?s) = Some ms2"
    and eng: "\<And>i. i < 2 \<Longrightarrow> handle_all process_message (routed 2 i [?m]) (sh_engine (ms_shards ?ms ! i)) = Some (sh_engine (ms_shards ms2 ! i))"
    unfolding acc by auto
  have "routed 2 0 [?m] = []" "routed 2 1 [?m] = [?m]" by (simp_all add: routed_def r7)
  then have "handle_all process_message [] (sh_engine (ms_shards ?ms ! 0)) = Some (sh_engine (ms_shards ms2 ! 0))"
    "process_message ?m (sh_engine (ms_shards ?ms ! 1)) = Some (sh_engine (ms_shards ms2 ! 1))"
    using eng [of 0] eng [of 1] by (simp_all only: handle_all_one)
  then have "sh_engine (ms_shards ms2 ! 0) = new_engine blank_in blank_out"
    "process_message ?m (new_engine blank_in blank_out) = Some (sh_engine (ms_shards ms2 ! 1))"
    by (simp_all add: new_multi_def new_shard_def)
  then show ?thesis using reach acc st by blast
qed

text \<open>C36. Routing of a registered symbol.  Registration files the book in the shard of the hashed name,
  submission sends messages to the shard of the numeric id.  On a new engine registration succeeds for
  an id below 256 and puts one book in one shard; the shard that messages of the symbol reach has that book
  exactly when the two routings agree, and otherwise handling a message there changes nothing and
  reports nothing.\<close>

theorem registration_routing:
  assumes "0 < n" "unat sid < kMaxSymbols"
  shows "\<exists>ms. ms_register n name sid raw (new_multi n cfgs (\<lambda>i. new_engine (ins i) (outs i)) raws) = (True, ms) \<and>
     (\<forall>i < unat n. \<forall>j. me_books (sh_engine (ms_shards ms ! i)) j =
        (if i = home_shard n name \<and> j = unat sid then Some (new_book sid True raw) else None)) \<and>
     (home_shard n name \<noteq> shard_of n sid \<longrightarrow> (\<forall>msg. m_symbol msg = sid \<longrightarrow>
        process_message msg (sh_engine (ms_shards ms ! shard_of n sid)) = Some (sh_engine (ms_shards ms ! shard_of n sid))))"
proof -
  let ?m0 = "new_multi n cfgs (\<lambda>i. new_engine (ins i) (outs i)) raws" and ?h = "home_shard n name"
  have eng: "sh_engine (ms_shards ?m0 ! i) = new_engine (ins i) (outs i)" if "i < unat n" for i
    using that by (simp add: new_multi_def new_shard_def Let_def split: option.splits)
  have len: "length (ms_shards ?m0) = unat n" by (simp add: new_multi_def)
  have h: "?h < unat n" using home_shard_lt [OF assms(1)] .
  let ?ms = "?m0\<lparr>ms_shards := (ms_shards ?m0)[?h := (ms_shards ?m0 ! ?h)\<lparr>sh_engine := (new_engine (ins ?h) (outs ?h))\<lparr>
       me_books := (\<lambda>_. None)(unat sid := Some (new_book sid True raw))\<rparr>\<rparr>]\<rparr>"
  have reg: "ms_register n name sid raw ?m0 = (True, ?ms)"
    by (simp add: ms_register_def eng [OF h] register_new [OF assms(2)] Let_def)
  have books: "me_books (sh_engine (ms_shards ?ms ! i)) j = (if i = ?h \<and> j = unat sid then Some (new_book sid True raw) else None)"
    if "i < unat n" for i j
    using that eng [OF that] len by (cases "i = ?h") (simp_all add: new_engine_books)
  have "process_message msg (sh_engine (ms_shards ?ms ! shard_of n sid)) = Some (sh_engine (ms_shards ?ms ! shard_of n sid))"
    if "?h \<noteq> shard_of n sid" "m_symbol msg = sid" for msg
    using books [OF shard_of_lt [OF assms(1)], of sid "unat sid"] that
    by (simp add: process_message_def handle_message_def del: fun_upd_apply)
  then show ?thesis using reg books by blast
qed

text \<open>With four shards, \<^verbatim>\<open>AAPL\<close> registered under the id 0 is filed in shard 3 while its messages go to shard 0.\<close>

lemma fnv1a_AAPL: "fnv1a ''AAPL'' = 1489842955"
  by (simp add: fnv1a_def)

theorem registration_routing_witness:
  "\<exists>ms. ms_register 4 ''AAPL'' 0 blank_book (new_multi 4 None (\<lambda>_. new_engine blank_in blank_out) (\<lambda>_. blank_in)) = (True, ms) \<and>
     me_books (sh_engine (ms_shards ms ! 3)) 0 \<noteq> None \<and> me_books (sh_engine (ms_shards ms ! 0)) 0 = None \<and>
     (\<forall>msg. m_symbol msg = 0 \<longrightarrow> process_message msg (sh_engine (ms_shards ms ! 0)) = Some (sh_engine (ms_shards ms ! 0)))"
proof -
  have r: "home_shard 4 ''AAPL'' = 3" "shard_of 4 0 = 0" by (simp_all add: home_shard_def shard_of_def fnv1a_AAPL)
  obtain ms where ms: "ms_register 4 ''AAPL'' 0 blank_book (new_multi 4 None (\<lambda>_. new_engine blank_in blank_out) (\<lambda>_. blank_in)) = (True, ms)"
    and books: "\<And>i j. i < 4 \<Longrightarrow> me_books (sh_engine (ms_shards ms ! i)) j = (if i = 3 \<and> j = 0 then Some (new_book 0 True blank_book) else None)"
    and idle: "\<forall>msg. m_symbol msg = 0 \<longrightarrow> process_message msg (sh_engine (ms_shards ms ! 0)) = Some (sh_engine (ms_shards ms ! 0))"
    using registration_routing [of 4 0 "''AAPL''" blank_book None "\<lambda>_. blank_in" "\<lambda>_. blank_out" "\<lambda>_. blank_in", unfolded r]
    by (auto simp: kMaxSymbols_def)
  show ?thesis using ms books [of 3 0] books [of 0 0] idle by simp
qed

end
