(* ===== verification/Binary64.thy ===== *)
theory Binary64
  imports Prelude Complex_Main
begin

text \<open>
  The floating-point arithmetic of the sources.  A finite \<^verbatim>\<open>double\<close> is its value, a rational number; an operation
  rounds the exact result to the nearest value with 53 significant bits, ties to even, no finer than
  \<open>2 ^ -1074\<close>.  No expression of the sources comes near the largest \<^verbatim>\<open>double\<close>, so infinities do not arise, and divisions by
  zero are guarded.  GCC may fuse a product and a sum into one rounding; where the sources have such an expression the model
  takes whether it does as an argument.
\<close>

subsection \<open>Rounding\<close>

function ilog2 :: "int \<Rightarrow> int" where
  "ilog2 n = (if n < 2 then 0 else ilog2 (n div 2) + 1)"
  by pat_completeness auto
termination
  by (relation "measure nat") auto

declare ilog2.simps [simp del]

definition expo :: "rat \<Rightarrow> int" where
  "expo x = (case quotient_of \<bar>x\<bar> of (n, d) \<Rightarrow>
     let e = ilog2 n - ilog2 d in if \<bar>x\<bar> < 2 powi e then e - 1 else e)"

definition round_even :: "rat \<Rightarrow> int" where
  "round_even y = (let f = \<lfloor>y\<rfloor>; r = y - of_int f
     in if r < 1 / 2 \<or> (r = 1 / 2 \<and> even f) then f else f + 1)"

text \<open>The exponent of the last bit of a result of the size of \<open>x\<close>.\<close>

definition ulp_expo :: "rat \<Rightarrow> int" where
  "ulp_expo x = max (expo x - 52) (- 1074)"

definition rnd :: "rat \<Rightarrow> rat" where
  "rnd x = (if x = 0 then 0 else of_int (round_even (x / 2 powi ulp_expo x)) * 2 powi ulp_expo x)"

text \<open>Conversion to an integer type truncates.\<close>

definition trunc :: "rat \<Rightarrow> int" where
  "trunc x = (if x \<ge> 0 then \<lfloor>x\<rfloor> else \<lceil>x\<rceil>)"

lemma pow2_pos [simp]: "0 < (2 :: rat) powi e"
  by simp

lemma pow2_Suc: "(2 :: rat) powi (e + 1) = 2 * 2 powi e"
  by (simp add: power_int_add_1')

lemma pow2_le: "a \<le> b \<Longrightarrow> (2 :: rat) powi a \<le> 2 powi b"
  by (simp add: power_int_increasing)

lemma pow2_less: "(2 :: rat) powi a < 2 powi b \<longleftrightarrow> a < b"
  by (metis not_less pow2_le power_int_strict_increasing one_less_numeral_iff semiring_norm(76))

lemma ilog2_int: "0 < n \<Longrightarrow> 0 \<le> ilog2 n \<and> 2 ^ nat (ilog2 n) \<le> n \<and> n < 2 * 2 ^ nat (ilog2 n)"
proof (induction n rule: ilog2.induct)
  case (1 n)
  show ?case
  proof (cases "n < 2")
    case True
    then show ?thesis using "1.prems" by (simp add: ilog2.simps)
  next
    case False
    then have "0 \<le> ilog2 (n div 2)" "2 ^ nat (ilog2 (n div 2)) \<le> n div 2" "n div 2 < 2 * 2 ^ nat (ilog2 (n div 2))" using "1.IH" by auto
    then show ?thesis using False by (simp add: ilog2.simps [of n] nat_add_distrib) linarith
  qed
qed

lemma ilog2_bounds:
  assumes "0 < n"
  shows "2 powi ilog2 n \<le> rat_of_int n" "rat_of_int n < 2 * 2 powi ilog2 n"
proof -
  note I = ilog2_int [OF assms]
  then have eq: "(2 :: rat) powi ilog2 n = of_int (2 ^ nat (ilog2 n))" by (simp add: power_int_def)
  show "2 powi ilog2 n \<le> rat_of_int n" unfolding eq of_int_le_iff using I by blast
  have "rat_of_int n < of_int (2 * 2 ^ nat (ilog2 n))" unfolding of_int_less_iff using I by blast
  then show "rat_of_int n < 2 * 2 powi ilog2 n" unfolding eq by simp
qed

lemma expo_bounds:
  assumes "x \<noteq> 0"
  shows "2 powi expo x \<le> \<bar>x\<bar>" "\<bar>x\<bar> < 2 powi (expo x + 1)"
proof -
  obtain n d where q: "quotient_of \<bar>x\<bar> = (n, d)" by fastforce
  have x: "\<bar>x\<bar> = of_int n / of_int d" "0 < d" using quotient_of_div [OF q] quotient_of_denom_pos [OF q] by simp_all
  have n: "0 < n" using x assms by (metis abs_of_pos abs_of_nonneg divide_nonpos_pos of_int_0_less_iff of_int_le_0_iff not_less zero_less_abs_iff)
  let ?e = "ilog2 n - ilog2 d" and ?a = "(2 :: rat) powi ilog2 n" and ?b = "(2 :: rat) powi ilog2 d"
  have nr: "?a \<le> of_int n" "of_int n < 2 * ?a" "?b \<le> of_int d" "of_int d < 2 * ?b"
    using ilog2_bounds [OF n] ilog2_bounds [OF x(2)] by simp_all
  have e: "(2 :: rat) powi ?e = ?a / ?b" by (simp add: power_int_diff)
  have up: "\<bar>x\<bar> < 2 powi (?e + 1)"
  proof -
    have "of_int n / of_int d < (2 * ?a) / ?b" using nr x(2) n by (intro frac_less) auto
    then show ?thesis unfolding x(1) pow2_Suc e by simp
  qed
  have lo: "2 powi (?e - 1) \<le> \<bar>x\<bar>"
  proof -
    have "?a / (2 * ?b) \<le> of_int n / of_int d" using nr x(2) n by (intro frac_le) auto
    moreover have "(2 :: rat) powi (?e - 1) = ?a / (2 * ?b)" using pow2_Suc [of "?e - 1"] e by simp
    ultimately show ?thesis unfolding x(1) by simp
  qed
  show "2 powi expo x \<le> \<bar>x\<bar>" "\<bar>x\<bar> < 2 powi (expo x + 1)"
    using up lo by (auto simp: expo_def q Let_def)
qed

lemma expo_unique:
  assumes "2 powi e \<le> \<bar>x\<bar>" "\<bar>x\<bar> < 2 powi (e + 1)"
  shows "expo x = e"
proof -
  have "x \<noteq> 0" using assms(1) by (metis abs_zero not_less pow2_pos)
  from expo_bounds [OF this] have "2 powi e < (2 :: rat) powi (expo x + 1)" "(2 :: rat) powi expo x < 2 powi (e + 1)" using assms by linarith+
  then show ?thesis by (simp add: pow2_less)
qed

lemma round_even_bound: "\<bar>of_int (round_even y) - y\<bar> \<le> 1 / 2"
proof -
  have "of_int \<lfloor>y\<rfloor> \<le> y" "y < of_int \<lfloor>y\<rfloor> + 1" by linarith+
  moreover have "round_even y = \<lfloor>y\<rfloor> \<and> y - of_int \<lfloor>y\<rfloor> \<le> 1 / 2 \<or> round_even y = \<lfloor>y\<rfloor> + 1 \<and> 1 / 2 \<le> y - of_int \<lfloor>y\<rfloor>"
    by (simp add: round_even_def Let_def)
  ultimately show ?thesis by (auto simp: abs_le_iff)
qed

lemma round_even_near: "\<bar>y - of_int k\<bar> < 1 / 2 \<Longrightarrow> round_even y = k"
proof -
  assume "\<bar>y - of_int k\<bar> < 1 / 2"
  moreover note round_even_bound [of y]
  ultimately have "\<bar>of_int (round_even y) - of_int k\<bar> < (1 :: rat)" by linarith
  then show ?thesis by (metis of_int_diff of_int_abs of_int_less_1_iff zabs_less_one_iff right_minus_eq)
qed

lemma round_even_of_int [simp]: "round_even (of_int k) = k"
  by (rule round_even_near) simp

lemma rnd_error: "\<bar>rnd x - x\<bar> \<le> 2 powi ulp_expo x / 2"
proof (cases "x = 0")
  case False
  let ?u = "(2 :: rat) powi ulp_expo x"
  have "rnd x - x = (of_int (round_even (x / ?u)) - x / ?u) * ?u" using False by (simp add: rnd_def left_diff_distrib)
  then have "\<bar>rnd x - x\<bar> = \<bar>of_int (round_even (x / ?u)) - x / ?u\<bar> * ?u" by (simp add: abs_mult)
  also have "\<dots> \<le> 1 / 2 * ?u" using round_even_bound [of "x / ?u"] by (intro mult_right_mono) auto
  finally show ?thesis by simp
qed (simp add: rnd_def)

text \<open>The relative error of a normal result is at most \<open>2 ^ -53\<close>.\<close>

lemma rnd_relative:
  assumes "2 powi (- 1022) \<le> \<bar>x\<bar>"
  shows "\<bar>rnd x - x\<bar> \<le> \<bar>x\<bar> / 2 ^ 53"
proof -
  have x: "x \<noteq> 0" using assms by (metis abs_zero not_less pow2_pos)
  have "(2 :: rat) powi (- 1022) < 2 powi (expo x + 1)" using expo_bounds(2) [OF x] assms by linarith
  then have "- 1022 < expo x + 1" by (simp only: pow2_less)
  then have "ulp_expo x = expo x - 52" by (simp add: ulp_expo_def)
  then have "(2 :: rat) powi ulp_expo x = 2 powi expo x / 2 ^ 52" by (simp add: power_int_diff)
  then show ?thesis using rnd_error [of x] expo_bounds(1) [OF x] by simp
qed

text \<open>Values with 53 significant bits are exact.\<close>

lemma rnd_exact:
  assumes "x = of_int m * 2 powi e" "\<bar>m\<bar> < 2 ^ 53" "- 1074 \<le> e"
  shows "rnd x = x"
proof (cases "x = 0")
  case False
  define u where "u = ulp_expo x"
  have "\<bar>x\<bar> = of_int \<bar>m\<bar> * 2 powi e" unfolding assms(1) by (simp add: abs_mult)
  also have "\<dots> < 2 ^ 53 * 2 powi e" using assms(2) by (metis mult_less_cancel_right_pos of_int_less_iff of_int_numeral of_int_power pow2_pos)
  also have "\<dots> = 2 powi (e + 53)" by (simp add: power_int_add)
  finally have "2 powi expo x < (2 :: rat) powi (e + 53)" using expo_bounds(1) [OF False] by linarith
  then have "expo x < e + 53" by (simp only: pow2_less)
  then have "u \<le> e" using assms(3) by (simp add: u_def ulp_expo_def)
  then obtain k where k: "e = u + int k" by (metis zle_iff_zadd)
  have x: "x = of_int (m * 2 ^ k) * 2 powi u" unfolding assms(1) k by (simp add: power_int_add)
  then have "x / 2 powi u = of_int (m * 2 ^ k)" by simp
  then have re: "round_even (x / 2 powi u) = m * 2 ^ k" by (metis round_even_of_int)
  have "rnd x = of_int (round_even (x / 2 powi u)) * 2 powi u" using False by (simp add: rnd_def u_def)
  then show ?thesis unfolding re x [symmetric] .
qed (simp add: rnd_def)

lemma rnd_of_int: "\<bar>k\<bar> < 2 ^ 53 \<Longrightarrow> rnd (of_int k) = of_int k"
  by (rule rnd_exact [of _ k 0]) simp_all

lemma round_even_minus: "round_even (- y) = - round_even y"
proof (cases "y = of_int \<lfloor>y\<rfloor>")
  case True
  then show ?thesis by (metis of_int_minus round_even_of_int)
next
  case False
  then have "\<lfloor>- y\<rfloor> = - \<lfloor>y\<rfloor> - 1" by linarith
  then show ?thesis by (auto simp: round_even_def Let_def)
qed

lemma rnd_minus: "rnd (- x) = - rnd x"
  by (simp add: rnd_def ulp_expo_def expo_def round_even_minus)

lemma trunc_minus: "trunc (- x) = - trunc x"
  by (simp add: trunc_def ceiling_minus floor_minus)

text \<open>A bound that covers results of any size.\<close>

lemma rnd_bound: "\<bar>rnd x - x\<bar> \<le> \<bar>x\<bar> / 2 ^ 53 + 1 / 2 ^ 200"
proof (cases "2 powi (- 1022) \<le> \<bar>x\<bar>")
  case True
  then show ?thesis using rnd_relative by fastforce
next
  case small: False
  have "\<bar>rnd x - x\<bar> \<le> 1 / 2 ^ 200"
  proof (cases "x = 0")
    case False
    then have "(2 :: rat) powi expo x < 2 powi (- 1022)" using expo_bounds(1) [OF False] small by linarith
    then have "expo x < - 1022" by (simp only: pow2_less)
    then have "ulp_expo x \<le> - 199" by (simp add: ulp_expo_def)
    then have "(2 :: rat) powi ulp_expo x \<le> 2 powi (- 199)" by (rule pow2_le)
    then show ?thesis using rnd_error [of x] by simp
  qed (simp add: rnd_def)
  then show ?thesis by (metis abs_ge_zero add_increasing divide_nonneg_pos zero_less_numeral zero_less_power)
qed

lemma rnd_nonneg: "0 \<le> x \<Longrightarrow> 0 \<le> rnd x"
proof -
  assume "0 \<le> x"
  then have "0 \<le> round_even (x / 2 powi ulp_expo x)" by (simp add: round_even_def Let_def)
  then show ?thesis by (simp add: rnd_def)
qed

text \<open>Rounding and truncation keep the order.\<close>

lemma round_even_mono:
  assumes "a \<le> b"
  shows "round_even a \<le> round_even b"
proof (cases "\<lfloor>a\<rfloor> = \<lfloor>b\<rfloor>")
  case True
  then show ?thesis using assms by (auto simp: round_even_def Let_def)
next
  case False
  then have "\<lfloor>a\<rfloor> < \<lfloor>b\<rfloor>" using floor_mono [OF assms] by simp
  moreover have "round_even a \<le> \<lfloor>a\<rfloor> + 1" "\<lfloor>b\<rfloor> \<le> round_even b" by (simp_all add: round_even_def Let_def)
  ultimately show ?thesis by linarith
qed

lemma rnd_pos: "x \<noteq> 0 \<Longrightarrow> rnd x = of_int (round_even (x / 2 powi ulp_expo x)) * 2 powi ulp_expo x"
  by (simp add: rnd_def)

text \<open>A power of two on the grid of the result bounds it from either side.\<close>

lemma round_power:
  assumes "a \<le> e"
  shows "of_int (round_even (2 powi e / 2 powi a)) * 2 powi a = (2 :: rat) powi e"
proof -
  obtain k where k: "e = a + int k" using assms by (metis zle_iff_zadd)
  then have "2 powi e / 2 powi a = (of_int (2 ^ k) :: rat)" by (simp add: power_int_add)
  then have "round_even (2 powi e / 2 powi a) = 2 ^ k" by (metis round_even_of_int)
  then show ?thesis using k by (simp add: power_int_add)
qed

lemma rnd_mono_pos:
  assumes "0 < x" "x \<le> y"
  shows "rnd x \<le> rnd y"
proof -
  have y: "0 < y" "x \<noteq> 0" "y \<noteq> 0" using assms by linarith+
  let ?u = "ulp_expo x" and ?v = "ulp_expo y"
  note ex = expo_bounds [OF y(2)] and ey = expo_bounds [OF y(3)]
  have le: "expo x \<le> expo y"
  proof -
    have "2 powi expo x < (2 :: rat) powi (expo y + 1)" using ex(1) ey(2) assms y(1) by linarith
    then show ?thesis by (simp add: pow2_less)
  qed
  show ?thesis
  proof (cases "?u = ?v")
    case True
    have "x / 2 powi ?v \<le> y / 2 powi ?v" using assms(2) by (simp add: divide_right_mono)
    then have "of_int (round_even (x / 2 powi ?v)) \<le> (of_int (round_even (y / 2 powi ?v)) :: rat)" by (simp add: round_even_mono)
    then show ?thesis using True y by (simp add: rnd_pos)
  next
    case False
    let ?e = "expo y"
    have e: "expo x < ?e" "?u \<le> ?e" "?v \<le> ?e" using False le by (auto simp: ulp_expo_def max_def split: if_splits)
    have "x < 2 powi (expo x + 1)" using ex(2) assms(1) by linarith
    also have "\<dots> \<le> 2 powi ?e" using e(1) by (intro pow2_le) simp
    finally have "x / 2 powi ?u \<le> 2 powi ?e / 2 powi ?u" by (simp add: divide_right_mono)
    then have "of_int (round_even (x / 2 powi ?u)) * 2 powi ?u \<le> of_int (round_even (2 powi ?e / 2 powi ?u)) * (2 :: rat) powi ?u"
      by (intro mult_right_mono) (simp_all add: round_even_mono)
    moreover have "2 powi ?e / 2 powi ?v \<le> y / 2 powi ?v" using ey(1) y(1) by (simp add: divide_right_mono)
    then have "of_int (round_even (2 powi ?e / 2 powi ?v)) * 2 powi ?v \<le> of_int (round_even (y / 2 powi ?v)) * (2 :: rat) powi ?v"
      by (intro mult_right_mono) (simp_all add: round_even_mono)
    ultimately show ?thesis using y e by (simp add: rnd_pos round_power)
  qed
qed

lemma rnd_mono:
  assumes "x \<le> y"
  shows "rnd x \<le> rnd y"
proof -
  consider "0 < x" | "x \<le> 0" "0 \<le> y" | "y < 0" by linarith
  then show ?thesis
  proof cases
    case 1
    then show ?thesis using rnd_mono_pos assms by blast
  next
    case 2
    then show ?thesis using rnd_nonneg [of y] rnd_nonneg [of "- x"] by (simp add: rnd_minus)
  next
    case 3
    then show ?thesis using rnd_mono_pos [of "- y" "- x"] assms by (simp add: rnd_minus)
  qed
qed

lemma trunc_mono: "x \<le> y \<Longrightarrow> trunc x \<le> trunc y"
proof -
  assume "x \<le> y"
  then have "\<lfloor>x\<rfloor> \<le> \<lfloor>y\<rfloor>" "\<lceil>x\<rceil> \<le> \<lceil>y\<rceil>" by (simp_all add: floor_mono ceiling_mono)
  moreover have "\<lceil>x\<rceil> \<le> \<lfloor>y\<rfloor>" if "\<not> 0 \<le> x" "0 \<le> y"
  proof -
    have "\<lceil>x\<rceil> \<le> 0" "0 \<le> \<lfloor>y\<rfloor>" using that by simp_all
    then show ?thesis by linarith
  qed
  ultimately show ?thesis using \<open>x \<le> y\<close> by (auto simp: trunc_def)
qed

text \<open>Rounding to an integer nearby.\<close>

lemma rnd_near_int:
  assumes "2 powi e \<le> \<bar>x\<bar>" "\<bar>x\<bar> < 2 powi (e + 1)" "- 1000 \<le> e" "e \<le> 52" "\<bar>x - of_int p\<bar> < 2 powi (e - 52) / 2"
  shows "rnd x = of_int p"
proof -
  have x: "x \<noteq> 0" using assms(1) by (metis abs_zero not_less pow2_pos)
  have u: "ulp_expo x = e - 52" using expo_unique [OF assms(1,2)] assms(3) by (simp add: ulp_expo_def)
  obtain k where k: "52 - e = int k" using assms(4) by (metis zero_le_imp_eq_int diff_ge_0_iff_ge)
  have p: "of_int p = of_int (p * 2 ^ k) * (2 :: rat) powi (e - 52)"
  proof -
    have "(2 :: rat) ^ k * 2 powi (e - 52) = 2 powi (int k + (e - 52))" by (simp add: power_int_add)
    moreover have "int k + (e - 52) = 0" using k by simp
    ultimately show ?thesis by simp
  qed
  have "\<bar>x / 2 powi (e - 52) - of_int (p * 2 ^ k)\<bar> = \<bar>x - of_int p\<bar> / 2 powi (e - 52)"
  proof -
    have "x / 2 powi (e - 52) - of_int (p * 2 ^ k) = (x - of_int p) / 2 powi (e - 52)"
      by (subst p) (simp add: diff_divide_distrib)
    then show ?thesis by simp
  qed
  also have "\<dots> < 1 / 2" using assms(5) by (simp add: field_simps)
  finally have "round_even (x / 2 powi (e - 52)) = p * 2 ^ k" by (rule round_even_near)
  then show ?thesis using x u p by (simp add: rnd_def)
qed

subsection \<open>Dividing counters\<close>

text \<open>\<^verbatim>\<open>static_cast<double>(a) / b\<close> for \<^verbatim>\<open>uint64_t\<close> operands: both are rounded to \<^verbatim>\<open>double\<close> first.\<close>

definition fdiv_u64 :: "u64 \<Rightarrow> u64 \<Rightarrow> rat" where
  "fdiv_u64 a b = rnd (rnd (of_int (uint a)) / rnd (of_int (uint b)))"

lemma rnd_u64: "\<bar>rnd (of_int (uint (w :: u64))) - of_int (uint w)\<bar> \<le> of_int (uint w) / 2 ^ 53"
proof (cases "w = 0")
  case False
  then have "1 \<le> uint w" using uint_ge_0 [of w] uint_0_iff [of w] by linarith
  then have "1 \<le> (of_int (uint w) :: rat)" by (simp only: of_int_1_le_iff)
  moreover have "(2 :: rat) powi (- 1022) \<le> 2 powi 0" by (rule pow2_le) simp
  ultimately have le: "2 powi (- 1022) \<le> \<bar>of_int (uint w) :: rat\<bar>" by simp
  have "\<bar>of_int (uint w) :: rat\<bar> = of_int (uint w)" by (simp del: of_int_uint)
  with rnd_relative [OF le] show ?thesis by (simp only:)
qed (simp add: rnd_def)

lemma quotient_error:
  fixes S T s t :: rat
  assumes "0 \<le> S" "0 < T" "\<bar>s - S\<bar> \<le> S / 2 ^ 53" "\<bar>t - T\<bar> \<le> T / 2 ^ 53"
  shows "\<bar>s / t - S / T\<bar> \<le> S / T * (5 / 2 / 2 ^ 53)"
proof -
  have "T / 2 ^ 53 \<le> T / 5" using assms(2) by simp
  then have t: "T * (4 / 5) \<le> t" using assms(4) by linarith
  then have tp: "0 < t" using assms(2) by linarith
  have "\<bar>s - S\<bar> * T \<le> S / 2 ^ 53 * T" using assms(2,3) by (intro mult_right_mono) auto
  moreover have "S * \<bar>T - t\<bar> \<le> S * (T / 2 ^ 53)" using assms(1,4) by (intro mult_left_mono) (auto simp: abs_minus_commute)
  ultimately have "\<bar>(s - S) * T\<bar> \<le> S / 2 ^ 53 * T" "\<bar>S * (T - t)\<bar> \<le> S * (T / 2 ^ 53)"
    using assms(1,2) by (simp_all add: abs_mult)
  then have num: "\<bar>(s - S) * T + S * (T - t)\<bar> \<le> 2 * (S * T) / 2 ^ 53"
    by (intro order_trans [OF abs_triangle_ineq]) simp
  have "s / t - S / T = ((s - S) * T + S * (T - t)) / (t * T)" using tp assms(2) by (simp add: field_simps)
  then have "\<bar>s / t - S / T\<bar> = \<bar>(s - S) * T + S * (T - t)\<bar> / (t * T)" using tp assms(2) by (simp add: abs_mult)
  also have "\<dots> \<le> (2 * (S * T) / 2 ^ 53) / (T * (4 / 5) * T)"
    using num t tp assms(1,2) by (intro frac_le) (auto intro: mult_right_mono)
  also have "\<dots> = S / T * (5 / 2 / 2 ^ 53)" using assms(2) by (simp add: field_simps)
  finally show ?thesis .
qed

lemma fdiv_near:
  assumes "b \<noteq> 0"
  shows "\<bar>fdiv_u64 a b - of_int (uint a) / of_int (uint b)\<bar> \<le> of_int (uint a) / of_int (uint b) / 2 ^ 51 + 1 / 2 ^ 200"
proof -
  let ?S = "of_int (uint a) :: rat" and ?T = "of_int (uint b) :: rat"
  have "0 < uint b" using assms uint_ge_0 [of b] uint_0_iff [of b] by linarith
  then have T: "0 < ?T" by (simp only: of_int_0_less_iff)
  have S: "0 \<le> ?S" by (simp only: of_int_0_le_iff uint_ge_0)
  have q: "\<bar>rnd ?S / rnd ?T - ?S / ?T\<bar> \<le> ?S / ?T * (5 / 2 / 2 ^ 53)"
    using T S by (intro quotient_error rnd_u64)
  have "0 \<le> ?S / ?T" using S T by (rule divide_nonneg_pos)
  moreover have "\<bar>fdiv_u64 a b - rnd ?S / rnd ?T\<bar> \<le> \<bar>rnd ?S / rnd ?T\<bar> / 2 ^ 53 + 1 / 2 ^ 200" unfolding fdiv_u64_def by (rule rnd_bound)
  moreover have "\<bar>rnd ?S / rnd ?T\<bar> \<le> ?S / ?T * (1 + 5 / 2 / 2 ^ 53)"
  proof -
    have "?S / ?T * (1 + 5 / 2 / 2 ^ 53) = ?S / ?T + ?S / ?T * (5 / 2 / 2 ^ 53)" by (simp only: distrib_left mult_1_right)
    then show ?thesis using q \<open>0 \<le> ?S / ?T\<close> by linarith
  qed
  ultimately show ?thesis using q by (simp add: abs_le_iff)
qed

end
