(* ===== verification/Price_Conversion.thy ===== *)
theory Price_Conversion
  imports Binary64 Byte_Codec
begin

text \<open>
  \<^verbatim>\<open>to_price\<close> and \<^verbatim>\<open>from_price\<close> (\<^verbatim>\<open>core/types.hpp\<close>): prices are integers in millionths, and these functions convert from
  and to \<^verbatim>\<open>double\<close>.  The cast truncates towards zero; outside the range of \<^verbatim>\<open>int64_t\<close> it is undefined, which is \<open>None\<close>.
\<close>

definition to_price :: "rat \<Rightarrow> Price option" where
  "to_price d = (let i = trunc (rnd (d * 1000000)) in if in_int64 i then Some i else None)"

definition from_price :: "Price \<Rightarrow> rat" where
  "from_price p = rnd (rnd (of_int p) / 1000000)"

lemma to_price_minus: "in_int64 (trunc (rnd (d * 1000000))) \<Longrightarrow> trunc (rnd (d * 1000000)) \<noteq> - (2 ^ 63) \<Longrightarrow>
    to_price (- d) = map_option uminus (to_price d)"
  by (simp add: to_price_def rnd_minus trunc_minus Let_def in_int64_def)

lemma from_price_minus: "from_price (- p) = - from_price p"
  by (simp add: from_price_def rnd_minus)

text \<open>Both conversions keep the order of prices.\<close>

lemma from_price_mono: "p \<le> q \<Longrightarrow> from_price p \<le> from_price q"
  by (simp add: from_price_def rnd_mono divide_right_mono)

lemma to_price_mono: "d \<le> e \<Longrightarrow> to_price d = Some p \<Longrightarrow> to_price e = Some q \<Longrightarrow> p \<le> q"
proof -
  assume "d \<le> e" "to_price d = Some p" "to_price e = Some q"
  then have "p = trunc (rnd (d * 1000000))" "q = trunc (rnd (e * 1000000))" "d * 1000000 \<le> e * 1000000"
    by (auto simp: to_price_def Let_def split: if_splits)
  then show ?thesis by (simp add: trunc_mono rnd_mono)
qed

text \<open>Near an integer, truncation gives it or the one closer to zero.\<close>

lemma trunc_near:
  assumes "0 < p" "\<bar>y - of_int p\<bar> < 1"
  shows "trunc y = p \<or> trunc y = p - 1"
proof -
  have "of_int p - 1 < y" "y < of_int p + 1" using assms(2) by linarith+
  moreover have "1 \<le> (of_int p :: rat)" using assms(1) by simp
  ultimately have "0 \<le> y" "\<lfloor>y\<rfloor> = p \<or> \<lfloor>y\<rfloor> = p - 1" by linarith+
  then show ?thesis by (simp add: trunc_def)
qed

lemma price_bounds:
  assumes "0 < p" "p < 2 ^ 51"
  shows "1 \<le> (of_int p :: rat)" "(of_int p :: rat) < 2 ^ 51"
proof -
  have "of_int p < (of_int (2 ^ 51) :: rat)" using assms(2) by (simp only: of_int_less_iff)
  then show "(of_int p :: rat) < 2 ^ 51" by simp
qed (use assms in simp)

lemma to_price_near:
  assumes "0 < p" "p < 2 ^ 51" "\<bar>d * 1000000 - of_int p\<bar> \<le> 1 / 2"
  shows "to_price d = Some p \<or> to_price d = Some (p - 1)"
proof -
  let ?x = "d * 1000000"
  have "\<bar>rnd ?x - ?x\<bar> \<le> \<bar>?x\<bar> / 2 ^ 53 + 1 / 2 ^ 200" by (rule rnd_bound)
  moreover have "\<bar>?x\<bar> \<le> of_int p + 1 / 2" using assms(3) price_bounds [OF assms(1,2)] by linarith
  then have "\<bar>?x\<bar> / 2 ^ 53 + 1 / 2 ^ 200 < 1 / 2" using price_bounds [OF assms(1,2)] by simp
  ultimately have "\<bar>rnd ?x - of_int p\<bar> < 1" using assms(3) by linarith
  then have "trunc (rnd ?x) = p \<or> trunc (rnd ?x) = p - 1" by (rule trunc_near [OF assms(1)])
  then show ?thesis using assms(1,2) by (auto simp: to_price_def in_int64_def Let_def)
qed

text \<open>The round trip of a positive price: at most one unit is lost.\<close>

lemma from_price_error:
  assumes "0 < p" "p < 2 ^ 51"
  shows "\<bar>from_price p * 1000000 - of_int p\<bar> \<le> 1 / 2"
proof -
  let ?q = "of_int p / 1000000 :: rat"
  note p = price_bounds [OF assms]
  have "rnd (of_int p) = of_int p" using assms by (intro rnd_of_int) simp
  then have "\<bar>from_price p - ?q\<bar> \<le> \<bar>?q\<bar> / 2 ^ 53 + 1 / 2 ^ 200" using rnd_bound [of ?q] by (simp add: from_price_def)
  then have "\<bar>from_price p - ?q\<bar> \<le> 1 / 2000000" using p by simp
  then show ?thesis by linarith
qed

lemma roundtrip_loses_one:
  "0 < p \<Longrightarrow> p < 2 ^ 51 \<Longrightarrow> to_price (from_price p) = Some p \<or> to_price (from_price p) = Some (p - 1)"
  using to_price_near from_price_error by blast

text \<open>Where the quotient has its leading bit in the upper part, nothing is lost: the error of the division stays below half a
  unit in the last place of the product.\<close>

lemma roundtrip_exact:
  assumes "k \<le> 30" "2 ^ k * 1048576 < p" "p < 2 ^ k * 2000000"
  shows "to_price (from_price p) = Some p"
proof -
  let ?q = "of_int p / 1000000 :: rat" and ?x = "from_price p * 1000000"
  have k: "(2 :: int) ^ k \<le> 2 ^ 30" "(1 :: rat) \<le> 2 ^ k" "(2 :: rat) ^ k \<le> 2 ^ 30"
    using power_increasing [OF assms(1), of "2 :: int"] power_increasing [OF assms(1), of "2 :: rat"] by simp_all
  then have p: "0 < p" "p < 2 ^ 51" using assms by auto
  have pr: "2 ^ k * 1048576 + 1 \<le> (of_int p :: rat)" "(of_int p :: rat) < 2 ^ k * 2000000"
  proof -
    have "2 ^ k * 1048576 + 1 \<le> p" using assms(2) by simp
    then have "of_int (2 ^ k * 1048576 + 1) \<le> (of_int p :: rat)" by (simp only: of_int_le_iff)
    then show "2 ^ k * 1048576 + 1 \<le> (of_int p :: rat)" by simp
    have "of_int p < (of_int (2 ^ k * 2000000) :: rat)" using assms(3) by (simp only: of_int_less_iff)
    then show "(of_int p :: rat) < 2 ^ k * 2000000" by simp
  qed
  have d: "from_price p = rnd ?q" using p by (simp add: from_price_def rnd_of_int)
  have "expo ?q = int k"
    using pr k(2) by (intro expo_unique) (simp_all add: abs_if field_simps power_int_add)
  then have "ulp_expo ?q = int k - 52" by (simp add: ulp_expo_def)
  then have "\<bar>from_price p - ?q\<bar> \<le> 2 ^ k / 2 ^ 53" using rnd_error [of ?q] d by (simp add: power_int_diff)
  then have x: "\<bar>?x - of_int p\<bar> \<le> 1000000 * 2 ^ k / 2 ^ 53" by (simp add: abs_if field_simps split: if_splits)
  have "rnd ?x = of_int p"
  proof (rule rnd_near_int [of "int k + 20"])
    show "2 powi (int k + 20) \<le> \<bar>?x\<bar>" "\<bar>?x\<bar> < 2 powi (int k + 20 + 1)"
      using x pr k(2,3) by (simp_all add: power_int_add abs_if field_simps split: if_splits)
    show "\<bar>?x - of_int p\<bar> < 2 powi (int k + 20 - 52) / 2"
      using x by (simp add: power_int_diff power_int_add) (use k(2) in linarith)
  qed (use assms(1) in simp_all)
  then show ?thesis using p by (simp add: to_price_def trunc_def in_int64_def)
qed

subsection \<open>Prices computed from a base and a multiple\<close>

text \<open>Results of moderate size are off by less than \<open>10 ^ -12\<close>.\<close>

lemma rnd_small: "\<bar>x\<bar> \<le> 1000 \<Longrightarrow> \<bar>rnd x - x\<bar> \<le> 1 / 10 ^ 12"
  using rnd_bound [of x] by simp

text \<open>\<^verbatim>\<open>a + k * c\<close> for an integer \<^verbatim>\<open>k\<close>: the product is rounded, or fused into the sum where the compiler contracts the two.\<close>

definition mul_add :: "bool \<Rightarrow> rat \<Rightarrow> int \<Rightarrow> rat \<Rightarrow> rat" where
  "mul_add fused a k c = (let x = rnd (of_int k) * c in rnd (a + (if fused then x else rnd x)))"

lemma mul_add_near:
  assumes "\<bar>a\<bar> \<le> 500" "\<bar>k\<bar> \<le> 1000" "\<bar>c\<bar> \<le> 1 / 10"
  shows "\<bar>mul_add fused a k (rnd c) - (a + of_int k * c)\<bar> \<le> 1 / 10 ^ 8"
proof -
  let ?k = "of_int k :: rat" and ?x = "of_int k * rnd c :: rat"
  have "of_int \<bar>k\<bar> \<le> (of_int 1000 :: rat)" using assms(2) by (simp only: of_int_le_iff)
  then have k: "\<bar>?k\<bar> \<le> 1000" by simp
  have ek: "rnd ?k = ?k" using assms(2) by (intro rnd_of_int) simp
  have c: "\<bar>rnd c - c\<bar> \<le> 1 / 10 ^ 12" using assms(3) by (intro rnd_small) linarith
  have "\<bar>?x - ?k * c\<bar> = \<bar>?k\<bar> * \<bar>rnd c - c\<bar>" by (simp only: abs_mult right_diff_distrib [symmetric])
  also have "\<dots> \<le> 1000 * (1 / 10 ^ 12)" using k c by (intro mult_mono) auto
  finally have e: "\<bar>?x - ?k * c\<bar> \<le> 1 / 1000000000" by simp
  have "\<bar>?k * c\<bar> \<le> 1000 * (1 / 10)" unfolding abs_mult using k assms(3) by (intro mult_mono) auto
  then have x: "\<bar>?x\<bar> \<le> 101" using e by linarith
  then have r: "\<bar>rnd ?x - ?x\<bar> \<le> 1 / 1000000000000" using rnd_small [of ?x] by simp
  have near: "\<bar>rnd (a + y) - (a + ?k * c)\<bar> \<le> 1 / 10 ^ 8" if "\<bar>y - ?x\<bar> \<le> 1 / 1000000000000" for y
  proof -
    have "\<bar>a + y\<bar> \<le> 1000" using that x assms(1) by linarith
    then have "\<bar>rnd (a + y) - (a + y)\<bar> \<le> 1 / 1000000000000" using rnd_small [of "a + y"] by simp
    then have "\<bar>rnd (a + y) - (a + ?k * c)\<bar> \<le> 1 / 100000000" using that e by linarith
    then show ?thesis by simp
  qed
  show ?thesis using near [of ?x] near [of "rnd ?x"] r by (simp add: mul_add_def ek Let_def)
qed

lemma to_price_ticks:
  assumes "\<bar>d - of_int t / 1000000\<bar> \<le> 1 / 10 ^ 7" "0 < t" "t < 2 ^ 51"
  shows "to_price d = Some t \<or> to_price d = Some (t - 1)"
proof (rule to_price_near [OF assms(2,3)])
  have "\<bar>d - of_int t / 1000000\<bar> \<le> 1 / 10000000" using assms(1) by simp
  then show "\<bar>d * 1000000 - of_int t\<bar> \<le> 1 / 2" by linarith
qed

text \<open>Truncation shows in sums that should be whole cents: \<^verbatim>\<open>100.1 + (0.01 - 0.10)\<close> is converted to 100.009999.\<close>

lemma cent_sum_fused: "to_price (rnd (rnd (1001 / 10) + mul_add True (- rnd (1 / 10)) 1 (rnd (1 / 100)))) = Some 100009999"
  by code_simp

lemma cent_sum_rounded: "to_price (rnd (rnd (1001 / 10) + mul_add False (- rnd (1 / 10)) 1 (rnd (1 / 100)))) = Some 100009999"
  by code_simp

text \<open>The same for either sign.\<close>

lemma roundtrip_pos:
  assumes "0 < p" "p < 2 ^ 51"
  shows "\<exists>q. to_price (from_price p) = Some q \<and> 0 \<le> q \<and> q \<le> p \<and> p - 1 \<le> q \<and>
     (\<forall>k \<le> 30. 2 ^ k * 1048576 < p \<and> p < 2 ^ k * 2000000 \<longrightarrow> q = p)"
  using roundtrip_loses_one [OF assms] roundtrip_exact [of _ p] assms by fastforce

lemma roundtrip_signed:
  assumes "\<bar>p\<bar> < 2 ^ 51"
  shows "\<exists>q. to_price (from_price p) = Some q \<and> \<bar>q\<bar> \<le> \<bar>p\<bar> \<and> \<bar>q - p\<bar> \<le> 1 \<and>
     (\<forall>k \<le> 30. 2 ^ k * 1048576 < \<bar>p\<bar> \<and> \<bar>p\<bar> < 2 ^ k * 2000000 \<longrightarrow> q = p)"
proof -
  consider "p = 0" | "0 < p" | "p < 0" by linarith
  then show ?thesis
  proof cases
    case 1
    then show ?thesis by (auto simp: to_price_def from_price_def rnd_def trunc_def in_int64_def)
  next
    case 2
    then show ?thesis using roundtrip_pos [of p] assms by auto
  next
    case 3
    then obtain q where q: "to_price (from_price (- p)) = Some q" "0 \<le> q" "q \<le> - p" "- p - 1 \<le> q"
      "\<forall>k \<le> 30. 2 ^ k * 1048576 < - p \<and> - p < 2 ^ k * 2000000 \<longrightarrow> q = - p" using roundtrip_pos [of "- p"] assms by auto
    have i: "trunc (rnd (from_price (- p) * 1000000)) = q" "in_int64 q"
      using q(1) by (auto simp: to_price_def Let_def split: if_splits)
    have "to_price (- from_price (- p)) = Some (- q)"
      using to_price_minus [of "from_price (- p)"] i q(1,2) by simp
    then have "to_price (from_price p) = Some (- q)" by (simp add: from_price_minus)
    then show ?thesis using q 3 by auto
  qed
qed

text \<open>C33. Price conversion.  Converting a price to \<^verbatim>\<open>double\<close> and back is always defined and never moves it away from zero; it loses
  at most one millionth; and it is exact when the price, in units, lies strictly between 1.048576 and 2 times a power of two up to
  \<open>2 ^ 30\<close>, as the prices around 100 do that the program trades.  It is not exact in general, since the conversion truncates
  where it would have to round.  Both conversions keep the order: a higher price never becomes a lower \<^verbatim>\<open>double\<close>, nor a higher
  \<^verbatim>\<open>double\<close> a lower price.\<close>

theorem price_roundtrip:
  assumes "\<bar>p\<bar> < 2 ^ 51"
  shows "(\<exists>q. to_price (from_price p) = Some q \<and> \<bar>q\<bar> \<le> \<bar>p\<bar> \<and> \<bar>q - p\<bar> \<le> 1 \<and>
     (\<forall>k \<le> 30. 2 ^ k * 1048576 < \<bar>p\<bar> \<and> \<bar>p\<bar> < 2 ^ k * 2000000 \<longrightarrow> q = p) \<and>
     (\<forall>d q'. to_price d = Some q' \<and> d \<le> from_price p \<longrightarrow> q' \<le> q)) \<and>
     (\<forall>p'. p \<le> p' \<longrightarrow> from_price p \<le> from_price p')"
proof -
  obtain q where q: "to_price (from_price p) = Some q" "\<bar>q\<bar> \<le> \<bar>p\<bar> \<and> \<bar>q - p\<bar> \<le> 1 \<and>
     (\<forall>k \<le> 30. 2 ^ k * 1048576 < \<bar>p\<bar> \<and> \<bar>p\<bar> < 2 ^ k * 2000000 \<longrightarrow> q = p)" using roundtrip_signed [OF assms] by blast
  then show ?thesis using to_price_mono [OF _ _ q(1)] from_price_mono by blast
qed

lemma price_249: "to_price (from_price 249) = Some 248"
  by code_simp

theorem price_roundtrip_witness:
  "to_price (from_price 100010000) = Some 100010000 \<and> to_price (from_price 249) = Some 248 \<and> \<bar>248 - 249 :: int\<bar> \<le> 1"
proof -
  obtain q where "to_price (from_price 100010000) = Some q" "\<forall>k \<le> 30. 2 ^ k * 1048576 < \<bar>100010000 :: int\<bar> \<and> \<bar>100010000 :: int\<bar> < 2 ^ k * 2000000 \<longrightarrow> q = 100010000"
    using price_roundtrip [of 100010000] by auto
  then show ?thesis using price_249 by (auto dest: spec [of _ 6])
qed

end
