(* ===== verification/Simulation.thy ===== *)
theory Simulation
  imports Engine_Theorems Price_Conversion
begin

text \<open>
  The demo program (\<^verbatim>\<open>main.cpp\<close>): \<^verbatim>\<open>run_simulation\<close> feeds random orders to the engine while the main thread
  polls for reports.  The outputs of the random generator are an argument \<open>rng\<close>.  The loop takes the price function
  as an argument \<open>rand_price\<close>, of which \<open>demo_price\<close> is the one of the program.  The clock and the signal handler act at any time.
\<close>

subsection \<open>The order flow\<close>

record SimState =
  sim_msg :: MarketDataMsg
  sim_live_ids :: "OrderId list"
  sim_id_gen :: u64
  sim_draws :: nat

definition rand_qty :: "u64 \<Rightarrow> Qty" where
  "rand_qty r = ucast (100 * (1 + r mod 10))"

definition rand_side :: "u64 \<Rightarrow> Side" where
  "rand_side r = (if r mod 2 = 0 then Buy else Sell)"

text \<open>The price of a side and a draw, with or without contraction of the product and the difference in the jitter.\<close>

definition demo_price :: "bool \<Rightarrow> Side \<Rightarrow> u64 \<Rightarrow> Price option" where
  "demo_price fused s r = (
     let base = (if s = Buy then rnd (999 / 10) else rnd (1001 / 10));
         jitter = mul_add fused (- rnd (1 / 10)) (uint (r mod 20)) (rnd (1 / 100))
     in to_price (rnd (base + jitter)))"

definition sim_init :: SimState where
  "sim_init = \<lparr>sim_msg = \<lparr>m_seq = 0, m_order_id = 0, m_price = 0, m_qty = 0, m_symbol = 0, m_side = Buy,
     m_msg_type = NewOrder, m_order_type = Limit\<rparr>, sim_live_ids = [], sim_id_gen = 1, sim_draws = 0\<rparr>"

text \<open>One turn of the loop.  \<open>submit\<close> is the call on the engine.\<close>

definition sim_turn ::
  "(nat \<Rightarrow> u64) \<Rightarrow> (Side \<Rightarrow> u64 \<Rightarrow> Price) \<Rightarrow> (MarketDataMsg \<Rightarrow> 'e \<Rightarrow> bool \<times> 'e) \<Rightarrow> SimState \<Rightarrow> 'e \<Rightarrow> SimState \<times> 'e" where
  "sim_turn rng rand_price submit st env = (
     let k = sim_draws st; action = rng k mod 10; live = sim_live_ids st
     in if action < 6 \<or> live = [] then
          let s = rand_side (rng (k + 1));
              msg = (sim_msg st)\<lparr>m_msg_type := NewOrder, m_order_id := sim_id_gen st, m_side := s,
                m_price := rand_price s (rng (k + 2)), m_qty := rand_qty (rng (k + 3)), m_order_type := Limit\<rparr>;
              (ok, env') = submit msg env
          in (st\<lparr>sim_msg := msg, sim_live_ids := (if ok then live @ [m_order_id msg] else live),
                sim_id_gen := sim_id_gen st + 1, sim_draws := k + 4\<rparr>, env')
        else if action < 8 \<and> live \<noteq> [] then
          let idx = unat (rng (k + 1) mod of_nat (length live));
              msg = (sim_msg st)\<lparr>m_msg_type := CancelOrder, m_order_id := live ! idx\<rparr>;
              (ok, env') = submit msg env
          in (st\<lparr>sim_msg := msg, sim_live_ids := (if ok then take idx live @ drop (idx + 1) live else live),
                sim_draws := k + 2\<rparr>, env')
        else
          let s = rand_side (rng (k + 1));
              msg = (sim_msg st)\<lparr>m_msg_type := NewOrder, m_order_id := sim_id_gen st, m_side := s,
                m_price := 0, m_qty := rand_qty (rng (k + 2)), m_order_type := Market\<rparr>;
              (ok, env') = submit msg env
          in (st\<lparr>sim_msg := msg, sim_id_gen := sim_id_gen st + 1, sim_draws := k + 3\<rparr>, env'))"

definition run_submit :: "MarketDataMsg \<Rightarrow> EngineRun \<Rightarrow> bool \<times> EngineRun" where
  "run_submit msg s = (let (ok, me) = engine_submit msg (er_engine s)
     in (ok, s\<lparr>er_engine := me, er_accepted := er_accepted s @ (if ok then [msg] else [])\<rparr>))"

subsection \<open>The main thread\<close>

datatype MainPhase = Polling | Joining | DrainingReports | Stopped

text \<open>\<open>dm_joinable\<close>: the simulation thread has not been joined; \<open>dm_sim_done\<close>: its function has returned.\<close>

record Demo =
  dm_sim :: SimState
  dm_run :: EngineRun
  dm_fill_count :: u64
  dm_phase :: MainPhase
  dm_shutdown :: bool
  dm_sim_done :: bool
  dm_joinable :: bool

text \<open>One \<^verbatim>\<open>poll_report\<close> of the main thread, and whether it returned a report.\<close>

definition main_poll :: "Demo \<Rightarrow> bool \<times> Demo" where
  "main_poll d = (case poll_report (er_engine (dm_run d)) of
     (None, me) \<Rightarrow> (False, d\<lparr>dm_run := (dm_run d)\<lparr>er_engine := me\<rparr>\<rparr>)
   | (Some r, me) \<Rightarrow> (True, d\<lparr>dm_run := (dm_run d)\<lparr>er_engine := me, er_polled := er_polled (dm_run d) @ [r]\<rparr>,
       dm_fill_count := dm_fill_count d + 1\<rparr>))"

inductive demo_step :: "(nat \<Rightarrow> u64) \<Rightarrow> (Side \<Rightarrow> u64 \<Rightarrow> Price) \<Rightarrow> Demo \<Rightarrow> Demo \<Rightarrow> bool" for rng rand_price where
  simulate: "\<not> dm_sim_done d \<Longrightarrow> sim_turn rng rand_price run_submit (dm_sim d) (dm_run d) = (st, er) \<Longrightarrow>
     demo_step rng rand_price d (d\<lparr>dm_sim := st, dm_run := er\<rparr>)"
| sim_returns: "demo_step rng rand_price d (d\<lparr>dm_sim_done := True\<rparr>)"
| signal: "demo_step rng rand_price d (d\<lparr>dm_shutdown := True\<rparr>)"
| engine: "run_step (dm_run d) er \<Longrightarrow> er_accepted er = er_accepted (dm_run d) \<Longrightarrow> er_polled er = er_polled (dm_run d) \<Longrightarrow>
     demo_step rng rand_price d (d\<lparr>dm_run := er\<rparr>)"
| polls: "dm_phase d = Polling \<Longrightarrow> \<not> dm_shutdown d \<Longrightarrow> demo_step rng rand_price d (snd (main_poll d))"
| breaks: "dm_phase d = Polling \<Longrightarrow> \<not> dm_joinable d \<Longrightarrow> demo_step rng rand_price d (d\<lparr>dm_phase := Joining\<rparr>)"
| leaves: "dm_phase d = Polling \<Longrightarrow> dm_shutdown d \<Longrightarrow> demo_step rng rand_price d (d\<lparr>dm_phase := Joining\<rparr>)"
| joins: "dm_phase d = Joining \<Longrightarrow> dm_sim_done d \<Longrightarrow>
     demo_step rng rand_price d (d\<lparr>dm_phase := DrainingReports, dm_joinable := False\<rparr>)"
| drains: "dm_phase d = DrainingReports \<Longrightarrow> main_poll d = (True, d') \<Longrightarrow> demo_step rng rand_price d d'"
| stops: "dm_phase d = DrainingReports \<Longrightarrow> main_poll d = (False, d') \<Longrightarrow>
     demo_step rng rand_price d (d'\<lparr>dm_phase := Stopped, dm_run := (dm_run d')\<lparr>er_engine := engine_stop (er_engine (dm_run d'))\<rparr>\<rparr>)"

definition demo_start :: "OrderBook \<Rightarrow> MarketDataMsg SPSCQueue \<Rightarrow> ExecutionReport SPSCQueue \<Rightarrow> Demo" where
  "demo_start raw inq outq = \<lparr>dm_sim = sim_init, dm_run = run_start [0] raw inq outq, dm_fill_count = 0, dm_phase = Polling,
     dm_shutdown = False, dm_sim_done = False, dm_joinable = True\<rparr>"

inductive demo_reach :: "(nat \<Rightarrow> u64) \<Rightarrow> (Side \<Rightarrow> u64 \<Rightarrow> Price) \<Rightarrow> Demo \<Rightarrow> bool" for rng rand_price where
  start: "demo_reach rng rand_price (demo_start raw inq outq)"
| step: "demo_reach rng rand_price d \<Longrightarrow> demo_step rng rand_price d d' \<Longrightarrow> demo_reach rng rand_price d'"

subsection \<open>The prices of the order flow\<close>

text \<open>The price meant by the program: \<open>k\<close> cents above ten cents below the base of the side.\<close>

definition grid_price :: "Side \<Rightarrow> int \<Rightarrow> Price" where
  "grid_price s k = (if s = Buy then 99800000 else 100000000) + 10000 * k"

definition on_grid :: "Side \<Rightarrow> Price \<Rightarrow> bool" where
  "on_grid s p = (\<exists>k \<in> {0..19}. p = grid_price s k \<or> p = grid_price s k - 1)"

lemma demo_price_grid:
  "demo_price fused s r = Some (grid_price s (uint (r mod 20))) \<or> demo_price fused s r = Some (grid_price s (uint (r mod 20)) - 1)"
proof -
  let ?k = "uint (r mod 20)" and ?b = "if s = Buy then 999 / 10 else 1001 / 10 :: rat"
  have k: "0 \<le> ?k" "?k \<le> 19" using pos_mod_bound [of 20 "uint r"] by (auto simp: uint_mod)
  then have "of_int ?k \<le> (of_int 19 :: rat)" "of_int 0 \<le> (of_int ?k :: rat)" by (simp_all only: of_int_le_iff)
  then have kr: "0 \<le> (of_int ?k :: rat)" "(of_int ?k :: rat) \<le> 19" by simp_all
  have "grid_price s ?k = 99800000 + 10000 * ?k \<or> grid_price s ?k = 100000000 + 10000 * ?k" by (simp add: grid_price_def)
  then have t0: "0 < grid_price s ?k" "grid_price s ?k < 1000000000" using k by linarith+
  let ?j = "mul_add fused (- rnd (1 / 10)) ?k (rnd (1 / 100))"
  have t: "\<bar>rnd (1 / 10) - 1 / 10 :: rat\<bar> \<le> 1 / 1000000000000" using rnd_small [of "1 / 10"] by simp
  then have "\<bar>?j - (- rnd (1 / 10) + of_int ?k * (1 / 100))\<bar> \<le> 1 / 10 ^ 8"
    using k by (intro mul_add_near) (linarith, simp_all)
  then have j: "\<bar>?j - (- rnd (1 / 10) + of_int ?k / 100)\<bar> \<le> 1 / 100000000" by simp
  have b: "\<bar>rnd ?b - ?b\<bar> \<le> 1 / 1000000000000" using rnd_small [of ?b] by simp
  have "?b = 999 / 10 \<or> ?b = 1001 / 10" by simp
  then have "\<bar>rnd ?b + ?j\<bar> \<le> 1000" using b j t kr by linarith
  then have "\<bar>rnd (rnd ?b + ?j) - (rnd ?b + ?j)\<bar> \<le> 1 / 1000000000000" using rnd_small [of "rnd ?b + ?j"] by simp
  moreover have "of_int (grid_price s ?k) / 1000000 = ?b - 1 / 10 + of_int ?k / 100" by (simp add: grid_price_def)
  ultimately have "\<bar>rnd (rnd ?b + ?j) - of_int (grid_price s ?k) / 1000000\<bar> \<le> 1 / 10000000" using b j t by linarith
  then have "\<bar>rnd (rnd ?b + ?j) - of_int (grid_price s ?k) / 1000000\<bar> \<le> 1 / 10 ^ 7" by simp
  then have "to_price (rnd (rnd ?b + ?j)) = Some (grid_price s ?k) \<or> to_price (rnd (rnd ?b + ?j)) = Some (grid_price s ?k - 1)"
    using t0 by (intro to_price_ticks) simp_all
  then show ?thesis by (simp add: demo_price_def Let_def if_distrib [of rnd])
qed

lemma demo_price_on_grid: "\<exists>p. demo_price fused s r = Some p \<and> on_grid s p"
proof -
  have "uint (r mod 20) \<in> {0..19}" using pos_mod_bound [of 20 "uint r"] by (auto simp: uint_mod)
  then have "on_grid s (grid_price s (uint (r mod 20)))" "on_grid s (grid_price s (uint (r mod 20)) - 1)"
    unfolding on_grid_def by blast+
  then show ?thesis using demo_price_grid [of fused s r] by blast
qed

text \<open>Truncation shows: a sell order meant at 100.01 is sent at 100.009999.\<close>

lemma demo_price_off: "demo_price fused Sell 1 = Some 100009999"
  by (cases fused) (simp_all add: demo_price_def cent_sum_fused cent_sum_rounded Let_def)

text \<open>Every limit order in the feed is priced by the price function.\<close>

lemma sim_turn_prices:
  assumes "sim_turn rng rand_price run_submit st er = (st', er')" "m \<in> set (er_accepted er')" "m \<notin> set (er_accepted er)"
    "m_msg_type m = NewOrder" "m_order_type m = Limit"
  shows "\<exists>r. m_price m = rand_price (m_side m) r"
  using assms by (auto simp: sim_turn_def run_submit_def Let_def split: prod.splits if_splits)

lemma demo_step_prices:
  assumes "demo_step rng rand_price d d'" "m \<in> set (er_accepted (dm_run d'))" "m \<notin> set (er_accepted (dm_run d))"
    "m_msg_type m = NewOrder" "m_order_type m = Limit"
  shows "\<exists>r. m_price m = rand_price (m_side m) r"
  using assms(1)
proof cases
  case (simulate st er)
  then show ?thesis using sim_turn_prices [OF simulate(3)] assms by simp
qed (use assms in \<open>auto simp: main_poll_def split: option.splits prod.splits\<close>)

lemma demo_reach_prices:
  "demo_reach rng rand_price d \<Longrightarrow> m \<in> set (er_accepted (dm_run d)) \<Longrightarrow> m_msg_type m = NewOrder \<Longrightarrow> m_order_type m = Limit \<Longrightarrow>
     \<exists>r. m_price m = rand_price (m_side m) r"
proof (induction rule: demo_reach.induct)
  case (start raw inq outq)
  then show ?case by (simp add: demo_start_def run_start_def)
next
  case (step d d')
  then show ?case using demo_step_prices [OF step.hyps(2)] by blast
qed

subsection \<open>Distinct new ids are fresh\<close>

definition new_ids :: "MarketDataMsg list \<Rightarrow> OrderId list" where
  "new_ids ms = map m_order_id (filter (\<lambda>m. m_msg_type m = NewOrder) ms)"

lemma new_ids_simps [simp]: "new_ids [] = []" "new_ids (ms @ ms') = new_ids ms @ new_ids ms'"
  "new_ids (m # ms) = (if m_msg_type m = NewOrder then m_order_id m # new_ids ms else new_ids ms)"
  by (simp_all add: new_ids_def)

text \<open>Ids that rest in some book.\<close>

definition resting :: "RefEngine \<Rightarrow> OrderId \<Rightarrow> bool" where
  "resting re x = (\<exists>i rb. re_books re i = Some rb \<and> x \<in> set (ref_ids rb))"

lemma ref_message_resting:
  assumes "resting (fst (ref_message m re)) x" "m_msg_type m = NewOrder \<longrightarrow> m_order_id m \<noteq> 0"
  shows "resting re x \<or> (m_msg_type m = NewOrder \<and> x = m_order_id m)"
proof (cases "re_books re (unat (m_symbol m))")
  case None
  then show ?thesis using assms by (simp add: ref_message_def)
next
  case (Some rb)
  show ?thesis
  proof (cases "fst (msg_op m (re_next re))")
    case None
    then show ?thesis using assms Some by (simp add: ref_message_def split: prod.splits)
  next
    case op: (Some op)
    obtain ok rb' fs where r: "ref_step op rb = (ok, rb', fs)" by (metis prod_cases3)
    have new: "set (ref_ids rb') \<subseteq> set (ref_ids rb) \<union> (if m_msg_type m = NewOrder then {m_order_id m} else {})"
      using ref_step_ids [OF r] op assms(2) by (auto simp: msg_op_def msg_order_def split: MsgType.splits if_splits)
    obtain n where n: "msg_op m (re_next re) = (Some op, n)" using op by (metis prod.collapse)
    have "fst (ref_message m re) = \<lparr>re_books = (re_books re)(unat (m_symbol m) := Some rb'), re_next = n\<rparr>"
      using Some n r by (simp add: ref_message_def)
    then show ?thesis using assms(1) new Some by (fastforce simp: resting_def split: if_splits)
  qed
qed

lemma distinct_ids_fresh:
  "distinct (new_ids ms) \<Longrightarrow> 0 \<notin> set (new_ids ms) \<Longrightarrow> (\<And>x. resting re x \<Longrightarrow> x \<notin> set (new_ids ms)) \<Longrightarrow> msgs_fresh ms re"
proof (induction ms arbitrary: re)
  case (Cons m ms)
  have "\<not> resting re (m_order_id m)" if "m_msg_type m = NewOrder" using Cons.prems(3) that by auto
  then have "msg_fresh m re"
    using Cons.prems(2) by (auto simp: msg_fresh_def msg_op_def op_fresh_def msg_order_def resting_def split: option.splits MsgType.splits)
  moreover have "msgs_fresh ms (fst (ref_message m re))"
  proof (rule Cons.IH)
    show "x \<notin> set (new_ids ms)" if "resting (fst (ref_message m re)) x" for x
      using ref_message_resting [OF that] Cons.prems by (auto split: if_splits)
  qed (use Cons.prems in \<open>auto split: if_splits\<close>)
  ultimately show ?case by simp
qed simp

lemma boot_resting: "\<not> resting (ref_boot syms) x"
  by (auto simp: resting_def ref_boot_def ref_ids_def split: if_splits)

text \<open>An engine that was only given new orders with distinct ids is where the reference engine is.\<close>

lemma distinct_run_refines:
  assumes reach: "run_reach syms er" and ids: "distinct (new_ids (er_accepted er))" "0 \<notin> set (new_ids (er_accepted er))"
  shows "ref_messages (er_handled er) (ref_boot syms) = (abs_engine (er_engine er), map report_fill (er_emitted er))"
    "engine_inv True (er_engine er)"
proof -
  obtain xs ys where run: "run_inv syms er xs ys" using run_reach_inv [OF reach] by blast
  have "msgs_fresh (er_accepted er) (ref_boot syms)" using ids boot_resting by (intro distinct_ids_fresh) auto
  moreover have "er_handled er = take (length (er_handled er)) (er_accepted er)" using run by (simp add: run_inv_def Let_def)
  ultimately have "msgs_fresh (er_handled er) (ref_boot syms)" by (metis take_msgs_fresh)
  then show "ref_messages (er_handled er) (ref_boot syms) = (abs_engine (er_engine er), map report_fill (er_emitted er))"
    "engine_inv True (er_engine er)" using run by (simp_all add: run_inv_def Let_def)
qed

subsection \<open>Invariant of the demo\<close>

definition sim_inv :: "SimState \<Rightarrow> MarketDataMsg list \<Rightarrow> bool" where
  "sim_inv st acc = (1 \<le> unat (sim_id_gen st) \<and> unat (sim_id_gen st) \<le> sim_draws st + 1 \<and> length (sim_live_ids st) \<le> sim_draws st \<and>
     distinct (new_ids acc) \<and> (\<forall>x \<in> set (new_ids acc). 0 < unat x \<and> unat x < unat (sim_id_gen st)) \<and>
     set (sim_live_ids st) \<subseteq> set (new_ids acc) \<and> m_symbol (sim_msg st) = 0 \<and>
     (\<forall>m \<in> set acc. m_symbol m = 0 \<and> m_msg_type m \<in> {NewOrder, CancelOrder} \<and> m_order_id m \<in> set (new_ids acc)))"

definition demo_inv :: "Demo \<Rightarrow> bool" where
  "demo_inv d = (run_reach [0] (dm_run d) \<and> sim_inv (dm_sim d) (er_accepted (dm_run d)) \<and>
     dm_fill_count d = of_nat (length (er_polled (dm_run d))) \<and>
     (dm_phase d = Polling \<longrightarrow> dm_joinable d) \<and> (dm_phase d \<noteq> Polling \<longrightarrow> dm_shutdown d))"

lemma run_submit_step:
  assumes "run_submit m er = (ok, er')"
  shows "run_step er er'" "er_accepted er' = er_accepted er @ (if ok then [m] else [])" "er_polled er' = er_polled er"
proof -
  obtain b me where e: "engine_submit m (er_engine er) = (b, me)" by fastforce
  then have "er' = er\<lparr>er_engine := me, er_accepted := er_accepted er @ (if b then [m] else [])\<rparr>" "b = ok"
    using assms by (auto simp: run_submit_def)
  then show "run_step er er'" "er_accepted er' = er_accepted er @ (if ok then [m] else [])" "er_polled er' = er_polled er"
    using run_step.submit [OF e] by auto
qed

text \<open>A new order takes the next id; a cancellation names a live one.\<close>

lemma sim_inv_new:
  assumes inv: "sim_inv st acc" and small: "sim_draws st + k < 2 ^ 64" and k: "3 \<le> k"
    and m: "m_msg_type m = NewOrder" "m_order_id m = sim_id_gen st" "m_symbol m = 0"
    and live: "live = sim_live_ids st \<or> (ok \<and> live = sim_live_ids st @ [sim_id_gen st])"
  shows "sim_inv (st\<lparr>sim_msg := m, sim_live_ids := live, sim_id_gen := sim_id_gen st + 1, sim_draws := sim_draws st + k\<rparr>)
     (acc @ (if ok then [m] else []))"
proof -
  note I = inv [unfolded sim_inv_def]
  have "unat (sim_id_gen st + 1) = unat (sim_id_gen st) + 1"
    using I small k by (simp add: unat_word_ariths)
  then show ?thesis using I m live k unfolding sim_inv_def by (cases ok) (auto simp: less_Suc_eq)
qed

lemma sim_inv_cancel:
  assumes inv: "sim_inv st acc" and i: "i < length (sim_live_ids st)"
    and m: "m_msg_type m = CancelOrder" "m_order_id m = sim_live_ids st ! i" "m_symbol m = 0"
  shows "sim_inv (st\<lparr>sim_msg := m, sim_live_ids := (if ok then take i (sim_live_ids st) @ drop (i + 1) (sim_live_ids st) else sim_live_ids st),
     sim_draws := sim_draws st + 2\<rparr>) (acc @ (if ok then [m] else []))"
proof -
  note I = inv [unfolded sim_inv_def]
  have "m_order_id m \<in> set (new_ids acc)" using I i m(2) nth_mem [OF i] by auto
  moreover have "set (take i (sim_live_ids st) @ drop (i + 1) (sim_live_ids st)) \<subseteq> set (sim_live_ids st)"
    using set_take_subset set_drop_subset by fastforce
  ultimately show ?thesis using I m i unfolding sim_inv_def by (cases ok) auto
qed

lemma sim_turn_inv:
  assumes inv: "sim_inv st (er_accepted er)" and turn: "sim_turn rng rand_price run_submit st er = (st', er')"
    and small: "sim_draws st' < 2 ^ 64"
  shows "sim_inv st' (er_accepted er') \<and> run_step er er' \<and> er_polled er' = er_polled er"
proof -
  let ?k = "sim_draws st" and ?live = "sim_live_ids st"
  have sy: "m_symbol (sim_msg st) = 0" "length ?live \<le> ?k" using inv by (auto simp: sim_inv_def)
  consider "rng ?k mod 10 < 6 \<or> ?live = []" | "\<not> (rng ?k mod 10 < 6 \<or> ?live = [])" "rng ?k mod 10 < 8"
    | "\<not> (rng ?k mod 10 < 6 \<or> ?live = [])" "\<not> rng ?k mod 10 < 8" by blast
  then show ?thesis
  proof cases
    case 1
    let ?s = "rand_side (rng (?k + 1))"
    let ?m = "(sim_msg st)\<lparr>m_msg_type := NewOrder, m_order_id := sim_id_gen st, m_side := ?s,
       m_price := rand_price ?s (rng (?k + 2)), m_qty := rand_qty (rng (?k + 3)), m_order_type := Limit\<rparr>"
    obtain ok e where sub: "run_submit ?m er = (ok, e)" by fastforce
    have st: "er' = e" "st' = st\<lparr>sim_msg := ?m, sim_live_ids := (if ok then ?live @ [sim_id_gen st] else ?live),
        sim_id_gen := sim_id_gen st + 1, sim_draws := ?k + 4\<rparr>"
      using turn 1 sub by (auto simp: sim_turn_def Let_def)
    then have "?k + 4 < 2 ^ 64" using small by simp
    then show ?thesis using run_submit_step [OF sub] sim_inv_new [OF inv, of 4 ?m "if ok then ?live @ [sim_id_gen st] else ?live" ok] sy st
      by simp
  next
    case 2
    let ?i = "unat (rng (?k + 1) mod of_nat (length ?live))"
    let ?m = "(sim_msg st)\<lparr>m_msg_type := CancelOrder, m_order_id := ?live ! ?i\<rparr>"
    obtain ok e where sub: "run_submit ?m er = (ok, e)" by fastforce
    have st: "er' = e" "st' = st\<lparr>sim_msg := ?m, sim_live_ids := (if ok then take ?i ?live @ drop (?i + 1) ?live else ?live),
        sim_draws := ?k + 2\<rparr>"
      using turn 2 sub by (auto simp: sim_turn_def Let_def)
    then have "unat (of_nat (length ?live) :: u64) = length ?live" using small sy(2) by (intro unat_of_nat_small) simp
    then have "?i < length ?live" using 2(1) by (simp add: unat_mod)
    then show ?thesis using run_submit_step [OF sub] sim_inv_cancel [OF inv, of ?i ?m ok] sy st by simp
  next
    case 3
    let ?s = "rand_side (rng (?k + 1))"
    let ?m = "(sim_msg st)\<lparr>m_msg_type := NewOrder, m_order_id := sim_id_gen st, m_side := ?s,
       m_price := 0, m_qty := rand_qty (rng (?k + 2)), m_order_type := Market\<rparr>"
    obtain ok e where sub: "run_submit ?m er = (ok, e)" by fastforce
    have st: "er' = e" "st' = st\<lparr>sim_msg := ?m, sim_id_gen := sim_id_gen st + 1, sim_draws := ?k + 3\<rparr>"
      using turn 3 sub by (simp_all add: sim_turn_def Let_def)
    then have "?k + 3 < 2 ^ 64" using small by simp
    then show ?thesis using run_submit_step [OF sub] sim_inv_new [OF inv, of 3 ?m ?live ok] sy st by simp
  qed
qed

lemma main_poll_inv: "demo_inv d \<Longrightarrow> main_poll d = (b, d') \<Longrightarrow> demo_inv d' \<and> dm_phase d' = dm_phase d \<and> dm_joinable d' = dm_joinable d \<and>
   dm_shutdown d' = dm_shutdown d \<and> dm_sim d' = dm_sim d"
proof -
  assume inv: "demo_inv d" and p: "main_poll d = (b, d')"
  obtain r me where r: "poll_report (er_engine (dm_run d)) = (r, me)" by fastforce
  have "run_reach [0] ((dm_run d)\<lparr>er_engine := me, er_polled := er_polled (dm_run d) @ (case r of None \<Rightarrow> [] | Some x \<Rightarrow> [x])\<rparr>)"
    using inv run_step.poll [OF r] by (auto simp: demo_inv_def intro: run_reach.step)
  then show ?thesis using inv p r by (auto simp: main_poll_def demo_inv_def split: option.splits)
qed

lemma demo_step_draws: "demo_step rng rand_price d d' \<Longrightarrow> sim_draws (dm_sim d) \<le> sim_draws (dm_sim d')"
  by (cases rule: demo_step.cases)
    (auto simp: sim_turn_def main_poll_def Let_def split: prod.splits if_splits option.splits)

lemma demo_step_inv:
  assumes step: "demo_step rng rand_price d d'" and inv: "demo_inv d" and small: "sim_draws (dm_sim d') < 2 ^ 64"
  shows "demo_inv d'"
  using step
proof cases
  case (simulate st er)
  then show ?thesis using sim_turn_inv [of "dm_sim d" "dm_run d" rng rand_price st er] inv small
    by (auto simp: demo_inv_def intro: run_reach.step)
next
  case (engine er)
  then show ?thesis using inv by (auto simp: demo_inv_def intro: run_reach.step)
next
  case polls
  then show ?thesis using main_poll_inv [OF inv, of "fst (main_poll d)" "snd (main_poll d)"] by simp
next
  case drains
  then show ?thesis using main_poll_inv [OF inv] by blast
next
  case (stops d1)
  then have d1: "demo_inv d1" "dm_phase d1 = DrainingReports" using main_poll_inv [OF inv stops(3)] by simp_all
  then have "run_reach [0] ((dm_run d1)\<lparr>er_engine := engine_stop (er_engine (dm_run d1))\<rparr>)"
    by (auto simp: demo_inv_def intro: run_reach.step run_step.stop)
  then show ?thesis using d1 stops by (simp add: demo_inv_def)
qed (use inv in \<open>simp_all add: demo_inv_def\<close>)

lemma demo_reach_inv: "demo_reach rng rand_price d \<Longrightarrow> sim_draws (dm_sim d) < 2 ^ 64 \<Longrightarrow> demo_inv d"
proof (induction rule: demo_reach.induct)
  case (start raw inq outq)
  have "run_reach [0] (run_start [0] raw inq outq)" by (rule run_reach.start)
  then show ?case by (simp add: demo_inv_def demo_start_def sim_inv_def sim_init_def) (simp add: run_start_def)
next
  case (step d d')
  then show ?case using demo_step_inv demo_step_draws by fastforce
qed

text \<open>C38. The demo.  Whatever the generator, the clock, the signals and the scheduling do, as long as
  fewer than \<open>2 ^ 64\<close> numbers are drawn: the simulation never reuses an order id and cancels only orders
  it has submitted, so the engine's books and fills are those of the reference engine on the handled
  messages, with no assumption on the feed; the price of every limit order is on the grid of cents around the base of its side,
  or one millionth below a grid point; the fill counter is the number of reports received; and the
  main loop is left only after a signal: its check that the simulation has ended never holds.\<close>

theorem demo_correct:
  assumes "demo_reach rng (\<lambda>s r. the (demo_price fused s r)) d" "sim_draws (dm_sim d) < 2 ^ 64"
  shows "distinct (new_ids (er_accepted (dm_run d))) \<and>
     (\<forall>m \<in> set (er_accepted (dm_run d)). m_order_id m \<in> set (new_ids (er_accepted (dm_run d))) \<and>
        (m_msg_type m = NewOrder \<and> m_order_type m = Limit \<longrightarrow> on_grid (m_side m) (m_price m))) \<and>
     ref_messages (er_handled (dm_run d)) (ref_boot [0]) = (abs_engine (er_engine (dm_run d)), map report_fill (er_emitted (dm_run d))) \<and>
     engine_inv True (er_engine (dm_run d)) \<and> dm_fill_count d = of_nat (length (er_polled (dm_run d))) \<and>
     (dm_phase d \<noteq> Polling \<longrightarrow> dm_shutdown d)"
proof -
  let ?acc = "er_accepted (dm_run d)"
  have inv: "demo_inv d" using demo_reach_inv assms .
  then have sim: "sim_inv (dm_sim d) ?acc" and reach: "run_reach [0] (dm_run d)" by (simp_all add: demo_inv_def)
  have ids: "distinct (new_ids ?acc)" "\<forall>x \<in> set (new_ids ?acc). 0 < unat x" using sim by (auto simp: sim_inv_def)
  have "0 \<notin> set (new_ids ?acc)" using ids(2) by force
  note ref = distinct_run_refines [OF reach ids(1) this]
  have "on_grid (m_side m) (m_price m)" if "m \<in> set ?acc" "m_msg_type m = NewOrder" "m_order_type m = Limit" for m
    using demo_reach_prices [OF assms(1) that] demo_price_on_grid [of fused "m_side m"] by (metis option.sel)
  then show ?thesis using inv sim ref unfolding demo_inv_def sim_inv_def by blast
qed

theorem demo_correct_witness:
  "\<exists>d. demo_reach (\<lambda>_. 1) (\<lambda>s r. the (demo_price False s r)) d \<and> map m_price (er_accepted (dm_run d)) = [100009999] \<and>
     distinct (new_ids (er_accepted (dm_run d))) \<and> (\<forall>m \<in> set (er_accepted (dm_run d)). on_grid (m_side m) (m_price m)) \<and>
     dm_fill_count d = of_nat (length (er_polled (dm_run d)))"
proof -
  let ?d0 = "demo_start blank_book blank_in blank_out" and ?rng = "\<lambda>_ :: nat. 1 :: u64" and ?px = "\<lambda>s r. the (demo_price False s r)"
  let ?m = "(sim_msg sim_init)\<lparr>m_msg_type := NewOrder, m_order_id := 1, m_side := Sell, m_price := 100009999, m_qty := 200, m_order_type := Limit\<rparr>"
  let ?e = "er_engine (run_start [0] blank_book blank_in blank_out)"
  obtain q where "spsc_try_push me_kQueueDepth ?m (me_inbound ?e) = (True, q)"
    using spsc.push_room [OF run_start_ok(3), of ?m "[0]" blank_book blank_in blank_out] cap_gt_1 [OF valid_engine_depth] by auto
  then obtain er where sub: "run_submit ?m (run_start [0] blank_book blank_in blank_out) = (True, er)" by (simp add: run_submit_def engine_submit_def)
  have acc: "er_accepted er = [?m]" "er_polled er = []" using run_submit_step(2,3) [OF sub] by (simp_all add: run_start_def)
  obtain st where turn: "sim_turn ?rng ?px run_submit sim_init (run_start [0] blank_book blank_in blank_out) = (st, er)" and st: "sim_draws st = 4"
    using sub by (simp add: sim_turn_def Let_def sim_init_def rand_side_def rand_qty_def demo_price_off)
  have "demo_step ?rng ?px ?d0 (?d0\<lparr>dm_sim := st, dm_run := er\<rparr>)"
    using turn by (intro demo_step.simulate) (simp_all add: demo_start_def)
  then have reach: "demo_reach ?rng ?px (?d0\<lparr>dm_sim := st, dm_run := er\<rparr>)" by (rule demo_reach.step [OF demo_reach.start])
  from demo_correct [OF reach] show ?thesis using reach st acc
    by (intro exI [of _ "?d0\<lparr>dm_sim := st, dm_run := er\<rparr>"]) simp
qed

end
