(* ===== verification/Latency_Histogram.thy ===== *)
theory Latency_Histogram
  imports Binary64
begin

text \<open>
  \<^verbatim>\<open>LatencyHistogram\<close> (\<^verbatim>\<open>util/histogram.hpp\<close>): bucketed latency counters with percentiles.  Counters are
  64-bit words; a bucket index is a C++ \<^verbatim>\<open>int\<close>; the rank of a percentile and the mean are computed in \<^verbatim>\<open>double\<close>.
\<close>

subsection \<open>Buckets\<close>

definition kSubMicroBuckets :: int where "kSubMicroBuckets = 1000"
definition kLowMicroBuckets :: int where "kLowMicroBuckets = 90"
definition kMidMicroBuckets :: int where "kMidMicroBuckets = 90"
definition kHighMicroBuckets :: int where "kHighMicroBuckets = 90"
definition kOverflowBucket :: int where "kOverflowBucket = 1"

definition kTotalBuckets :: int where
  "kTotalBuckets = kSubMicroBuckets + kLowMicroBuckets + kMidMicroBuckets + kHighMicroBuckets + kOverflowBucket"

lemmas bucket_consts = kSubMicroBuckets_def kLowMicroBuckets_def kMidMicroBuckets_def kHighMicroBuckets_def
  kOverflowBucket_def kTotalBuckets_def

definition bucket_index :: "u64 \<Rightarrow> int" where
  "bucket_index ns = (
     if ns < 1000 then uint ns
     else if ns < 10000 then kSubMicroBuckets + uint (ns div 100) - 10
     else if ns < 100000 then kSubMicroBuckets + kLowMicroBuckets + uint (ns div 1000) - 10
     else if ns < 1000000 then kSubMicroBuckets + kLowMicroBuckets + kMidMicroBuckets + uint (ns div 10000) - 10
     else kTotalBuckets - 1)"

definition bucket_lower_ns :: "int \<Rightarrow> u64" where
  "bucket_lower_ns idx0 = (
     if idx0 < kSubMicroBuckets then word_of_int idx0
     else let idx1 = idx0 - kSubMicroBuckets
     in if idx1 < kLowMicroBuckets then word_of_int (idx1 + 10) * 100
     else let idx2 = idx1 - kLowMicroBuckets
     in if idx2 < kMidMicroBuckets then word_of_int (idx2 + 10) * 1000
     else let idx3 = idx2 - kMidMicroBuckets
     in if idx3 < kHighMicroBuckets then word_of_int (idx3 + 10) * 10000
     else 1000000)"

definition bucket_upper_ns :: "int \<Rightarrow> u64" where
  "bucket_upper_ns idx = bucket_lower_ns (idx + 1) - 1"

subsection \<open>The histogram\<close>

record Histogram =
  h_buckets :: "u64 arr"
  h_total :: u64
  h_sum_ns :: u64
  h_max_ns :: u64

definition hist_init :: Histogram where
  "hist_init = \<lparr>h_buckets = \<lambda>_. 0, h_total = 0, h_sum_ns = 0, h_max_ns = 0\<rparr>"

text \<open>The compare-and-exchange loop on the maximum, without a competing thread.\<close>

definition hist_record :: "u64 \<Rightarrow> Histogram \<Rightarrow> Histogram" where
  "hist_record latency_ns h = (
     let idx = nat (bucket_index latency_ns)
     in h\<lparr>h_buckets := (h_buckets h)(idx := h_buckets h idx + 1),
          h_total := h_total h + 1,
          h_sum_ns := h_sum_ns h + latency_ns,
          h_max_ns := (if latency_ns > h_max_ns h then latency_ns else h_max_ns h)\<rparr>)"

definition hist_reset :: "Histogram \<Rightarrow> Histogram" where
  "hist_reset h = h\<lparr>h_buckets := (\<lambda>i. if i < nat kTotalBuckets then 0 else h_buckets h i),
     h_total := 0, h_sum_ns := 0, h_max_ns := 0\<rparr>"

record Snapshot =
  s_counts :: "u64 list"
  s_total :: u64
  s_sum_ns :: u64
  s_max_ns :: u64

definition take_snapshot :: "Histogram \<Rightarrow> Snapshot" where
  "take_snapshot h = \<lparr>s_counts = map (h_buckets h) [0..<nat kTotalBuckets], s_total = h_total h,
     s_sum_ns = h_sum_ns h, s_max_ns = h_max_ns h\<rparr>"

text \<open>The loop of \<^verbatim>\<open>percentile\<close>, from bucket \<open>i\<close> on, with the counts still to be added.\<close>

fun percentile_loop :: "u64 list \<Rightarrow> int \<Rightarrow> u64 \<Rightarrow> u64 \<Rightarrow> u64 \<Rightarrow> u64" where
  "percentile_loop [] i cumulative target max_ns = max_ns"
| "percentile_loop (c # cs) i cumulative target max_ns = (
     let cumulative' = cumulative + c
     in if cumulative' > target then bucket_lower_ns i
        else percentile_loop cs (i + 1) cumulative' target max_ns)"

text \<open>\<^verbatim>\<open>static_cast<uint64_t>(p * total)\<close>, undefined outside the range of the type.\<close>

definition percentile_rank :: "rat \<Rightarrow> u64 \<Rightarrow> u64 option" where
  "percentile_rank p n = (let r = trunc (rnd (p * rnd (of_int (uint n))))
     in if 0 \<le> r \<and> r < 2 ^ 64 then Some (word_of_int r) else None)"

definition percentile :: "rat \<Rightarrow> Snapshot \<Rightarrow> u64 option" where
  "percentile p s = (if s_total s = 0 then Some 0
     else map_option (\<lambda>target. percentile_loop (s_counts s) 0 0 target (s_max_ns s)) (percentile_rank p (s_total s)))"

definition mean_ns :: "Snapshot \<Rightarrow> rat" where
  "mean_ns s = (if s_total s > 0 then fdiv_u64 (s_sum_ns s) (s_total s) else 0)"

text \<open>The values \<^verbatim>\<open>print\<close> shows.\<close>

definition print_values :: "Snapshot \<Rightarrow> u64 \<times> rat \<times> u64 option list \<times> u64" where
  "print_values s = (s_total s, mean_ns s, map (\<lambda>p. percentile p s) [rnd (50 / 100), rnd (90 / 100), rnd (99 / 100), rnd (999 / 1000)], s_max_ns s)"

text \<open>The rows of \<^verbatim>\<open>print_histogram\<close>: bounds, bar length and count of each bucket in use.\<close>

definition histogram_rows :: "u64 \<Rightarrow> Snapshot \<Rightarrow> (u64 \<times> u64 \<times> u64 \<times> u64) list" where
  "histogram_rows max_bars s = (
     let peak = Max (set (s_counts s))
     in if peak = 0 then []
        else map (\<lambda>i. (bucket_lower_ns (int i), bucket_upper_ns (int i), s_counts s ! i * max_bars div peak, s_counts s ! i))
               (filter (\<lambda>i. s_counts s ! i \<noteq> 0) [0..<nat kTotalBuckets]))"

subsection \<open>Bucket arithmetic\<close>

definition bucket_of :: "nat \<Rightarrow> nat" where
  "bucket_of n = (if n < 1000 then n else if n < 10000 then 990 + n div 100 else if n < 100000 then 1080 + n div 1000
     else if n < 1000000 then 1170 + n div 10000 else 1270)"

definition lower_of :: "nat \<Rightarrow> nat" where
  "lower_of i = (if i < 1000 then i else if i < 1090 then (i - 990) * 100 else if i < 1180 then (i - 1080) * 1000
     else if i < 1270 then (i - 1170) * 10000 else 1000000)"

lemma bucket_index_of: "bucket_index ns = int (bucket_of (unat ns))"
proof -
  have "uint (ns div k) = int (unat ns div unat k)" for k by (simp add: uint_div zdiv_int)
  then show ?thesis
    by (auto simp: bucket_index_def bucket_of_def bucket_consts word_less_nat_alt)
qed

lemma bucket_lower_of: "bucket_lower_ns (int i) = of_nat (lower_of i)"
proof -
  have shift: "word_of_int (int i - int k) = (of_nat (i - k) :: u64)" if "k \<le> i" for k
    using that by (metis of_int_of_nat_eq of_nat_diff)
  note shift990 = shift [of 990, simplified] and shift1080 = shift [of 1080, simplified] and shift1170 = shift [of 1170, simplified]
  consider "i < 1000" | "1000 \<le> i" "i < 1090" | "1090 \<le> i" "i < 1180" | "1180 \<le> i" "i < 1270" | "1270 \<le> i" by linarith
  then show ?thesis
  proof cases
    case 2
    then show ?thesis using shift990 by (simp add: bucket_lower_ns_def lower_of_def bucket_consts)
  next
    case 3
    then show ?thesis using shift1080 by (simp add: bucket_lower_ns_def lower_of_def bucket_consts)
  next
    case 4
    then show ?thesis using shift1170 by (simp add: bucket_lower_ns_def lower_of_def bucket_consts)
  qed (simp_all add: bucket_lower_ns_def lower_of_def bucket_consts)
qed

lemma bucket_of_less: "bucket_of n < 1271"
  by (auto simp: bucket_of_def)

lemma bucket_of_mono: "m \<le> n \<Longrightarrow> bucket_of m \<le> bucket_of n"
  by (auto simp: bucket_of_def)

lemma lower_of_bucket: "lower_of (bucket_of n) \<le> n"
  by (auto simp: bucket_of_def lower_of_def)

lemma lower_of_next: "n < 1000000 \<Longrightarrow> n < lower_of (Suc (bucket_of n))"
  by (auto simp: bucket_of_def lower_of_def)

subsection \<open>Recording\<close>

definition in_bucket :: "nat \<Rightarrow> u64 list \<Rightarrow> nat" where
  "in_bucket i ls = length (filter (\<lambda>l. bucket_of (unat l) = i) ls)"

definition below_bucket :: "nat \<Rightarrow> u64 list \<Rightarrow> nat" where
  "below_bucket i ls = length (filter (\<lambda>l. bucket_of (unat l) < i) ls)"

lemma below_bucket_Suc: "below_bucket (Suc i) ls = below_bucket i ls + in_bucket i ls"
  by (induction ls) (auto simp: below_bucket_def in_bucket_def)

lemma record_all:
  "h_buckets (fold hist_record ls h) i = h_buckets h i + of_nat (in_bucket i ls)"
  "h_total (fold hist_record ls h) = h_total h + of_nat (length ls)"
  "h_sum_ns (fold hist_record ls h) = h_sum_ns h + sum_list ls"
  "h_max_ns (fold hist_record ls h) = fold max ls (h_max_ns h)"
  by (induction ls arbitrary: h) (auto simp: hist_record_def in_bucket_def bucket_index_of Let_def max_def not_less)

text \<open>Recording commutes, so the counters do not depend on the order in which threads record.\<close>

lemma hist_record_commute: "hist_record a (hist_record b h) = hist_record b (hist_record a h)"
  by (cases "nat (bucket_index a) = nat (bucket_index b)") (auto simp: hist_record_def Let_def fun_upd_twist ac_simps)

subsection \<open>Percentiles are order statistics\<close>

lemma sorted_filter_nth:
  assumes "sorted ss" "\<And>x y. x \<le> y \<Longrightarrow> P y \<Longrightarrow> P x" "t < length ss"
  shows "t < length (filter P ss) \<longleftrightarrow> P (ss ! t)"
  using assms(1,3)
proof (induction ss arbitrary: t)
  case (Cons s ss)
  show ?case
  proof (cases "P s")
    case True
    with Cons show ?thesis by (cases t) auto
  next
    case False
    then have "\<forall>x \<in> set (s # ss). \<not> P x" using Cons.prems(1) assms(2) by auto
    then have "filter P (s # ss) = []" "\<not> P ((s # ss) ! t)"
      using nth_mem [OF Cons.prems(2)] by (simp only: filter_empty_conv, blast)
    then show ?thesis by (metis list.size(3) not_less_zero)
  qed
qed simp

lemma length_filter_sort: "length (filter P (sort ls)) = length (filter P ls)"
  by (metis filter_sort length_sort)

lemma rank_bucket:
  assumes "t < length ls"
  shows "t < below_bucket i ls \<longleftrightarrow> bucket_of (unat (sort ls ! t)) < i"
proof -
  have "bucket_of (unat x) < i" if "x \<le> y" "bucket_of (unat y) < i" for x y :: u64
    using that bucket_of_mono [of "unat x" "unat y"] by (simp add: word_le_nat_alt)
  from sorted_filter_nth [of "sort ls" "\<lambda>l. bucket_of (unat l) < i", OF sorted_sort this] assms show ?thesis
    by (simp add: below_bucket_def length_filter_sort)
qed

lemma below_bucket_le: "below_bucket i ls \<le> length ls"
  by (simp add: below_bucket_def)

lemma percentile_loop_finds:
  assumes "length ls < 2 ^ 64" "a \<le> k" "k < N" "\<not> unat target < below_bucket k ls" "unat target < below_bucket (Suc k) ls"
  shows "percentile_loop (map (\<lambda>i. of_nat (in_bucket i ls)) [a..<N]) (int a) (of_nat (below_bucket a ls)) target mx =
     bucket_lower_ns (int k)"
  using assms(2)
proof (induction "k - a" arbitrary: a)
  case (0 a)
  have word: "target < of_nat (below_bucket i ls) \<longleftrightarrow> unat target < below_bucket i ls" for i
    using below_bucket_le [of i ls] assms(1) by (simp add: word_less_nat_alt unat_of_nat_small)
  from 0 have "a = k" by simp
  then show ?case using assms(3,5) word [of "Suc k"]
    by (simp add: upt_conv_Cons below_bucket_Suc Let_def)
next
  case (Suc d a)
  have word: "target < of_nat (below_bucket i ls) \<longleftrightarrow> unat target < below_bucket i ls" for i
    using below_bucket_le [of i ls] assms(1) by (simp add: word_less_nat_alt unat_of_nat_small)
  have "below_bucket i ls \<le> below_bucket j ls" if "i \<le> j" for i j
    using that by (induction j rule: dec_induct) (simp_all add: below_bucket_Suc)
  then have "below_bucket (Suc a) ls \<le> below_bucket k ls" using Suc.hyps(2) by simp
  then have "\<not> unat target < below_bucket (Suc a) ls" using assms(4) by linarith
  then have "\<not> target < of_nat (below_bucket a ls) + of_nat (in_bucket a ls)"
    using word [of "Suc a"] by (simp add: below_bucket_Suc)
  moreover have "[a..<N] = a # [Suc a..<N]" using Suc.hyps(2) assms(3) by (simp add: upt_conv_Cons)
  moreover have "percentile_loop (map (\<lambda>i. of_nat (in_bucket i ls)) [Suc a..<N]) (int (Suc a)) (of_nat (below_bucket (Suc a) ls)) target mx =
     bucket_lower_ns (int k)" using Suc.hyps(1) [of "Suc a"] Suc.hyps(2) by simp
  ultimately show ?case by (simp add: below_bucket_Suc Let_def algebra_simps)
qed

subsection \<open>Properties\<close>

lemma recorded_snapshot:
  assumes "ls \<noteq> []"
  shows "s_total (take_snapshot (fold hist_record ls hist_init)) = of_nat (length ls)"
    "s_sum_ns (take_snapshot (fold hist_record ls hist_init)) = sum_list ls"
    "s_max_ns (take_snapshot (fold hist_record ls hist_init)) = Max (set ls)"
    "s_counts (take_snapshot (fold hist_record ls hist_init)) = map (\<lambda>i. of_nat (in_bucket i ls)) [0..<1271]"
proof -
  have "fold max ls 0 = Max (set ls)" using Max.set_eq_fold [of 0 ls] assms by (simp add: max_def)
  then show "s_total (take_snapshot (fold hist_record ls hist_init)) = of_nat (length ls)"
    "s_sum_ns (take_snapshot (fold hist_record ls hist_init)) = sum_list ls"
    "s_max_ns (take_snapshot (fold hist_record ls hist_init)) = Max (set ls)"
    "s_counts (take_snapshot (fold hist_record ls hist_init)) = map (\<lambda>i. of_nat (in_bucket i ls)) [0..<1271]"
    by (simp_all add: take_snapshot_def record_all hist_init_def bucket_consts)
qed

lemma rank_finds:
  assumes "length ls < 2 ^ 64" "unat target < length ls"
  shows "percentile_loop (map (\<lambda>i. of_nat (in_bucket i ls)) [0..<1271]) 0 0 target mx = bucket_lower_ns (bucket_index (sort ls ! unat target))"
proof -
  let ?k = "bucket_of (unat (sort ls ! unat target))"
  have "\<not> unat target < below_bucket ?k ls" "unat target < below_bucket (Suc ?k) ls" using rank_bucket [OF assms(2)] by auto
  then have "percentile_loop (map (\<lambda>i. of_nat (in_bucket i ls)) [0..<1271]) (int 0) (of_nat (below_bucket 0 ls)) target mx =
     bucket_lower_ns (int ?k)"
    using assms(1) bucket_of_less by (intro percentile_loop_finds) auto
  then show ?thesis by (simp add: bucket_index_of below_bucket_def)
qed

lemma rank_arith:
  fixes X N R :: rat
  assumes "0 \<le> X" "X \<le> (1 - 1 / 2 ^ 53) * N" "1 \<le> N" "N < 2 ^ 52" "\<bar>R - X\<bar> \<le> X / 2 ^ 53 + 1 / 2 ^ 200"
  shows "\<bar>R - X\<bar> \<le> 1 / 2" "R < N"
proof -
  have X: "X \<le> N - N / 2 ^ 53" using assms(2) by (simp add: left_diff_distrib)
  have "X / 2 ^ 53 + 1 / 2 ^ 200 \<le> 1 / 2" using X assms(3,4) by simp
  then show "\<bar>R - X\<bar> \<le> 1 / 2" using assms(5) by linarith
  have "X + (X / 2 ^ 53 + 1 / 2 ^ 200) < N" using X assms(3) by simp
  then show "R < N" using assms(5) by linarith
qed

lemma rank_near:
  assumes n: "0 < n" "n < 2 ^ 52" and p: "0 \<le> p" "p \<le> 1 - 1 / 2 ^ 53"
  shows "\<exists>r < n. percentile_rank p (of_nat n) = Some (of_nat r) \<and> \<bar>of_nat r - p * of_nat n\<bar> < 3 / 2"
proof -
  let ?x = "p * of_nat n :: rat"
  have un: "uint (of_nat n :: u64) = int n" using n(2) by (simp add: uint_nat unat_of_nat_small)
  have exact: "rnd (of_int (int n)) = of_nat n" using n(2) by (subst rnd_of_int) auto
  have "(of_nat n :: rat) < of_nat (2 ^ 52)" using n(2) by (simp only: of_nat_less_iff)
  then have nr: "1 \<le> (of_nat n :: rat)" "(of_nat n :: rat) < 2 ^ 52" using n(1) by simp_all
  have x: "0 \<le> ?x" "?x \<le> (1 - 1 / 2 ^ 53) * of_nat n" using p nr(1) by (auto intro: mult_right_mono)
  have err: "\<bar>rnd ?x - ?x\<bar> \<le> ?x / 2 ^ 53 + 1 / 2 ^ 200" using rnd_bound [of ?x] x(1) by simp
  note near = rank_arith(1) [OF x nr err] and below = rank_arith(2) [OF x nr err]
  have nonneg: "0 \<le> rnd ?x" using x(1) by (rule rnd_nonneg)
  define r where "r = nat \<lfloor>rnd ?x\<rfloor>"
  have ri: "int r = \<lfloor>rnd ?x\<rfloor>" using nonneg by (simp add: r_def)
  then have "of_nat r = (of_int \<lfloor>rnd ?x\<rfloor> :: rat)" by (metis of_int_of_nat_eq)
  then have bounds: "of_nat r \<le> rnd ?x" "rnd ?x < of_nat r + 1" by linarith+
  then have "(of_nat r :: rat) < of_nat n" using below by linarith
  then have "r < n" by simp
  moreover have "trunc (rnd (p * rnd (of_int (uint (of_nat n :: u64))))) = int r"
    unfolding un exact using nonneg by (simp only: trunc_def if_True ri)
  then have "percentile_rank p (of_nat n) = Some (of_nat r)" using \<open>r < n\<close> n(2) by (simp add: percentile_rank_def)
  moreover have "\<bar>of_nat r - ?x\<bar> < 3 / 2" using near bounds by linarith
  ultimately show ?thesis by blast
qed

text \<open>C26. Percentiles.  After any sequence of recordings, the percentile of a fraction \<open>p\<close> below one is the lower bound
  of the bucket of the latency that a sorted list of all recordings has at some position \<open>r\<close>, where \<open>r\<close> differs from \<open>p\<close> times the
  number of recordings by less than 1.5, the truncation and the roundings of \<^verbatim>\<open>double\<close> included; the snapshot carries the number, the
  sum and the maximum of the recordings.\<close>

theorem percentile_correct:
  assumes "ls \<noteq> []" "length ls < 2 ^ 52" "0 \<le> p" "p \<le> 1 - 1 / 2 ^ 53"
  shows "(\<exists>r < length ls. percentile p (take_snapshot (fold hist_record ls hist_init)) = Some (bucket_lower_ns (bucket_index (sort ls ! r))) \<and>
       \<bar>of_nat r - p * of_nat (length ls)\<bar> < 3 / 2) \<and>
     s_total (take_snapshot (fold hist_record ls hist_init)) = of_nat (length ls) \<and>
     s_sum_ns (take_snapshot (fold hist_record ls hist_init)) = sum_list ls \<and>
     s_max_ns (take_snapshot (fold hist_record ls hist_init)) = Max (set ls)"
proof -
  let ?s = "take_snapshot (fold hist_record ls hist_init)"
  obtain r where r: "r < length ls" "percentile_rank p (of_nat (length ls)) = Some (of_nat r)" "\<bar>of_nat r - p * of_nat (length ls)\<bar> < 3 / 2"
    using rank_near [of "length ls" p] assms by auto
  have u: "unat (of_nat r :: u64) = r" "length ls < 2 ^ 64" using r(1) assms(2) by (auto intro: unat_of_nat_small)
  have "(of_nat (length ls) :: u64) \<noteq> 0" using assms(1) u(2) by (auto simp: of_nat_eq_0_small)
  then have "percentile p ?s = Some (bucket_lower_ns (bucket_index (sort ls ! r)))"
    using rank_finds [OF u(2), of "of_nat r"] r(1,2) by (simp add: percentile_def recorded_snapshot [OF assms(1)] u(1))
  then show ?thesis using r recorded_snapshot [OF assms(1)] by blast
qed

theorem percentile_correct_witness:
  "\<exists>r < length [2500, 40, 130000 :: u64]. percentile (1 / 2) (take_snapshot (fold hist_record [2500, 40, 130000] hist_init)) =
       Some (bucket_lower_ns (bucket_index (sort [2500, 40, 130000] ! r))) \<and> \<bar>of_nat r - 3 / 2 :: rat\<bar> < 3 / 2"
  using percentile_correct [of "[2500, 40, 130000]" "1 / 2"] by simp

text \<open>The upper bound of the last bucket is computed as if a bucket followed, and lies below its lower bound.\<close>

lemma overflow_bucket:
  "1000000 \<le> ns \<Longrightarrow> bucket_index ns = kTotalBuckets - 1 \<and> bucket_lower_ns (bucket_index ns) = 1000000 \<and>
     bucket_upper_ns (bucket_index ns) = 999999"
  by (auto simp: bucket_index_def bucket_upper_ns_def bucket_lower_ns_def bucket_consts word_less_nat_alt word_le_nat_alt)

text \<open>C27. Bucket bounds.  Every latency has a bucket of the array, whose lower bound does not exceed it, and the buckets are ordered
  as the latencies are.  Below a millisecond the bounds enclose the latency, and reporting the lower bound loses at
  most a tenth of it, and nothing below a microsecond.  From a millisecond on all latencies share the last bucket:
  it is reported as a millisecond, however much larger the latency is, and its upper bound, 999999, encloses none of them.\<close>

theorem bucket_bounds:
  "0 \<le> bucket_index ns \<and> bucket_index ns < kTotalBuckets \<and> bucket_lower_ns (bucket_index ns) \<le> ns \<and>
   (ns < 1000000 \<longrightarrow> ns \<le> bucket_upper_ns (bucket_index ns) \<and>
      unat ns - unat (bucket_lower_ns (bucket_index ns)) \<le> (if ns < 1000 then 0 else unat ns div 10)) \<and>
   (1000000 \<le> ns \<longrightarrow> bucket_index ns = kTotalBuckets - 1 \<and> bucket_lower_ns (bucket_index ns) = 1000000 \<and>
      bucket_upper_ns (bucket_index ns) = 999999) \<and>
   (ns \<le> ns' \<longrightarrow> bucket_index ns \<le> bucket_index ns')"
proof -
  let ?n = "unat ns" and ?i = "bucket_of (unat ns)"
  have big: "lower_of i < 2 ^ 64" for i by (auto simp: lower_of_def)
  have lower: "unat (bucket_lower_ns (bucket_index ns)) = lower_of ?i"
    using big by (simp add: bucket_index_of bucket_lower_of unat_of_nat_small)
  have upper: "unat (bucket_upper_ns (bucket_index ns)) = lower_of (Suc ?i) - 1" if "ns < 1000000"
  proof -
    have "bucket_upper_ns (bucket_index ns) = bucket_lower_ns (int (Suc ?i)) - 1"
      by (simp add: bucket_index_of bucket_upper_ns_def add.commute)
    then have "bucket_upper_ns (bucket_index ns) = of_nat (lower_of (Suc ?i)) - 1" unfolding bucket_lower_of .
    moreover have "0 < lower_of (Suc ?i)" using lower_of_next [of ?n] that by (simp add: word_less_nat_alt)
    ultimately have "bucket_upper_ns (bucket_index ns) = of_nat (lower_of (Suc ?i) - 1)" by (simp add: of_nat_diff)
    then show ?thesis using big [of "Suc ?i"] by (simp add: unat_of_nat_small)
  qed
  have "?n - lower_of ?i \<le> (if ?n < 1000 then 0 else ?n div 10)" if "?n < 1000000"
    using that by (auto simp: bucket_of_def lower_of_def)
  moreover have "?n \<le> lower_of (Suc ?i) - 1" if "?n < 1000000" using lower_of_next [OF that] by simp
  moreover have "bucket_lower_ns 1270 = 1000000" "bucket_upper_ns 1270 = 999999"
    by (simp_all add: bucket_upper_ns_def bucket_lower_ns_def bucket_consts)
  moreover note overflow_bucket [of ns]
  ultimately show ?thesis
    using lower upper lower_of_bucket [of ?n] bucket_of_less [of ?n] bucket_of_mono [of ?n "unat ns'"]
    by (simp add: word_less_nat_alt word_le_nat_alt bucket_index_of bucket_consts)
qed

theorem bucket_bounds_witness:
  "bucket_index 4321 = 1033 \<and> 4321 \<le> bucket_upper_ns (bucket_index 4321) \<and>
   unat (4321 :: u64) - unat (bucket_lower_ns (bucket_index 4321)) \<le> 432 \<and>
   bucket_lower_ns (bucket_index 5000000) = 1000000 \<and> bucket_upper_ns (bucket_index 5000000) = 999999 \<and>
   bucket_index 4321 \<le> bucket_index 5000000"
  using bucket_bounds [of 4321 5000000] bucket_bounds [of 5000000 5000000] by (simp add: bucket_index_def bucket_consts)

text \<open>The mean is the quotient of the sum and the number, up to rounding.\<close>

lemma mean_ns_near:
  assumes "s_total s \<noteq> 0"
  shows "\<bar>mean_ns s - of_int (uint (s_sum_ns s)) / of_int (uint (s_total s))\<bar> \<le>
     of_int (uint (s_sum_ns s)) / of_int (uint (s_total s)) / 2 ^ 51 + 1 / 2 ^ 200"
  using fdiv_near [OF assms] assms by (simp add: mean_ns_def word_gt_0)

text \<open>The bars of the printed histogram.\<close>

lemma histogram_rows_bars:
  assumes "(lo, hi, bars, c) \<in> set (histogram_rows max_bars s)" "length (s_counts s) = nat kTotalBuckets"
    "unat (Max (set (s_counts s))) * unat max_bars < 2 ^ 64"
  shows "bars \<le> max_bars \<and> (c = Max (set (s_counts s)) \<longrightarrow> bars = max_bars)"
proof -
  let ?peak = "Max (set (s_counts s))"
  from assms(1,2) have row: "bars = c * max_bars div ?peak" "?peak \<noteq> 0" "c \<le> ?peak"
    by (auto simp: histogram_rows_def Let_def split: if_splits)
  have "unat c * unat max_bars \<le> unat ?peak * unat max_bars" using row(3) by (simp add: word_le_nat_alt)
  then have "unat c * unat max_bars < 2 ^ 64" using assms(3) by (rule le_less_trans)
  then have "unat (c * max_bars) = unat c * unat max_bars" by (simp add: unat_word_ariths)
  then have "unat bars = unat c * unat max_bars div unat ?peak" using row(1) by (simp add: unat_div)
  moreover have pos: "0 < unat ?peak" using row(2) by (simp add: unat_gt_0)
  moreover have "unat c * unat max_bars div unat ?peak \<le> unat ?peak * unat max_bars div unat ?peak"
    using \<open>unat c * unat max_bars \<le> unat ?peak * unat max_bars\<close> by (rule div_le_mono)
  ultimately show ?thesis by (auto simp: word_le_nat_alt word_unat_eq_iff)
qed

end
