(* ===== verification/Pool_Allocator.thy ===== *)
theory Pool_Allocator
  imports Slot_Pool
begin

text \<open>
  \<^verbatim>\<open>PoolAllocator<T, MaxObjects>\<close> (\<^verbatim>\<open>util/allocator.hpp\<close>): a slab of objects with a free list threaded through
  the objects that are not in use.  A pointer into the slab is the index of its object, \<^verbatim>\<open>nullptr\<close> is
  \<open>None\<close>.  The first word of an object doubles as the \<^verbatim>\<open>next\<close> pointer while it is free, so a client that
  writes to a live object overwrites that cell: \<open>client_write\<close> is part of the model.  Mapping and pinning
  the memory (\<^verbatim>\<open>mmap\<close>, \<^verbatim>\<open>madvise\<close>, \<^verbatim>\<open>mlock\<close>) is the operating system's.
\<close>

subsection \<open>State and operations\<close>

record PoolAllocator =
  pa_next :: "nat option arr"
  pa_free_head :: "nat option"
  pa_total :: u64
  pa_allocated :: u64

text \<open>The constructor's loop runs from the last object to the first.\<close>

definition pool_init :: "nat \<Rightarrow> nat option arr \<Rightarrow> PoolAllocator" where
  "pool_init n raw = (
     let (nx, fh) = fold (\<lambda>i (nx, fh). (nx(i := fh), Some i)) (rev [0..<n]) (raw, None)
     in \<lparr>pa_next = nx, pa_free_head = fh, pa_total = of_nat n, pa_allocated = 0\<rparr>)"

definition pool_allocate :: "PoolAllocator \<Rightarrow> nat option \<times> PoolAllocator" where
  "pool_allocate p = (case pa_free_head p of None \<Rightarrow> (None, p)
     | Some node \<Rightarrow> (Some node, p\<lparr>pa_free_head := pa_next p node, pa_allocated := pa_allocated p + 1\<rparr>))"

definition pool_deallocate :: "nat \<Rightarrow> PoolAllocator \<Rightarrow> PoolAllocator" where
  "pool_deallocate ptr p = p\<lparr>pa_next := (pa_next p)(ptr := pa_free_head p), pa_free_head := Some ptr,
     pa_allocated := pa_allocated p - 1\<rparr>"

definition client_write :: "nat \<Rightarrow> nat option \<Rightarrow> PoolAllocator \<Rightarrow> PoolAllocator" where
  "client_write ptr v p = p\<lparr>pa_next := (pa_next p)(ptr := v)\<rparr>"

text \<open>\<^verbatim>\<open>construct\<close>: placement new writes the object, \<open>v\<close> being what its first word becomes.\<close>

definition pool_construct :: "nat option \<Rightarrow> PoolAllocator \<Rightarrow> nat option \<times> PoolAllocator" where
  "pool_construct v p = (case pool_allocate p of (None, p') \<Rightarrow> (None, p')
     | (Some mem, p') \<Rightarrow> (Some mem, client_write mem v p'))"

definition pool_available :: "PoolAllocator \<Rightarrow> u64" where
  "pool_available p = pa_total p - pa_allocated p"

subsection \<open>The free list\<close>

fun links :: "nat option arr \<Rightarrow> nat option \<Rightarrow> nat list \<Rightarrow> bool" where
  "links nx fh [] = (fh = None)"
| "links nx fh (x # xs) = (fh = Some x \<and> links nx (nx x) xs)"

definition free_objects :: "nat \<Rightarrow> PoolAllocator \<Rightarrow> nat list \<Rightarrow> bool" where
  "free_objects n p fs = (links (pa_next p) (pa_free_head p) fs \<and> distinct fs \<and> set fs \<subseteq> {..<n} \<and>
     pa_total p = of_nat n \<and> pa_allocated p = of_nat (n - length fs))"

lemma links_upd [simp]: "x \<notin> set xs \<Longrightarrow> links (nx(x := v)) fh xs = links nx fh xs"
  by (induction nx fh xs rule: links.induct) auto

lemma build_links:
  "k \<le> n \<Longrightarrow> links nx fh [k..<n] \<Longrightarrow>
     (case fold (\<lambda>i (nx, fh). (nx(i := fh), Some i)) (rev [0..<k]) (nx, fh) of (nx', fh') \<Rightarrow> links nx' fh' [0..<n])"
proof (induction k arbitrary: nx fh)
  case (Suc k)
  have "[k..<n] = k # [Suc k..<n]" using Suc.prems(1) by (simp add: upt_conv_Cons)
  with Suc.prems have "links (nx(k := fh)) (Some k) [k..<n]" by simp
  from Suc.IH [OF _ this] Suc.prems(1) show ?case by simp
qed simp

lemma pool_init_free: "free_objects n (pool_init n raw) [0..<n]"
proof -
  have "links raw None [n..<n]" by simp
  from build_links [OF _ this] show ?thesis
    by (auto simp: free_objects_def pool_init_def Let_def split: prod.splits)
qed

lemma free_objects_length: "free_objects n p fs \<Longrightarrow> length fs \<le> n"
  by (auto simp: free_objects_def intro: distinct_subset_length)

lemma allocate_Cons:
  assumes "free_objects n p (x # fs)"
  shows "\<exists>p'. pool_allocate p = (Some x, p') \<and> free_objects n p' fs"
proof -
  have "n - length fs = Suc (n - length (x # fs))" using free_objects_length [OF assms] by simp
  with assms show ?thesis by (simp add: free_objects_def pool_allocate_def add.commute)
qed

lemma deallocate_free:
  assumes "free_objects n p fs" "x < n" "x \<notin> set fs"
  shows "free_objects n (pool_deallocate x p) (x # fs)"
proof -
  have "length (x # fs) \<le> n" using assms by (intro distinct_subset_length) (auto simp: free_objects_def)
  then have "n - length fs = Suc (n - length (x # fs))" by simp
  with assms show ?thesis by (simp add: free_objects_def pool_deallocate_def)
qed

lemma client_write_free: "free_objects n p fs \<Longrightarrow> x \<notin> set fs \<Longrightarrow> free_objects n (client_write x v p) fs"
  by (simp add: free_objects_def client_write_def)

interpretation poolp: free_list_pool "free_objects n" pool_allocate pool_deallocate "\<lambda>x. x < n" for n
proof unfold_locales
  fix p :: PoolAllocator and x xs
  show "distinct xs \<and> (\<forall>x\<in>set xs. x < n)" if "free_objects n p xs" using that by (auto simp: free_objects_def)
  show "pool_allocate p = (None, p)" if "free_objects n p []" using that by (simp add: free_objects_def pool_allocate_def)
  show "\<exists>p'. pool_allocate p = (Some x, p') \<and> free_objects n p' xs" if "free_objects n p (x # xs)"
    using that by (rule allocate_Cons)
  show "free_objects n (pool_deallocate x p) (x # xs)" if "free_objects n p xs" "x < n" "x \<notin> set xs"
    using that by (rule deallocate_free)
qed

subsection \<open>Correct use\<close>

text \<open>Any sequence of allocations, constructions, writes to live objects and releases of live objects;
  \<open>live\<close> lists the objects handed out and not yet released.\<close>

inductive pool_use :: "nat \<Rightarrow> PoolAllocator \<Rightarrow> nat list \<Rightarrow> bool" for n where
  init: "pool_use n (pool_init n raw) []"
| alloc: "pool_use n p live \<Longrightarrow> pool_allocate p = (Some x, p') \<Longrightarrow> pool_use n p' (x # live)"
| cons: "pool_use n p live \<Longrightarrow> pool_construct v p = (Some x, p') \<Longrightarrow> pool_use n p' (x # live)"
| store: "pool_use n p live \<Longrightarrow> x \<in> set live \<Longrightarrow> pool_use n (client_write x v p) live"
| dealloc: "pool_use n p live \<Longrightarrow> x \<in> set live \<Longrightarrow> pool_use n (pool_deallocate x p) (remove1 x live)"

lemma alloc_some:
  assumes "free_objects n p fs" "pool_allocate p = (Some x, p')"
  obtains fs' where "fs = x # fs'" "free_objects n p' fs'"
  using assms poolp.take1_Nil [of n p] poolp.take1_Cons [of n p] by (cases fs) fastforce+

lemma pool_use_inv:
  "pool_use n p live \<Longrightarrow> \<exists>fs. free_objects n p fs \<and> distinct (live @ fs) \<and> set (live @ fs) = {..<n}"
proof (induction rule: pool_use.induct)
  case (init raw)
  then show ?case using pool_init_free [of n raw] by (intro exI [of _ "[0..<n]"]) (auto simp: lessThan_atLeast0)
next
  case (alloc p live x p')
  then obtain fs fs' where "fs = x # fs'" "free_objects n p' fs'" "distinct (live @ fs)" "set (live @ fs) = {..<n}"
    using alloc_some by metis
  then show ?case by (intro exI [of _ fs']) auto
next
  case (cons p live v x p')
  then obtain p1 where p1: "pool_allocate p = (Some x, p1)" "p' = client_write x v p1"
    by (auto simp: pool_construct_def split: prod.splits option.splits)
  with cons obtain fs fs' where "fs = x # fs'" "free_objects n p1 fs'" "distinct (live @ fs)" "set (live @ fs) = {..<n}"
    using alloc_some by metis
  then show ?case using p1(2) client_write_free [of n p1 fs' x v] by (intro exI [of _ fs']) auto
next
  case (store p live x v)
  then show ?case using client_write_free [of n p _ x v] by (metis disjoint_iff distinct_append)
next
  case (dealloc p live x)
  then obtain fs where fs: "free_objects n p fs" "distinct (live @ fs)" "set (live @ fs) = {..<n}" by blast
  have "x < n" "x \<notin> set fs" using fs(2,3) dealloc.hyps(2) by auto
  from deallocate_free [OF fs(1) this] fs(2,3) dealloc.hyps(2) show ?case
    by (intro exI [of _ "x # fs"]) (auto simp: set_remove1_eq)
qed

text \<open>C28. The allocator under correct use, writes to live objects included: no object is handed out twice
  while live, the counter is exact, allocation fails exactly when all objects are live, and an
  allocation that succeeds returns an object that is not live.\<close>

theorem pool_allocator_safe:
  assumes "pool_use n p live" "n < 2 ^ 64"
  shows "distinct live \<and> set live \<subseteq> {..<n} \<and> unat (pa_allocated p) = length live \<and>
     unat (pool_available p) = n - length live \<and>
     (case pool_allocate p of (None, _) \<Rightarrow> length live = n | (Some x, _) \<Rightarrow> length live < n \<and> x < n \<and> x \<notin> set live)"
proof -
  obtain fs where fs: "free_objects n p fs" "distinct (live @ fs)" "set (live @ fs) = {..<n}"
    using pool_use_inv [OF assms(1)] by blast
  have "length (live @ fs) = n" using distinct_card [OF fs(2)] fs(3) by simp
  then have len: "n - length fs = length live" "length live \<le> n" by auto
  have al: "unat (pa_allocated p) = length live" "pa_total p = of_nat n"
    using fs(1) len assms(2) by (simp_all add: free_objects_def unat_of_nat_small)
  then have "unat (pool_available p) = n - length live"
    using assms(2) len(2) by (simp add: pool_available_def unat_sub word_le_nat_alt unat_of_nat_small)
  moreover have "case pool_allocate p of (None, _) \<Rightarrow> length live = n | (Some x, _) \<Rightarrow> length live < n \<and> x < n \<and> x \<notin> set live"
  proof (cases fs)
    case Nil
    then show ?thesis using fs(1) poolp.take1_Nil [of n p] len by simp
  next
    case (Cons x fs')
    then show ?thesis using fs poolp.take1_Cons [of n p x fs'] len by fastforce
  qed
  ultimately show ?thesis using fs(2,3) al by auto
qed

theorem pool_allocator_safe_witness:
  "\<exists>p. pool_use 2 p [1, 0] \<and> unat (pa_allocated p) = 2 \<and> fst (pool_allocate p) = None"
proof -
  let ?p0 = "pool_init 2 (\<lambda>_. None)"
  let ?p1 = "snd (pool_allocate ?p0)"
  let ?p2 = "snd (pool_allocate (client_write 0 (Some 77) ?p1))"
  note ev = pool_init_def pool_allocate_def client_write_def upt_rec
  have "pool_allocate ?p0 = (Some 0, ?p1)" by (simp add: ev)
  then have "pool_use 2 ?p1 [0]" by (rule pool_use.alloc [OF pool_use.init])
  then have "pool_use 2 (client_write 0 (Some 77) ?p1) [0]" by (rule pool_use.store) simp
  moreover have "pool_allocate (client_write 0 (Some 77) ?p1) = (Some 1, ?p2)" by (simp add: ev)
  ultimately have use: "pool_use 2 ?p2 [1, 0]" by (rule pool_use.alloc)
  then show ?thesis using pool_allocator_safe [OF use] by (intro exI [of _ ?p2]) (auto split: prod.splits option.splits)
qed

end
