(* ===== verification/Logger.thy ===== *)
theory Logger
  imports Spsc_Queue
begin

text \<open>
  \<^verbatim>\<open>Logger\<close> (\<^verbatim>\<open>util/logger.hpp\<close>, \<^verbatim>\<open>util/logger.cpp\<close>): records pass from the hot path to the I/O thread through a
  queue of 16384 slots.  The text a call formats and the time stamp it reads are arguments here; the
  record keeps the text as the \<^verbatim>\<open>char[192]\<close> that \<^verbatim>\<open>snprintf\<close> fills, and what is written is the content of
  the stream.
\<close>

subsection \<open>Records and lines\<close>

datatype LogLevel = LevelDebug | LevelInfo | LevelWarn | LevelError

definition kMsgLen :: nat where "kMsgLen = 192"
definition lg_kQueueDepth :: u64 where "lg_kQueueDepth = 16384"

record LogRecord =
  lr_msg :: "char list"
  lr_timestamp_ns :: u64
  lr_level :: LogLevel

definition NUL :: char where "NUL = CHR 0x00"

text \<open>\<^verbatim>\<open>snprintf\<close> into a zeroed buffer of \<open>n\<close> bytes, and reading a buffer back as a C string.\<close>

definition snprintf_buf :: "nat \<Rightarrow> string \<Rightarrow> char list" where
  "snprintf_buf n text = (let t = take (n - 1) text in t @ replicate (n - length t) NUL)"

definition c_string :: "char list \<Rightarrow> string" where
  "c_string buf = takeWhile (\<lambda>c. c \<noteq> NUL) buf"

definition level_str :: "LogLevel \<Rightarrow> string" where
  "level_str l = (case l of LevelDebug \<Rightarrow> ''DEBUG'' | LevelInfo \<Rightarrow> ''INFO '' | LevelWarn \<Rightarrow> ''WARN '' | LevelError \<Rightarrow> ''ERROR'')"

fun decimal :: "nat \<Rightarrow> string" where
  "decimal n = (if n < 10 then [char_of (48 + n)] else decimal (n div 10) @ [char_of (48 + n mod 10)])"

declare decimal.simps [simp del]

definition log_line :: "LogRecord \<Rightarrow> string" where
  "log_line r = ''['' @ decimal (unat (lr_timestamp_ns r)) @ ''] '' @ level_str (lr_level r) @ '' '' @ c_string (lr_msg r) @ [CHR 0x0A]"

text \<open>\<^verbatim>\<open>rdtsc_ns\<close>, from the two fields of the clock.\<close>

definition rdtsc_ns :: "u64 \<Rightarrow> u64 \<Rightarrow> u64" where
  "rdtsc_ns tv_sec tv_nsec = tv_sec * 1000000000 + tv_nsec"

subsection \<open>State and operations\<close>

datatype Sink = Stderr | LogFile

text \<open>\<open>lg_thread\<close>: the I/O thread is joinable; \<open>lg_written\<close>: all bytes written to the stream so far.\<close>

record Logger =
  lg_queue :: "LogRecord SPSCQueue"
  lg_out :: "Sink option"
  lg_thread :: bool
  lg_running :: bool
  lg_written :: string

definition new_logger :: "LogRecord SPSCQueue \<Rightarrow> Logger" where
  "new_logger raw = \<lparr>lg_queue = spsc_init raw, lg_out = None, lg_thread = False, lg_running = False, lg_written = []\<rparr>"

definition log_record :: "LogLevel \<Rightarrow> u64 \<Rightarrow> string \<Rightarrow> LogRecord" where
  "log_record level now text = \<lparr>lr_msg = snprintf_buf kMsgLen text, lr_timestamp_ns = now, lr_level = level\<rparr>"

text \<open>\<^verbatim>\<open>log\<close> ignores the result of the push; it is returned here for the history below.\<close>

definition logger_log :: "LogLevel \<Rightarrow> u64 \<Rightarrow> string \<Rightarrow> Logger \<Rightarrow> bool \<times> Logger" where
  "logger_log level now text lg = (let (ok, q) = spsc_try_push lg_kQueueDepth (log_record level now text) (lg_queue lg)
     in (ok, lg\<lparr>lg_queue := q\<rparr>))"

text \<open>\<^verbatim>\<open>start\<close>: \<open>path\<close> is \<open>None\<close> for no path, otherwise whether the file could be opened.\<close>

definition logger_start :: "bool option \<Rightarrow> Logger \<Rightarrow> Logger" where
  "logger_start path lg = lg\<lparr>lg_out := (case path of None \<Rightarrow> Some Stderr | Some opens \<Rightarrow> if opens then Some LogFile else None),
     lg_running := True, lg_thread := True\<rparr>"

definition emit_record :: "LogRecord \<Rightarrow> Logger \<Rightarrow> Logger" where
  "emit_record r lg = (if lg_out lg \<noteq> None then lg\<lparr>lg_written := lg_written lg @ log_line r\<rparr> else lg)"

text \<open>One pop of the I/O thread, and the loop that pops until the queue is empty.\<close>

definition print_next :: "Logger \<Rightarrow> LogRecord option \<times> Logger" where
  "print_next lg = (case spsc_try_pop lg_kQueueDepth (lg_queue lg) of
     (None, q) \<Rightarrow> (None, lg\<lparr>lg_queue := q\<rparr>)
   | (Some r, q) \<Rightarrow> (Some r, emit_record r (lg\<lparr>lg_queue := q\<rparr>)))"

partial_function (option) drain_records :: "Logger \<Rightarrow> Logger option" where
  "drain_records lg = (case print_next lg of (None, lg') \<Rightarrow> Some lg' | (Some r, lg') \<Rightarrow> drain_records lg')"

declare drain_records.simps [code]

text \<open>\<^verbatim>\<open>stop\<close>: joining waits for the remaining records; then the stream is closed and forgotten.\<close>

definition logger_stop :: "Logger \<Rightarrow> Logger option" where
  "logger_stop lg = do {
     lg1 \<leftarrow> (let lg0 = lg\<lparr>lg_running := False\<rparr> in
        if lg_thread lg0 then do { l \<leftarrow> drain_records lg0; Some (l\<lparr>lg_thread := False\<rparr>) } else Some lg0);
     Some (lg1\<lparr>lg_out := None\<rparr>) }"

text \<open>Calls of \<^verbatim>\<open>log\<close> interleave with the pops of the I/O thread.\<close>

record LogRun =
  ln_logger :: Logger
  ln_accepted :: "LogRecord list"
  ln_printed :: "LogRecord list"

inductive log_step :: "LogRun \<Rightarrow> LogRun \<Rightarrow> bool" where
  logs: "logger_log level now text (ln_logger s) = (ok, lg') \<Longrightarrow>
     log_step s (s\<lparr>ln_logger := lg', ln_accepted := ln_accepted s @ (if ok then [log_record level now text] else [])\<rparr>)"
| prints: "print_next (ln_logger s) = (r, lg') \<Longrightarrow>
     log_step s (s\<lparr>ln_logger := lg', ln_printed := ln_printed s @ (case r of None \<Rightarrow> [] | Some x \<Rightarrow> [x])\<rparr>)"

inductive log_reach :: "bool option \<Rightarrow> LogRun \<Rightarrow> bool" for path where
  start: "log_reach path \<lparr>ln_logger = logger_start path (new_logger raw), ln_accepted = [], ln_printed = []\<rparr>"
| step: "log_reach path s \<Longrightarrow> log_step s s' \<Longrightarrow> log_reach path s'"

subsection \<open>Proofs\<close>

definition has_sink :: "bool option \<Rightarrow> bool" where
  "has_sink path = (path \<noteq> Some False)"

definition lines :: "LogRecord list \<Rightarrow> string" where
  "lines rs = concat (map log_line rs)"

lemma valid_log_depth: "valid_capacity lg_kQueueDepth"
  by (simp add: valid_capacity_def lg_kQueueDepth_def)

lemma log_room: "unat lg_kQueueDepth - 1 = 16383"
  by (simp add: lg_kQueueDepth_def)

lemma c_string_buf: "NUL \<notin> set text \<Longrightarrow> c_string (snprintf_buf (Suc n) text) = take n text"
proof -
  assume "NUL \<notin> set text"
  then have "\<forall>c \<in> set (take n text). c \<noteq> NUL" by (metis in_set_takeD)
  then show ?thesis by (simp add: c_string_def snprintf_buf_def Let_def takeWhile_append2 takeWhile_replicate)
qed

text \<open>The state of the logger after some records were accepted and some of them printed.\<close>

definition log_ok :: "bool \<Rightarrow> LogRecord list \<Rightarrow> LogRecord list \<Rightarrow> Logger \<Rightarrow> bool" where
  "log_ok sink acc printed lg = (\<exists>xs. spsc_holds lg_kQueueDepth (lg_queue lg) xs \<and> acc = printed @ xs \<and>
     lg_thread lg \<and> (lg_out lg \<noteq> None \<longleftrightarrow> sink) \<and> lg_written lg = (if sink then lines printed else []))"

lemma log_log_ok:
  assumes ok: "log_ok sink acc printed lg" and log: "logger_log level now text lg = (b, lg')"
  shows "log_ok sink (acc @ (if b then [log_record level now text] else [])) printed lg'"
proof -
  obtain xs where xs: "spsc_holds lg_kQueueDepth (lg_queue lg) xs" "acc = printed @ xs"
    and rest: "lg_thread lg" "lg_out lg \<noteq> None \<longleftrightarrow> sink" "lg_written lg = (if sink then lines printed else [])"
    using ok by (auto simp: log_ok_def)
  obtain q where q: "spsc_try_push lg_kQueueDepth (log_record level now text) (lg_queue lg) = (length xs < unat lg_kQueueDepth - 1, q)"
    "spsc_holds lg_kQueueDepth q (if length xs < unat lg_kQueueDepth - 1 then xs @ [log_record level now text] else xs)"
    using spsc.push_cases [OF xs(1)] by blast
  then have "lg' = lg\<lparr>lg_queue := q\<rparr>" "b \<longleftrightarrow> length xs < unat lg_kQueueDepth - 1" using log by (auto simp: logger_log_def)
  then show ?thesis using q(2) xs(2) rest unfolding log_ok_def by (cases b) auto
qed

lemma print_next_ok:
  assumes ok: "log_ok sink acc printed lg" and nxt: "print_next lg = (r, lg')"
  shows "log_ok sink acc (printed @ (case r of None \<Rightarrow> [] | Some x \<Rightarrow> [x])) lg'" "r = None \<Longrightarrow> printed = acc"
    "r \<noteq> None \<Longrightarrow> length printed < length acc"
proof -
  obtain xs where xs: "spsc_holds lg_kQueueDepth (lg_queue lg) xs" "acc = printed @ xs"
    and rest: "lg_thread lg" "lg_out lg \<noteq> None \<longleftrightarrow> sink" "lg_written lg = (if sink then lines printed else [])"
    using ok by (auto simp: log_ok_def)
  obtain q where q: "spsc_try_pop lg_kQueueDepth (lg_queue lg) = (case xs of [] \<Rightarrow> None | x # _ \<Rightarrow> Some x, q)"
    "spsc_holds lg_kQueueDepth q (tl xs)"
    using spsc.pop_cases [OF xs(1)] by blast
  show "log_ok sink acc (printed @ (case r of None \<Rightarrow> [] | Some x \<Rightarrow> [x])) lg'"
    using q xs(2) rest nxt unfolding log_ok_def
    by (cases xs) (auto simp: print_next_def emit_record_def lines_def split: if_splits)
  show "r = None \<Longrightarrow> printed = acc" "r \<noteq> None \<Longrightarrow> length printed < length acc"
    using q nxt xs(2) by (auto simp: print_next_def split: list.splits)
qed

lemma log_ok_reach: "log_reach path s \<Longrightarrow> log_ok (has_sink path) (ln_accepted s) (ln_printed s) (ln_logger s)"
proof (induction rule: log_reach.induct)
  case (start raw)
  show ?case using spsc_init_holds [OF valid_log_depth, of raw]
    by (auto simp: log_ok_def logger_start_def new_logger_def lines_def has_sink_def split: option.splits)
next
  case (step s s')
  from step.hyps(2) show ?case
    by cases (use step.IH log_log_ok print_next_ok(1) in auto)
qed

lemma drain_ok:
  "log_ok sink acc printed lg \<Longrightarrow> \<exists>lg'. drain_records lg = Some lg' \<and> log_ok sink acc acc lg'"
proof (induction "length acc - length printed" arbitrary: printed lg rule: less_induct)
  case less
  obtain r lg' where nxt: "print_next lg = (r, lg')" by fastforce
  note ok = print_next_ok [OF less.prems nxt]
  show ?case
  proof (cases r)
    case None
    then show ?thesis using ok nxt by (subst drain_records.simps) auto
  next
    case (Some x)
    then have "\<exists>lg''. drain_records lg' = Some lg'' \<and> log_ok sink acc acc lg''" using ok by (intro less.hyps) auto
    then show ?thesis using nxt Some by (subst drain_records.simps) simp
  qed
qed

text \<open>C37. Logging.  However calls of \<^verbatim>\<open>log\<close> and the I/O thread interleave after a start, stopping returns, and
  then the stream holds exactly one line per accepted record, in the order of the calls, and nothing
  when no stream could be opened; a record shows its level, its time stamp and the first 191
  characters of its text; and a further call is accepted exactly while fewer than 16383 records wait.\<close>

theorem logger_complete:
  assumes "log_reach path s" "NUL \<notin> set text"
  shows "\<exists>lg. logger_stop (ln_logger s) = Some lg \<and> lg_out lg = None \<and> \<not> lg_thread lg \<and>
     lg_written lg = (if path = Some False then [] else concat (map log_line (ln_accepted s))) \<and>
     log_line (log_record level now text) =
       ''['' @ decimal (unat now) @ ''] '' @ level_str level @ '' '' @ take 191 text @ [CHR 0x0A] \<and>
     (fst (logger_log level now text (ln_logger s)) \<longleftrightarrow> length (ln_accepted s) - length (ln_printed s) < 16383)"
proof -
  have ok: "log_ok (has_sink path) (ln_accepted s) (ln_printed s) (ln_logger s)" using log_ok_reach assms(1) .
  then have "log_ok (has_sink path) (ln_accepted s) (ln_printed s) ((ln_logger s)\<lparr>lg_running := False\<rparr>)" by (simp add: log_ok_def)
  from drain_ok [OF this] obtain lg where lg: "drain_records ((ln_logger s)\<lparr>lg_running := False\<rparr>) = Some lg"
    "log_ok (has_sink path) (ln_accepted s) (ln_accepted s) lg" by blast
  let ?lg = "lg\<lparr>lg_thread := False, lg_out := None\<rparr>"
  have stop: "logger_stop (ln_logger s) = Some ?lg" using ok lg(1) by (auto simp: logger_stop_def log_ok_def)
  have wr: "lg_written ?lg = (if path = Some False then [] else concat (map log_line (ln_accepted s)))"
    using lg(2) by (auto simp: log_ok_def lines_def has_sink_def)
  have "c_string (snprintf_buf kMsgLen text) = take 191 text"
    using c_string_buf [OF assms(2), of 191] by (simp add: kMsgLen_def)
  then have line: "log_line (log_record level now text) =
       ''['' @ decimal (unat now) @ ''] '' @ level_str level @ '' '' @ take 191 text @ [CHR 0x0A]"
    by (simp add: log_line_def log_record_def)
  obtain xs where xs: "spsc_holds lg_kQueueDepth (lg_queue (ln_logger s)) xs" "ln_accepted s = ln_printed s @ xs"
    using ok by (auto simp: log_ok_def)
  then have len: "length (ln_accepted s) - length (ln_printed s) = length xs" by simp
  have room: "fst (logger_log level now text (ln_logger s)) \<longleftrightarrow> length xs < 16383"
    by (rule spsc.push_cases [OF xs(1), of "log_record level now text", unfolded log_room]) (simp add: logger_log_def)
  show ?thesis by (rule exI [of _ ?lg], unfold len) (intro conjI stop wr line room, simp_all)
qed

theorem logger_complete_witness:
  "\<exists>s lg. log_reach None s \<and> ln_accepted s = [log_record LevelInfo 42 ''hi''] \<and> logger_stop (ln_logger s) = Some lg \<and>
     lg_written lg = ''[42] INFO  hi'' @ [CHR 0x0A]"
proof -
  define raw where "raw = \<lparr>sq_buffer = \<lambda>_. log_record LevelDebug 0 [], sq_write_pos = 5, sq_read_pos = 9\<rparr>"
  let ?s0 = "\<lparr>ln_logger = logger_start None (new_logger raw), ln_accepted = [], ln_printed = []\<rparr>"
  obtain lg where l: "logger_log LevelInfo 42 ''hi'' (ln_logger ?s0) = (True, lg)"
    by (simp add: logger_log_def logger_start_def new_logger_def spsc_init_def spsc_try_push_def kMask_def lg_kQueueDepth_def Let_def)
  let ?s = "?s0\<lparr>ln_logger := lg, ln_accepted := [log_record LevelInfo 42 ''hi'']\<rparr>"
  have reach: "log_reach None ?s" using log_reach.step [OF log_reach.start log_step.logs [OF l]] by simp
  have "NUL \<notin> set ''hi''" by (simp add: NUL_def)
  from logger_complete [OF reach this, of LevelInfo 42] obtain l2
    where l2: "logger_stop (ln_logger ?s) = Some l2" "lg_written l2 = log_line (log_record LevelInfo 42 ''hi'')"
      "log_line (log_record LevelInfo 42 ''hi'') = ''['' @ decimal (unat (42 :: u64)) @ ''] '' @ level_str LevelInfo @ '' '' @ take 191 ''hi'' @ [CHR 0x0A]"
    by auto
  have "decimal (unat (42 :: u64)) = ''42''" by code_simp
  then have "lg_written l2 = ''[42] INFO  hi'' @ [CHR 0x0A]" using l2 by (simp add: level_str_def)
  then show ?thesis using reach l2(1) by (intro exI [of _ ?s] exI [of _ l2]) simp
qed

end
