(* ===== verification/Id_Source.thy ===== *)
theory Id_Source
  imports Book_Theorems
begin

text \<open>
  Order flows that number their orders.  The trace tool and the benchmarks all draw a stream of book operations from a generator
  that gives every new order the next id of a counter.  The locale \<open>id_source\<close> is that contract; from it alone
  follows that the stream uses no id twice, so that the book computes on it what the reference book computes.
\<close>

definition add_ids :: "BookOp list \<Rightarrow> OrderId list" where
  "add_ids ops = concat (map (\<lambda>op. case op of AddOp od \<Rightarrow> [o_id od] | _ \<Rightarrow> []) ops)"

lemma add_ids_simps [simp]: "add_ids [] = []" "add_ids (AddOp od # ops) = o_id od # add_ids ops"
  "add_ids (CancelOp x # ops) = add_ids ops" "add_ids (ModifyOp x n # ops) = add_ids ops" "add_ids (ops @ ops') = add_ids ops @ add_ids ops'"
  by (simp_all add: add_ids_def)

lemma distinct_ops_fresh:
  "distinct (add_ids ops) \<Longrightarrow> set (ref_ids rb) \<inter> set (add_ids ops) = {} \<Longrightarrow> ops_fresh ops rb"
proof (induction ops arbitrary: rb)
  case (Cons op ops)
  obtain ok rb' fs where r: "ref_step op rb = (ok, rb', fs)" by (metis prod_cases3)
  have "op_fresh op rb" using Cons.prems(2) by (cases op) (auto simp: op_fresh_def)
  moreover have "ops_fresh ops rb'"
    using Cons.prems ref_step_ids [OF r] by (intro Cons.IH) (cases op; auto)+
  ultimately show ?case using r by simp
qed simp

lemma empty_ref_ids [simp]: "ref_ids \<lparr>rb_bids = [], rb_asks = []\<rparr> = []"
  by (simp add: ref_ids_def)

text \<open>A new book, given operations that use no id twice, does what the reference book does.\<close>

lemma new_book_run:
  assumes "distinct (add_ids ops)"
  obtains outs b where "run_ops book_step ops (new_book sy True raw) = Some (outs, b)" "book_inv_unique b"
    "ref_run ops \<lparr>rb_bids = [], rb_asks = []\<rparr> = (map (\<lambda>(ok, rs). (ok, map report_fill rs)) outs, abs_book b)"
proof -
  have "book_inv_unique (new_book sy True raw) \<and> ob_match_cb (new_book sy True raw)"
    using new_book_unique by (simp add: new_book_def)
  moreover have "ops_fresh ops (abs_book (new_book sy True raw))"
    using assms by (intro distinct_ops_fresh) (simp_all add: abs_new_book)
  ultimately show thesis using obook.run_refines [of "new_book sy True raw" ops] that by (auto simp: abs_new_book)
qed

locale id_source =
  fixes turn :: "'s \<Rightarrow> BookOp \<times> 's"
    and next_id :: "'s \<Rightarrow> OrderId"
  assumes issue: "turn s = (AddOp od, s') \<Longrightarrow> o_id od = next_id s \<and> next_id s' = next_id s + 1"
    and keep: "turn s = (op, s') \<Longrightarrow> add_ids [op] = [] \<Longrightarrow> next_id s' = next_id s"
begin

primrec stream :: "nat \<Rightarrow> 's \<Rightarrow> BookOp list" where
  "stream 0 s = []"
| "stream (Suc n) s = fst (turn s) # stream n (snd (turn s))"

lemma stream_ids:
  "n = 0 \<or> unat (next_id s) + n \<le> 2 ^ 64 \<Longrightarrow>
     distinct (add_ids (stream n s)) \<and> (\<forall>x \<in> set (add_ids (stream n s)). unat (next_id s) \<le> unat x)"
proof (induction n arbitrary: s)
  case (Suc n)
  obtain op s' where t: "turn s = (op, s')" by fastforce
  show ?case
  proof (cases op)
    case (AddOp od)
    then have i: "o_id od = next_id s" "next_id s' = next_id s + 1" using issue t by auto
    show ?thesis
    proof (cases "n = 0")
      case False
      then have "unat (next_id s) + 1 < 2 ^ 64" using Suc.prems by simp
      then have nx: "unat (next_id s') = unat (next_id s) + 1" using i(2) by (simp add: unat_word_ariths)
      have "n = 0 \<or> unat (next_id s') + n \<le> 2 ^ 64" unfolding nx using Suc.prems by simp
      note IH = Suc.IH [OF this]
      moreover have "next_id s \<notin> set (add_ids (stream n s'))" using IH nx by fastforce
      ultimately show ?thesis using t AddOp i(1) nx by fastforce
    qed (use t AddOp i in simp)
  next
    case (CancelOp x)
    then have "next_id s' = next_id s" using keep t by simp
    then show ?thesis using Suc.IH [of s'] Suc.prems t CancelOp by auto
  next
    case (ModifyOp x q)
    then have "next_id s' = next_id s" using keep t by simp
    then show ?thesis using Suc.IH [of s'] Suc.prems t ModifyOp by auto
  qed
qed simp

end

end
