(* ===== verification/Trace_Tool.thy ===== *)
theory Trace_Tool
  imports Id_Source Byte_Codec
begin

text \<open>
  The deterministic replay harness \<^verbatim>\<open>tools/replay_trace.cpp\<close>: it records a random stream of events with the
  fills an order book produces for it, and later replays the stream and compares the fills byte for
  byte.  Files are a map from paths to bytes.  The generator \<^verbatim>\<open>std::mt19937_64\<close> is the stream \<open>rng\<close> of its
  draws.  \<open>raw\<close> is the indeterminate memory a new book starts from, different in every process.  Padding bytes of records are
  zero: the comment in the source relies on \<^verbatim>\<open>TraceFill f{}\<close> clearing them, which compilers do but the language does not
  ask for an aggregate.  Memory is unlimited, except that a vector cannot exceed its \<^verbatim>\<open>max_size\<close>.
\<close>

unbundle bit_operations_syntax

subsection \<open>Records\<close>

record ToolEvent =
  te_kind :: u8
  te_side :: u8
  te_type :: u8
  te_id :: u64
  te_price :: int
  te_qty :: u32
  te_account_id :: u32

record ToolFill =
  tf_aggr_id :: u64
  tf_passive_id :: u64
  tf_price :: int
  tf_qty :: u32

definition store_event :: "ToolEvent \<Rightarrow> u8 list" where
  "store_event e = [te_kind e, te_side e, te_type e, 0] @ replicate 4 0 @ put_le 8 (te_id e) @
     put_le 8 (word_of_int (te_price e) :: u64) @ put_le 4 (te_qty e) @ put_le 4 (te_account_id e)"

definition load_event :: "u8 list \<Rightarrow> ToolEvent" where
  "load_event bs = \<lparr>te_kind = get_le (bytes_at 0 1 bs), te_side = get_le (bytes_at 1 1 bs), te_type = get_le (bytes_at 2 1 bs),
     te_id = get_le (bytes_at 8 8 bs), te_price = sint (get_le (bytes_at 16 8 bs) :: u64),
     te_qty = get_le (bytes_at 24 4 bs), te_account_id = get_le (bytes_at 28 4 bs)\<rparr>"

definition store_fill :: "ToolFill \<Rightarrow> u8 list" where
  "store_fill f = put_le 8 (tf_aggr_id f) @ put_le 8 (tf_passive_id f) @ put_le 8 (word_of_int (tf_price f) :: u64) @
     put_le 4 (tf_qty f) @ replicate 4 0"

subsection \<open>Running a stream\<close>

definition tool_order :: "ToolEvent \<Rightarrow> Order" where
  "tool_order e = \<lparr>o_id = te_id e, o_price = te_price e, o_qty = te_qty e, o_qty_remaining = te_qty e, o_symbol = 1,
     o_side = (if te_side e = 0 then Buy else Sell), o_type = order_type_of_byte (te_type e), o_status = StatusNew,
     o_account_id = te_account_id e\<rparr>"

definition tool_on_match :: "ExecutionReport \<Rightarrow> ToolFill list" where
  "tool_on_match r = (if r_exec_type r = ExecFill \<or> r_exec_type r = ExecPartialFill
     then [\<lparr>tf_aggr_id = r_order_id r, tf_passive_id = r_contra_order_id r, tf_price = r_exec_price r, tf_qty = r_exec_qty r\<rparr>]
     else [])"

definition tool_step :: "ToolEvent \<Rightarrow> OrderBook \<Rightarrow> (OrderBook \<times> ToolFill list) option" where
  "tool_step e book = (
     if te_kind e = 0 then do {
       (_, book', rpts) \<leftarrow> add_order (tool_order e) book;
       Some (book', concat (map tool_on_match rpts)) }
     else if te_kind e = 1 then do { (_, book') \<leftarrow> cancel_order (te_id e) book; Some (book', []) }
     else do { (_, book') \<leftarrow> modify_order (te_id e) (te_qty e) book; Some (book', []) })"

primrec tool_loop :: "ToolEvent list \<Rightarrow> OrderBook \<Rightarrow> ToolFill list \<Rightarrow> ToolFill list option" where
  "tool_loop [] book out_fills = Some out_fills"
| "tool_loop (e # stream) book out_fills = do {
     (book', fs) \<leftarrow> tool_step e book;
     tool_loop stream book' (out_fills @ fs) }"

definition tool_run :: "OrderBook \<Rightarrow> ToolEvent list \<Rightarrow> ToolFill list option" where
  "tool_run raw stream = tool_loop stream (new_book 1 True raw) []"

subsection \<open>Generating a stream\<close>

text \<open>\<open>gs_k\<close> is the number of draws made so far.\<close>

record GenState =
  gs_k :: nat
  gs_live :: "u64 list"
  gs_next_id :: u64

definition gen_add :: "(nat \<Rightarrow> u64) \<Rightarrow> GenState \<Rightarrow> ToolEvent \<times> GenState" where
  "gen_add rng g = (
     let k = gs_k g;
         t = rng (k + 3) mod 100;
         ty = (if t < 80 then 0 else if t < 88 then 1 else if t < 95 then 2 else 3);
         tracked = rng (k + 4) mod 100 < 30;
         e = \<lparr>te_kind = 0,
              te_side = (if rng k AND 1 \<noteq> 0 then 0 else 1),
              te_type = ty,
              te_id = gs_next_id g,
              te_price = 100000000 + (uint (rng (k + 1) mod 41) - 20) * 10000,
              te_qty = ucast (1 + rng (k + 2) mod 500),
              te_account_id = (if tracked then ucast (1 + rng (k + 5) mod 8) else 0)\<rparr>
     in (e, \<lparr>gs_k = (if tracked then k + 6 else k + 5),
             gs_live = (if ty = 0 then gs_live g @ [gs_next_id g] else gs_live g),
             gs_next_id = gs_next_id g + 1\<rparr>))"

definition gen_event :: "(nat \<Rightarrow> u64) \<Rightarrow> GenState \<Rightarrow> ToolEvent \<times> GenState" where
  "gen_event rng g0 = (
     let roll = rng (gs_k g0) mod 100;
         g = g0\<lparr>gs_k := gs_k g0 + 1\<rparr>;
         pick = gs_live g ! unat (rng (gs_k g) mod of_nat (length (gs_live g)));
         blank = \<lparr>te_kind = 0, te_side = 0, te_type = 0, te_id = 0, te_price = 0, te_qty = 0, te_account_id = 0\<rparr>
     in if roll < 70 \<or> gs_live g = [] then gen_add rng g
        else if roll < 90 then (blank\<lparr>te_kind := 1, te_id := pick\<rparr>, g\<lparr>gs_k := gs_k g + 1\<rparr>)
        else (blank\<lparr>te_kind := 2, te_id := pick, te_qty := ucast (rng (gs_k g + 1) mod 800)\<rparr>, g\<lparr>gs_k := gs_k g + 2\<rparr>))"

primrec gen_stream :: "(nat \<Rightarrow> u64) \<Rightarrow> nat \<Rightarrow> GenState \<Rightarrow> ToolEvent list" where
  "gen_stream rng 0 g = []"
| "gen_stream rng (Suc n) g = (let (e, g') = gen_event rng g in e # gen_stream rng n g')"

subsection \<open>The commands\<close>

type_synonym Files = "string \<rightharpoonup> u8 list"

text \<open>A command ends with an exit code, in \<^verbatim>\<open>die\<close> with a message, or in an exception that nothing catches.\<close>

datatype ToolResult = ExitWith int Files | Died string | Terminated string

text \<open>\<^verbatim>\<open>std::vector<TraceEvent>::max_size()\<close>: the largest \<^verbatim>\<open>ptrdiff_t\<close> over the 32 bytes of an element.  \<^verbatim>\<open>reserve\<close> throws
  \<^verbatim>\<open>length_error\<close> beyond it.\<close>

definition vector_max_size :: nat where
  "vector_max_size = (2 ^ 63 - 1) div 32"

definition fills_path :: "string \<Rightarrow> string" where
  "fills_path path = path @ ''.fills''"

text \<open>\<open>writable\<close> says which paths \<^verbatim>\<open>fopen(path, "wb")\<close> can open.\<close>

definition cmd_record ::
  "(nat \<Rightarrow> u64) \<Rightarrow> u64 \<Rightarrow> string \<Rightarrow> (string \<Rightarrow> bool) \<Rightarrow> OrderBook \<Rightarrow> Files \<Rightarrow> ToolResult option" where
  "cmd_record rng num_events path writable raw fs = (
     if unat num_events > vector_max_size then Some (Terminated ''length_error'')
     else let stream = gen_stream rng (unat num_events) \<lparr>gs_k = 0, gs_live = [], gs_next_id = 1\<rparr>
     in do {
       fills \<leftarrow> tool_run raw stream;
       Some (
         if \<not> writable path then Died ''could not open trace file for writing''
         else let fs1 = fs(path \<mapsto> concat (map store_event stream))
         in if \<not> writable (fills_path path) then Died ''could not open fills file for writing''
         else ExitWith 0 (fs1(fills_path path \<mapsto> concat (map store_fill fills)))) })"

definition cmd_replay :: "string \<Rightarrow> OrderBook \<Rightarrow> Files \<Rightarrow> ToolResult option" where
  "cmd_replay path raw fs = (case fs path of None \<Rightarrow> Some (Died ''could not open trace file for reading'')
     | Some tb \<Rightarrow>
       if length tb mod 32 \<noteq> 0 then Some (Died ''trace file size is not a multiple of record size'')
       else let stream = map load_event (chunks 32 tb)
       in (case fs (fills_path path) of None \<Rightarrow> Some (Died ''could not open companion .fills file for reading'')
         | Some fb \<Rightarrow>
           if length fb mod 32 \<noteq> 0 then Some (Died ''fills file size is not a multiple of record size'')
           else let expected = chunks 32 fb
           in do {
             actual \<leftarrow> tool_run raw stream;
             let identical = (length actual = length expected \<and> concat (map store_fill actual) = concat expected);
             Some (ExitWith (if identical then 0 else 1) fs) }))"

text \<open>\<^verbatim>\<open>strtoull\<close> in base 10: white space, a sign, digits; out of range gives the largest value.\<close>

definition strtoull :: "string \<Rightarrow> u64" where
  "strtoull s = (
     let s1 = dropWhile (\<lambda>c. of_char c = (32 :: nat) \<or> of_char c \<in> {9..(13 :: nat)}) s;
         neg = (s1 \<noteq> [] \<and> List.hd s1 = CHR ''-'');
         s2 = (if s1 \<noteq> [] \<and> List.hd s1 \<in> {CHR ''-'', CHR ''+''} then tl s1 else s1);
         n = foldl (\<lambda>a c. a * 10 + (of_char c - 48)) (0 :: nat) (takeWhile (\<lambda>c. of_char c \<in> {48..(57 :: nat)}) s2)
     in if n \<ge> 2 ^ 64 then - 1 else if neg then - of_nat n else of_nat n)"

text \<open>\<open>mt19937_64 seed\<close> is the stream of draws of the generator seeded with \<open>seed\<close>.\<close>

definition tool_main :: "(u64 \<Rightarrow> nat \<Rightarrow> u64) \<Rightarrow> string list \<Rightarrow> (string \<Rightarrow> bool) \<Rightarrow> OrderBook \<Rightarrow> Files \<Rightarrow> ToolResult option" where
  "tool_main mt19937_64 argv writable raw fs = (
     if length argv \<ge> 2 \<and> argv ! 1 = ''record'' then
       if length argv \<noteq> 5 then Some (Died ''usage: replay_trace record <seed> <num_events> <trace_file>'')
       else cmd_record (mt19937_64 (strtoull (argv ! 2))) (strtoull (argv ! 3)) (argv ! 4) writable raw fs
     else if length argv \<ge> 2 \<and> argv ! 1 = ''replay'' then
       if length argv \<noteq> 3 then Some (Died ''usage: replay_trace replay <trace_file>'')
       else cmd_replay (argv ! 2) raw fs
     else Some (ExitWith 1 fs))"

lemma strtoull_examples: "strtoull ''2000'' = 2000" "strtoull '' +42x'' = 42" "strtoull ''-1'' = 2 ^ 64 - 1" "strtoull ''abc'' = 0"
  "strtoull ''99999999999999999999'' = 2 ^ 64 - 1"
  by (simp_all add: strtoull_def Let_def)

subsection \<open>Records round-trip\<close>

lemma length_store [simp]: "length (store_event e) = 32" "length (store_fill f) = 32"
  by (simp_all add: store_event_def store_fill_def)

lemma load_store_event: "in_int64 (te_price e) \<Longrightarrow> load_event (store_event e) = e"
proof -
  assume p: "in_int64 (te_price e)"
  have "bytes_at 0 1 (a # xs) = [a]" "bytes_at 1 1 (a # b # xs) = [b]" "bytes_at 2 1 (a # b # c # xs) = [c]" for a b c :: u8 and xs
    by (simp_all add: bytes_at_def numeral_2_eq_2)
  moreover have "bytes_at k n (a # b # c # d # replicate 4 0 @ xs) = bytes_at (k - 8) n xs" if "8 \<le> k" for a b c d :: u8 and k n xs
    using that by (simp add: bytes_at_def drop_Cons' eval_nat_numeral)
  ultimately show ?thesis using p by (simp add: load_event_def store_event_def)
qed

subsection \<open>A run is a sequence of book operations\<close>

definition event_op :: "ToolEvent \<Rightarrow> BookOp" where
  "event_op e = (if te_kind e = 0 then AddOp (tool_order e) else if te_kind e = 1 then CancelOp (te_id e)
     else ModifyOp (te_id e) (te_qty e))"

definition fill_record :: "Fill \<Rightarrow> ToolFill" where
  "fill_record f = \<lparr>tf_aggr_id = f_aggr f, tf_passive_id = f_passive f, tf_price = f_px f, tf_qty = f_qty f\<rparr>"

lemma fill_reports_match: "concat (map tool_on_match (fill_reports sy od n fs)) = map fill_record fs"
  by (induction fs arbitrary: n) (auto simp: tool_on_match_def fill_record_def)

lemma tool_step_refines:
  assumes inv: "book_inv_unique b" "ob_match_cb b" and fresh: "op_fresh (event_op e) (abs_book b)"
    and ref: "ref_step (event_op e) (abs_book b) = (ok, rb', fs)"
  shows "\<exists>b'. tool_step e b = Some (b', map fill_record fs) \<and> book_inv_unique b' \<and> ob_match_cb b' \<and> abs_book b' = rb'"
proof -
  obtain b' rs where st: "book_step (event_op e) b = Some (ok, b', rs)" "book_inv_unique b'" "ob_match_cb b'" "abs_book b' = rb'"
    using obook.step_refines [of b "event_op e"] inv fresh ref by auto
  show ?thesis
  proof (cases "te_kind e = 0")
    case True
    have ra: "ref_add kMaxLevels kMaxOrders (tool_order e) (abs_book b) = (ok, rb', fs)"
      using ref True by (simp add: event_op_def ref_step_def)
    obtain b1 where "add_order (tool_order e) b = Some (ok, b1, emitted b (tool_order e) (o_qty_remaining (tool_order e)) fs)"
      using book_inv_unique_inv [OF inv(1)] ra by (rule add_order_result)
    moreover have "add_order (tool_order e) b = Some (ok, b', rs)" using st(1) True by (simp add: event_op_def book_step_def)
    ultimately have "add_order (tool_order e) b = Some (ok, b', fill_reports (ob_symbol b) (tool_order e) (o_qty_remaining (tool_order e)) fs)"
      using inv(2) by (simp add: emitted_def)
    then show ?thesis using st True by (simp add: tool_step_def fill_reports_match)
  next
    case False
    have "fs = []" using ref False by (auto simp: event_op_def ref_step_def split: prod.splits if_splits)
    then show ?thesis using st False
      by (auto simp: tool_step_def event_op_def book_step_def split: if_splits)
  qed
qed

lemma tool_loop_refines:
  assumes "book_inv_unique b" "ob_match_cb b" "ops_fresh (map event_op es) (abs_book b)"
  shows "tool_loop es b acc = Some (acc @ map fill_record (concat (map snd (fst (ref_run (map event_op es) (abs_book b))))))"
  using assms
proof (induction es arbitrary: b acc)
  case (Cons e es)
  obtain ok rb' fs where ref: "ref_step (event_op e) (abs_book b) = (ok, rb', fs)" by (metis prod_cases3)
  have fresh: "op_fresh (event_op e) (abs_book b)" "ops_fresh (map event_op es) rb'" using Cons.prems(3) ref by simp_all
  obtain b' where b': "tool_step e b = Some (b', map fill_record fs)" "book_inv_unique b'" "ob_match_cb b'" "abs_book b' = rb'"
    using tool_step_refines [OF Cons.prems(1,2) fresh(1) ref] by blast
  from Cons.IH [OF b'(2,3)] fresh(2) b' ref show ?case by (simp add: case_prod_unfold Let_def)
qed simp

text \<open>The fills of a stream, as the reference book gives them: they do not depend on the memory.\<close>

definition stream_fills :: "ToolEvent list \<Rightarrow> ToolFill list" where
  "stream_fills es = map fill_record (concat (map snd (fst (ref_run (map event_op es) \<lparr>rb_bids = [], rb_asks = []\<rparr>))))"

lemma tool_run_fills:
  "ops_fresh (map event_op es) \<lparr>rb_bids = [], rb_asks = []\<rparr> \<Longrightarrow> tool_run raw es = Some (stream_fills es)"
  using tool_loop_refines [OF new_book_unique, of 1 True raw es "[]"]
  by (simp add: tool_run_def stream_fills_def abs_new_book, simp add: new_book_def)

subsection \<open>Recorded streams\<close>

definition event_ok :: "ToolEvent \<Rightarrow> bool" where
  "event_ok e = in_int64 (te_price e)"

lemma gen_add_shape:
  "gen_add rng g = (e, g') \<Longrightarrow> te_kind e = 0 \<and> te_id e = gs_next_id g \<and> gs_next_id g' = gs_next_id g + 1 \<and> event_ok e"
proof -
  have "in_int64 (100000000 + (x - 20) * 10000)" if "0 \<le> x" "x < 41" for x :: int
    using that by (auto simp: in_int64_def)
  moreover have "uint (w mod 41) < 41" "0 \<le> uint (w mod 41)" for w :: u64 by (simp_all add: uint_mod)
  ultimately have "in_int64 (100000000 + (uint (w mod 41) - 20) * 10000)" for w :: u64 by blast
  then show "gen_add rng g = (e, g') \<Longrightarrow> ?thesis" by (auto simp: gen_add_def event_ok_def Let_def)
qed

lemma gen_event_shape:
  assumes "gen_event rng g = (e, g')"
  shows "event_ok e \<and> (if te_kind e = 0 then te_id e = gs_next_id g \<and> gs_next_id g' = gs_next_id g + 1
     else gs_next_id g' = gs_next_id g)"
proof (cases "rng (gs_k g) mod 100 < 70 \<or> gs_live g = []")
  case True
  then have "gen_add rng (g\<lparr>gs_k := gs_k g + 1\<rparr>) = (e, g')" using assms by (simp add: gen_event_def Let_def)
  from gen_add_shape [OF this] show ?thesis by simp
next
  case False
  then show ?thesis using assms by (auto simp: gen_event_def Let_def event_ok_def in_int64_def split: if_splits)
qed

interpretation tool: id_source "\<lambda>g. apfst event_op (gen_event rng g)" gs_next_id for rng
proof
  fix g g' :: GenState and od
  assume "apfst event_op (gen_event rng g) = (AddOp od, g')"
  then obtain e where e: "gen_event rng g = (e, g')" "event_op e = AddOp od" by (cases "gen_event rng g") auto
  have "te_kind e = 0" "od = tool_order e" using e(2) by (auto simp: event_op_def split: if_splits)
  then show "o_id od = gs_next_id g \<and> gs_next_id g' = gs_next_id g + 1"
    using gen_event_shape [OF e(1)] by (simp add: tool_order_def)
next
  fix g g' :: GenState and op
  assume "apfst event_op (gen_event rng g) = (op, g')" "add_ids [op] = []"
  then obtain e where e: "gen_event rng g = (e, g')" "add_ids [event_op e] = []" by (cases "gen_event rng g") auto
  then have "te_kind e \<noteq> 0" by (auto simp: event_op_def)
  then show "gs_next_id g' = gs_next_id g" using gen_event_shape [OF e(1)] by simp
qed

lemma gen_stream_ops: "map event_op (gen_stream rng n g) = tool.stream rng n g"
  by (induction n arbitrary: g) (simp_all add: case_prod_unfold Let_def)

lemma gen_stream_ok: "\<forall>e \<in> set (gen_stream rng n g). event_ok e"
proof -
  have "event_ok (fst (gen_event rng g))" for g using gen_event_shape [of rng g] by (metis prod.collapse)
  then show ?thesis by (induction n arbitrary: g) (simp_all add: case_prod_unfold Let_def)
qed

definition recorded_stream :: "(nat \<Rightarrow> u64) \<Rightarrow> u64 \<Rightarrow> ToolEvent list" where
  "recorded_stream rng num_events = gen_stream rng (unat num_events) \<lparr>gs_k = 0, gs_live = [], gs_next_id = 1\<rparr>"

lemma recorded_stream_ok:
  "ops_fresh (map event_op (recorded_stream rng n)) \<lparr>rb_bids = [], rb_asks = []\<rparr>"
  "\<forall>e \<in> set (recorded_stream rng n). event_ok e"
proof -
  let ?g = "\<lparr>gs_k = 0, gs_live = [], gs_next_id = 1\<rparr>"
  have "unat (gs_next_id ?g) + unat n \<le> 2 ^ 64" using unsigned_less [of n, where 'a = nat] by simp
  then have "distinct (add_ids (tool.stream rng (unat n) ?g))" using tool.stream_ids by blast
  then show "ops_fresh (map event_op (recorded_stream rng n)) \<lparr>rb_bids = [], rb_asks = []\<rparr>"
    by (intro distinct_ops_fresh) (simp_all add: recorded_stream_def gen_stream_ops)
  show "\<forall>e \<in> set (recorded_stream rng n). event_ok e" using gen_stream_ok by (simp add: recorded_stream_def)
qed

lemma load_stream: "\<forall>e \<in> set es. event_ok e \<Longrightarrow> map load_event (chunks 32 (concat (map store_event es))) = es"
  by (simp add: chunks_concat map_idI load_store_event event_ok_def)

lemma fills_path_neq: "fills_path p \<noteq> p"
  by (simp add: fills_path_def)

lemma length_store_all:
  "length (concat (map store_event es)) mod 32 = 0" "length (concat (map store_fill fs)) mod 32 = 0"
proof -
  have "length (concat (map store_event es)) = 32 * length es" "length (concat (map store_fill fs)) = 32 * length fs"
    by (induction es, simp_all) (induction fs, simp_all)
  then show "length (concat (map store_event es)) mod 32 = 0" "length (concat (map store_fill fs)) mod 32 = 0" by simp_all
qed

subsection \<open>Properties\<close>

lemma record_then_replay:
  assumes "unat num_events \<le> vector_max_size"
  shows "\<exists>fs'. cmd_record rng num_events path (\<lambda>_. True) raw1 fs = Some (ExitWith 0 fs') \<and>
     cmd_replay path raw2 fs' = Some (ExitWith 0 fs')"
proof -
  let ?s = "recorded_stream rng num_events"
  note ok = recorded_stream_ok [of rng num_events]
  let ?fs' = "fs(path \<mapsto> concat (map store_event ?s), fills_path path \<mapsto> concat (map store_fill (stream_fills ?s)))"
  have "cmd_record rng num_events path (\<lambda>_. True) raw1 fs = Some (ExitWith 0 ?fs')"
    using tool_run_fills [OF ok(1), of raw1] assms by (simp add: cmd_record_def Let_def flip: recorded_stream_def)
  moreover have "chunks 32 (concat (map store_fill (stream_fills ?s))) = map store_fill (stream_fills ?s)"
    by (rule chunks_concat) auto
  then have "cmd_replay path raw2 ?fs' = Some (ExitWith 0 ?fs')"
    using tool_run_fills [OF ok(1), of raw2] fills_path_neq [of path] load_stream [OF ok(2)] length_store_all
    by (simp add: cmd_replay_def Let_def)
  ultimately show ?thesis by blast
qed

text \<open>C29. A recorded trace replays.  For every generator and whatever the words given for seed and number of events,
  running the tool with \<^verbatim>\<open>record seed num_events path\<close> ends with exit code 0, and running it with \<^verbatim>\<open>replay path\<close> on the files
  this leaves passes, even though the two runs start from books whose uninitialised memory differs: the fills
  depend on the events alone.  The exception are numbers of events beyond the \<^verbatim>\<open>max_size\<close> of a vector, such as that of the
  word \<^verbatim>\<open>-1\<close>, which end the tool with \<^verbatim>\<open>length_error\<close>.\<close>

theorem record_replay_passes:
  "if unat (strtoull num_events) \<le> vector_max_size
   then \<exists>fs'. tool_main mt [prog, ''record'', seed, num_events, path] (\<lambda>_. True) raw1 fs = Some (ExitWith 0 fs') \<and>
     tool_main mt [prog, ''replay'', path] writable raw2 fs' = Some (ExitWith 0 fs')
   else tool_main mt [prog, ''record'', seed, num_events, path] (\<lambda>_. True) raw1 fs = Some (Terminated ''length_error'')"
  using record_then_replay [of "strtoull num_events" "mt (strtoull seed)" path raw1 fs raw2]
  by (simp add: tool_main_def cmd_record_def)

theorem record_replay_passes_witness:
  "let mt = \<lambda>seed k. seed + of_nat k in
   (\<exists>fs'. tool_main mt [''x'', ''record'', ''1'', ''2000'', ''t''] (\<lambda>_. True) blank_book Map.empty = Some (ExitWith 0 fs') \<and>
     tool_main mt [''x'', ''replay'', ''t''] (\<lambda>_. False) blank_book fs' = Some (ExitWith 0 fs')) \<and>
   tool_main mt [''x'', ''record'', ''1'', ''-1'', ''t''] (\<lambda>_. True) blank_book Map.empty = Some (Terminated ''length_error'')"
proof -
  let ?mt = "\<lambda>seed k. seed + of_nat k :: u64"
  have "unat (strtoull ''2000'') \<le> vector_max_size" "\<not> unat (strtoull ''-1'') \<le> vector_max_size"
    by (simp_all add: strtoull_examples vector_max_size_def)
  then show ?thesis
    using record_replay_passes [of "''2000''" ?mt "''x''" "''1''" "''t''" blank_book Map.empty "\<lambda>_. False" blank_book]
      record_replay_passes [of "''-1''" ?mt "''x''" "''1''" "''t''" blank_book Map.empty "\<lambda>_. False" blank_book]
    by (simp only: Let_def if_True if_False simp_thms)
qed

text \<open>A sell order and a buy order that takes part of it.\<close>

definition sample_events :: "ToolEvent list" where
  "sample_events = [\<lparr>te_kind = 0, te_side = 1, te_type = 0, te_id = 1, te_price = 100, te_qty = 10, te_account_id = 0\<rparr>,
     \<lparr>te_kind = 0, te_side = 0, te_type = 0, te_id = 2, te_price = 100, te_qty = 4, te_account_id = 0\<rparr>]"

lemma sample_events_ok:
  "ops_fresh (map event_op sample_events) \<lparr>rb_bids = [], rb_asks = []\<rparr>"
  "stream_fills sample_events = [\<lparr>tf_aggr_id = 2, tf_passive_id = 1, tf_price = 100, tf_qty = 4\<rparr>]"
  "map load_event (chunks 32 (concat (map store_event sample_events))) = sample_events"
proof -
  show "ops_fresh (map event_op sample_events) \<lparr>rb_bids = [], rb_asks = []\<rparr>"
    by (simp add: sample_events_def event_op_def tool_order_def op_fresh_def ref_ids_def ref_eval)
  show "stream_fills sample_events = [\<lparr>tf_aggr_id = 2, tf_passive_id = 1, tf_price = 100, tf_qty = 4\<rparr>]"
    by (simp add: sample_events_def stream_fills_def fill_record_def event_op_def tool_order_def order_type_of_byte_def ref_eval)
  show "map load_event (chunks 32 (concat (map store_event sample_events))) = sample_events"
    by (rule load_stream) (simp add: sample_events_def event_ok_def in_int64_def)
qed

text \<open>C30. What a pass means.  Replaying a file of whole records, with ids not reused while they rest, ends
  with exit code 0 exactly when the companion file holds, byte for byte, the fills that the reference
  book produces for the recorded events, and with exit code 1 otherwise.\<close>

theorem replay_verdict:
  assumes "fs path = Some tb" "length tb mod 32 = 0" "fs (fills_path path) = Some fb" "length fb mod 32 = 0"
    "ops_fresh (map event_op (map load_event (chunks 32 tb))) \<lparr>rb_bids = [], rb_asks = []\<rparr>"
  shows "cmd_replay path raw fs =
     Some (ExitWith (if fb = concat (map store_fill (stream_fills (map load_event (chunks 32 tb)))) then 0 else 1) fs)"
proof -
  let ?a = "stream_fills (map load_event (chunks 32 tb))"
  have "length ?a = length (chunks 32 fb)" if "fb = concat (map store_fill ?a)"
  proof -
    have "chunks 32 fb = map store_fill ?a" unfolding that by (rule chunks_concat) auto
    then show ?thesis by simp
  qed
  then show ?thesis
    using tool_run_fills [OF assms(5), of raw] assms(1-4) concat_chunks [of 32 fb] by (auto simp: cmd_replay_def Let_def)
qed

theorem replay_verdict_witness:
  "let tb = concat (map store_event sample_events);
       good = [''t'' \<mapsto> tb, ''t.fills'' \<mapsto> store_fill \<lparr>tf_aggr_id = 2, tf_passive_id = 1, tf_price = 100, tf_qty = 4\<rparr>];
       bad = [''t'' \<mapsto> tb, ''t.fills'' \<mapsto> []]
   in cmd_replay ''t'' blank_book good = Some (ExitWith 0 good) \<and> cmd_replay ''t'' blank_book bad = Some (ExitWith 1 bad)"
proof -
  let ?tb = "concat (map store_event sample_events)" and ?f = "\<lparr>tf_aggr_id = 2, tf_passive_id = 1, tf_price = 100, tf_qty = 4\<rparr>"
  let ?good = "[''t'' \<mapsto> ?tb, ''t.fills'' \<mapsto> store_fill ?f]" and ?bad = "[''t'' \<mapsto> ?tb, ''t.fills'' \<mapsto> []]"
  note len = length_store_all(1) [of sample_events]
  have fresh: "ops_fresh (map event_op (map load_event (chunks 32 ?tb))) \<lparr>rb_bids = [], rb_asks = []\<rparr>"
    unfolding sample_events_ok(3) by (rule sample_events_ok(1))
  have "store_fill ?f \<noteq> []" by (simp flip: length_greater_0_conv)
  then show ?thesis
    using replay_verdict [of ?good "''t''" ?tb "store_fill ?f", OF _ len _ _ fresh] replay_verdict [of ?bad "''t''" ?tb "[]", OF _ len _ _ fresh]
    unfolding sample_events_ok(3) by (simp add: fills_path_def sample_events_ok(2))
qed

end
