(* ===== verification/Order_Flow_Replay.thy ===== *)
theory Order_Flow_Replay
  imports Matching_Engine Latency_Histogram Byte_Codec
begin

text \<open>
  Trace files and their replay into the engine (\<^verbatim>\<open>core/replay.hpp\<close>): \<^verbatim>\<open>TraceWriter\<close> and \<^verbatim>\<open>OrderFlowReplay\<close>.
  A file is its bytes.  While the replay runs, the engine thread runs too and time passes: \<open>env k\<close> is what
  the engine thread did to the engine before the \<open>k\<close>-th call made by the replay, and \<open>clock\<close>
  the readings of \<^verbatim>\<open>CLOCK_MONOTONIC\<close>, numbered by the calls made so far; both are parameters.  Printing is left out.
\<close>

subsection \<open>Trace records\<close>

record TraceHeader =
  thd_magic :: u32
  thd_version :: u16
  thd_symbol_count :: u16
  thd_event_count :: u64
  thd_start_ts_ns :: u64

record TraceEvent =
  ev_timestamp_ns :: u64
  ev_seq :: u64
  ev_order_id :: u64
  ev_price :: int
  ev_qty :: u32
  ev_symbol :: u16
  ev_side :: u8
  ev_order_type :: u8
  ev_msg_type :: u8

definition store_header :: "TraceHeader \<Rightarrow> u8 list" where
  "store_header h = put_le 4 (thd_magic h) @ put_le 2 (thd_version h) @ put_le 2 (thd_symbol_count h) @
     put_le 8 (thd_event_count h) @ put_le 8 (thd_start_ts_ns h) @ replicate 8 0"

definition load_header_rec :: "u8 list \<Rightarrow> TraceHeader" where
  "load_header_rec bs = \<lparr>thd_magic = get_le (bytes_at 0 4 bs), thd_version = get_le (bytes_at 4 2 bs),
     thd_symbol_count = get_le (bytes_at 6 2 bs), thd_event_count = get_le (bytes_at 8 8 bs),
     thd_start_ts_ns = get_le (bytes_at 16 8 bs)\<rparr>"

definition store_trace_event :: "TraceEvent \<Rightarrow> u8 list" where
  "store_trace_event e = put_le 8 (ev_timestamp_ns e) @ put_le 8 (ev_seq e) @ put_le 8 (ev_order_id e) @
     put_le 8 (word_of_int (ev_price e) :: u64) @ put_le 4 (ev_qty e) @ put_le 2 (ev_symbol e) @
     [ev_side e] @ [ev_order_type e] @ [ev_msg_type e] @ replicate 7 0"

definition load_trace_event :: "u8 list \<Rightarrow> TraceEvent" where
  "load_trace_event bs = \<lparr>ev_timestamp_ns = get_le (bytes_at 0 8 bs), ev_seq = get_le (bytes_at 8 8 bs),
     ev_order_id = get_le (bytes_at 16 8 bs), ev_price = sint (get_le (bytes_at 24 8 bs) :: u64),
     ev_qty = get_le (bytes_at 32 4 bs), ev_symbol = get_le (bytes_at 36 2 bs), ev_side = get_le (bytes_at 38 1 bs),
     ev_order_type = get_le (bytes_at 39 1 bs), ev_msg_type = get_le (bytes_at 40 1 bs)\<rparr>"

definition trace_event_to_msg :: "TraceEvent \<Rightarrow> MarketDataMsg" where
  "trace_event_to_msg e = \<lparr>m_seq = ev_seq e, m_order_id = ev_order_id e, m_price = ev_price e, m_qty = ev_qty e,
     m_symbol = ev_symbol e, m_side = (if ev_side e = 0 then Buy else Sell),
     m_msg_type = msg_type_of_byte (ev_msg_type e), m_order_type = order_type_of_byte (ev_order_type e)\<rparr>"

definition msg_to_trace_event :: "u64 \<Rightarrow> MarketDataMsg \<Rightarrow> TraceEvent" where
  "msg_to_trace_event ts_ns m = \<lparr>ev_timestamp_ns = ts_ns, ev_seq = m_seq m, ev_order_id = m_order_id m,
     ev_price = m_price m, ev_qty = m_qty m, ev_symbol = m_symbol m, ev_side = (if m_side m = Buy then 0 else 1),
     ev_order_type = order_type_byte (m_order_type m), ev_msg_type = msg_type_byte (m_msg_type m)\<rparr>"

definition kTraceMagic :: u32 where "kTraceMagic = 0x54524143"

subsection \<open>Writing\<close>

text \<open>\<open>tw_file\<close> is \<open>None\<close> when \<^verbatim>\<open>fopen\<close> failed.\<close>

record TraceWriter =
  tw_file :: "u8 list option"
  tw_event_count :: u64

definition writer_open :: "bool \<Rightarrow> TraceWriter" where
  "writer_open opened = \<lparr>tw_file = (if opened then Some (store_header \<lparr>thd_magic = kTraceMagic, thd_version = 1,
     thd_symbol_count = 0, thd_event_count = 0, thd_start_ts_ns = 0\<rparr>) else None), tw_event_count = 0\<rparr>"

definition writer_write :: "u64 \<Rightarrow> MarketDataMsg \<Rightarrow> TraceWriter \<Rightarrow> bool \<times> TraceWriter" where
  "writer_write ts_ns msg w = (case tw_file w of None \<Rightarrow> (False, w)
     | Some bs \<Rightarrow> (True, w\<lparr>tw_file := Some (bs @ store_trace_event (msg_to_trace_event ts_ns msg)),
         tw_event_count := tw_event_count w + 1\<rparr>))"

text \<open>The destructor overwrites the eight bytes of the event count.\<close>

definition writer_close :: "TraceWriter \<Rightarrow> u8 list option" where
  "writer_close w = map_option (\<lambda>bs. take 8 bs @ put_le 8 (tw_event_count w) @ drop 16 bs) (tw_file w)"

subsection \<open>Replaying\<close>

datatype Mode = MaxSpeed | WallClock | Throttled

record Config =
  cfg_mode :: Mode
  cfg_throttle_mps :: u64
  cfg_warmup_events :: u32

record ReplayResult =
  rr_events_replayed :: u64
  rr_events_skipped :: u64
  rr_matches_generated :: u64
  rr_latency :: Histogram

datatype replay_fault = DivisionByZero

text \<open>Timing control: the \<^verbatim>\<open>tv_nsec\<close> of the sleep requested, if any; \<^verbatim>\<open>tv_sec\<close> is always 0.\<close>

definition pace :: "Config \<Rightarrow> nat \<Rightarrow> u64 \<Rightarrow> u64 \<Rightarrow> u64 \<Rightarrow> u64 \<Rightarrow> replay_fault + u64 option" where
  "pace cfg i ts first_ts wall_start now = (
     if cfg_mode cfg = WallClock \<and> i > 0 then
       let target_elapsed = ts - first_ts; actual_elapsed = now - wall_start
       in Inr (if target_elapsed > actual_elapsed then Some (target_elapsed - actual_elapsed) else None)
     else if cfg_mode cfg = Throttled then
       if cfg_throttle_mps cfg = 0 then Inl DivisionByZero
       else let min_gap_ns = 1000000000 div cfg_throttle_mps cfg;
                expected = wall_start + of_nat i * min_gap_ns
            in Inr (if expected > now then Some (expected - now) else None)
     else Inr None)"

text \<open>\<^verbatim>\<open>nanosleep\<close> fails with \<^verbatim>\<open>EINVAL\<close>, without sleeping, unless \<^verbatim>\<open>tv_nsec\<close> is below a second.\<close>

definition nanosleep_valid :: "u64 \<Rightarrow> bool" where
  "nanosleep_valid tv_nsec = (tv_nsec < 1000000000)"

type_synonym Env = "nat \<Rightarrow> MatchingEngine \<Rightarrow> MatchingEngine"

text \<open>\<open>rs_polled\<close> are the reports that the calls of \<^verbatim>\<open>poll_report\<close> have returned.  Between two calls on the engine the clock is read at
  most three times; reading \<open>3 * k + j\<close> is one of those before call \<open>k\<close>.\<close>

record ReplayState =
  rs_engine :: MatchingEngine
  rs_calls :: nat
  rs_result :: ReplayResult
  rs_first_ts :: u64
  rs_polled :: "ExecutionReport list"

text \<open>At most \<open>n\<close> attempts to submit.\<close>

primrec submit_spin :: "nat \<Rightarrow> Env \<Rightarrow> MarketDataMsg \<Rightarrow> ReplayState \<Rightarrow> bool \<times> ReplayState" where
  "submit_spin 0 env msg s = (False, s)"
| "submit_spin (Suc n) env msg s = (
     let (ok, me) = engine_submit msg (env (rs_calls s) (rs_engine s));
         s' = s\<lparr>rs_engine := me, rs_calls := rs_calls s + 1\<rparr>
     in if ok then (True, s') else submit_spin n env msg s')"

definition poll_once :: "Env \<Rightarrow> ReplayState \<Rightarrow> bool \<times> ReplayState" where
  "poll_once env s = (let (r, me) = poll_report (env (rs_calls s) (rs_engine s))
     in (r \<noteq> None, s\<lparr>rs_engine := me, rs_calls := rs_calls s + 1,
          rs_polled := rs_polled s @ (case r of None \<Rightarrow> [] | Some rpt \<Rightarrow> [rpt])\<rparr>))"

definition replay_event :: "Config \<Rightarrow> Env \<Rightarrow> (nat \<Rightarrow> u64) \<Rightarrow> u64 \<Rightarrow> nat \<Rightarrow> TraceEvent \<Rightarrow> ReplayState \<Rightarrow> replay_fault + ReplayState" where
  "replay_event cfg env clock wall_start i ev s0 = (
     let s = (if i = 0 then s0\<lparr>rs_first_ts := ev_timestamp_ns ev\<rparr> else s0);
         msg = trace_event_to_msg ev
     in case pace cfg i (ev_timestamp_ns ev) (rs_first_ts s) wall_start (clock (3 * rs_calls s + 1)) of Inl e \<Rightarrow> Inl e
       | Inr _ \<Rightarrow>
         (let t0 = clock (3 * rs_calls s + 2);
              (submitted, s1) = submit_spin 1000 env msg s;
              res = rs_result s1
          in if \<not> submitted then Inr (s1\<lparr>rs_result := res\<lparr>rr_events_skipped := rr_events_skipped res + 1\<rparr>\<rparr>)
             else
               let (got, s2) = (if i \<ge> unat (cfg_warmup_events cfg) then poll_once env s1 else (False, s1));
                   res2 = (if got then res\<lparr>rr_latency := hist_record (clock (3 * rs_calls s2) - t0) (rr_latency res),
                             rr_matches_generated := rr_matches_generated res + 1\<rparr> else res)
               in Inr (s2\<lparr>rs_result := res2\<lparr>rr_events_replayed := rr_events_replayed res2 + 1\<rparr>\<rparr>)))"

primrec replay_loop :: "Config \<Rightarrow> Env \<Rightarrow> (nat \<Rightarrow> u64) \<Rightarrow> u64 \<Rightarrow> nat \<Rightarrow> TraceEvent list \<Rightarrow> ReplayState \<Rightarrow> replay_fault + ReplayState" where
  "replay_loop cfg env clock wall_start i [] s = Inr s"
| "replay_loop cfg env clock wall_start i (ev # evs) s = (case replay_event cfg env clock wall_start i ev s of Inl e \<Rightarrow> Inl e
     | Inr s' \<Rightarrow> replay_loop cfg env clock wall_start (i + 1) evs s')"

text \<open>\<^verbatim>\<open>while (engine_.poll_report(rpt)) ++result.matches_generated;\<close>\<close>

partial_function (option) drain_reports :: "Env \<Rightarrow> ReplayState \<Rightarrow> ReplayState option" where
  "drain_reports env s = (let (got, s') = poll_once env s; res = rs_result s'
     in if got then drain_reports env (s'\<lparr>rs_result := res\<lparr>rr_matches_generated := rr_matches_generated res + 1\<rparr>\<rparr>)
        else Some s')"

text \<open>The events that reading the file gives: as many as the header says or as whole records follow.\<close>

definition trace_events :: "u8 list \<Rightarrow> TraceEvent list option" where
  "trace_events file = (
     if length file < 32 then None
     else let hdr = load_header_rec (take 32 file)
     in if thd_magic hdr \<noteq> kTraceMagic then None
     else Some (map load_trace_event (take (unat (thd_event_count hdr)) (chunks 48 (drop 32 file)))))"

text \<open>The last component of the result are the reports that were polled.\<close>

definition replay :: "Config \<Rightarrow> Env \<Rightarrow> (nat \<Rightarrow> u64) \<Rightarrow> u8 list option \<Rightarrow> ReplayResult \<Rightarrow> MatchingEngine \<Rightarrow>
    (replay_fault + bool \<times> ReplayResult \<times> MatchingEngine \<times> ExecutionReport list) option" where
  "replay cfg env clock file result me = (case file of None \<Rightarrow> Some (Inr (False, result, me, []))
     | Some bs \<Rightarrow> (case trace_events bs of None \<Rightarrow> Some (Inr (False, result, me, []))
       | Some evs \<Rightarrow>
           (case replay_loop cfg env clock (clock 0) 0 evs \<lparr>rs_engine = me, rs_calls = 0, rs_result = result, rs_first_ts = 0, rs_polled = []\<rparr> of
              Inl e \<Rightarrow> Some (Inl e)
            | Inr s \<Rightarrow> map_option (\<lambda>s'. Inr (True, rs_result s', rs_engine s', rs_polled s')) (drain_reports env s))))"

subsection \<open>Reading back what was written\<close>

definition trace_msg :: "MarketDataMsg \<Rightarrow> bool" where
  "trace_msg m = (in_int64 (m_price m) \<and> order_type_ok (m_order_type m) \<and> msg_type_ok (m_msg_type m))"

primrec write_all :: "(u64 \<times> MarketDataMsg) list \<Rightarrow> TraceWriter \<Rightarrow> TraceWriter" where
  "write_all [] w = w"
| "write_all (tm # tms) w = write_all tms (snd (writer_write (fst tm) (snd tm) w))"

lemma msg_trace_roundtrip: "trace_msg m \<Longrightarrow> trace_event_to_msg (msg_to_trace_event ts m) = m"
  by (cases "m_side m")
    (simp_all add: trace_msg_def trace_event_to_msg_def msg_to_trace_event_def order_type_ok_def msg_type_ok_def)

lemma length_store_trace [simp]: "length (store_trace_event e) = 48" "length (store_header h) = 32"
  by (simp_all add: store_trace_event_def store_header_def)

lemma load_store_trace: "in_int64 (ev_price e) \<Longrightarrow> load_trace_event (store_trace_event e) = e"
proof -
  assume "in_int64 (ev_price e)"
  moreover have "bytes_at 0 (Suc 0) (a # xs) = [a]" "bytes_at (Suc 0) (Suc 0) (a # b # xs) = [b]"
    "bytes_at 2 (Suc 0) (a # b # c # xs) = [c]" for a b c :: u8 and xs
    by (simp_all add: bytes_at_def numeral_2_eq_2)
  ultimately show ?thesis by (simp add: load_trace_event_def store_trace_event_def)
qed

lemma load_store_header:
  "load_header_rec (take 8 (store_header h) @ put_le 8 n @ drop 16 (store_header h)) = h\<lparr>thd_event_count := n\<rparr>"
proof -
  have "take 8 (store_header h) = put_le 4 (thd_magic h) @ put_le 2 (thd_version h) @ put_le 2 (thd_symbol_count h)"
    "drop 16 (store_header h) = put_le 8 (thd_start_ts_ns h) @ replicate 8 0"
    by (simp_all add: store_header_def)
  then show ?thesis by (simp add: load_header_rec_def)
qed

lemma write_all_file:
  "tw_file w = Some bs \<Longrightarrow> tw_file (write_all tms w) = Some (bs @ concat (map (\<lambda>(ts, m). store_trace_event (msg_to_trace_event ts m)) tms)) \<and>
     tw_event_count (write_all tms w) = tw_event_count w + of_nat (length tms)"
  by (induction tms arbitrary: w bs) (auto simp: writer_write_def)

lemma trace_events_written:
  assumes "\<forall>tm \<in> set tms. trace_msg (snd tm)" "length tms < 2 ^ 64"
  shows "\<exists>file. writer_close (write_all tms (writer_open True)) = Some file \<and>
     trace_events file = Some (map (\<lambda>(ts, m). msg_to_trace_event ts m) tms)"
proof -
  let ?h = "\<lparr>thd_magic = kTraceMagic, thd_version = 1, thd_symbol_count = 0, thd_event_count = 0, thd_start_ts_ns = 0\<rparr>"
  let ?evs = "map (\<lambda>(ts, m). msg_to_trace_event ts m) tms"
  let ?body = "concat (map store_trace_event ?evs)"
  let ?hdr = "take 8 (store_header ?h) @ put_le 8 (of_nat (length tms) :: u64) @ drop 16 (store_header ?h)"
  have "tw_file (writer_open True) = Some (store_header ?h)" "tw_event_count (writer_open True) = 0"
    by (simp_all add: writer_open_def)
  with write_all_file [of "writer_open True" "store_header ?h" tms]
  have close: "writer_close (write_all tms (writer_open True)) = Some (?hdr @ ?body)"
    by (simp add: writer_close_def map_concat case_prod_unfold comp_def)
  have len: "length ?hdr = 32" by simp
  have "load_header_rec (take 32 (?hdr @ ?body)) = ?h\<lparr>thd_event_count := of_nat (length tms)\<rparr>"
    using load_store_header [of ?h "of_nat (length tms)"] len by simp
  moreover have "chunks 48 (drop 32 (?hdr @ ?body)) = map store_trace_event ?evs"
    using len chunks_concat [of 48 "map store_trace_event ?evs"] by simp
  moreover have "map load_trace_event (map store_trace_event ?evs) = ?evs"
    using assms(1) by (auto simp: trace_msg_def load_store_trace msg_to_trace_event_def)
  ultimately have "trace_events (?hdr @ ?body) = Some ?evs"
    using len assms(2) by (simp add: trace_events_def Let_def unat_of_nat_small)
  then show ?thesis using close by blast
qed

subsection \<open>Accounting, whatever the engine does\<close>

definition out_ok :: "MatchingEngine \<Rightarrow> bool" where
  "out_ok me = (\<exists>ys. spsc_holds me_kQueueDepth (me_outbound me) ys)"

text \<open>What is asked of the engine thread: the outbound queue stays a queue, and the engine falls silent
  at some point.\<close>

definition env_ok :: "Env \<Rightarrow> nat \<Rightarrow> bool" where
  "env_ok env K = ((\<forall>k me. out_ok me \<longrightarrow> out_ok (env k me)) \<and> (\<forall>k \<ge> K. env k = (\<lambda>me. me)))"

definition pace_ok :: "Config \<Rightarrow> bool" where
  "pace_ok cfg = (cfg_mode cfg = Throttled \<longrightarrow> cfg_throttle_mps cfg \<noteq> 0)"

lemma pace_ok_Inr: "pace_ok cfg \<Longrightarrow> \<exists>r. pace cfg i ts f w n = Inr r"
  by (simp add: pace_ok_def pace_def Let_def)

lemma submit_out_ok: "out_ok me \<Longrightarrow> out_ok (snd (engine_submit msg me))"
  by (simp add: out_ok_def engine_submit_def case_prod_unfold Let_def)

lemma poll_out_ok:
  assumes "out_ok me"
  shows "out_ok (snd (poll_report me))"
proof -
  obtain ys where ys: "spsc_holds me_kQueueDepth (me_outbound me) ys" using assms by (auto simp: out_ok_def)
  obtain q where "spsc_try_pop me_kQueueDepth (me_outbound me) = (case ys of [] \<Rightarrow> None | x # _ \<Rightarrow> Some x, q)"
    "spsc_holds me_kQueueDepth q (tl ys)" using ys by (rule spsc.pop_cases)
  then show ?thesis by (auto simp: out_ok_def poll_report_def)
qed

lemma submit_spin_keeps:
  assumes "env_ok env K" "out_ok (rs_engine s)"
  shows "rs_result (snd (submit_spin n env msg s)) = rs_result s \<and> rs_polled (snd (submit_spin n env msg s)) = rs_polled s \<and>
     out_ok (rs_engine (snd (submit_spin n env msg s)))"
  using assms(2)
proof (induction n arbitrary: s)
  case (Suc n)
  let ?r = "engine_submit msg (env (rs_calls s) (rs_engine s))"
  have "out_ok (snd ?r)" using assms(1) Suc.prems by (intro submit_out_ok) (simp add: env_ok_def)
  with Suc.IH [of "s\<lparr>rs_engine := snd ?r, rs_calls := rs_calls s + 1\<rparr>"] show ?case
    by (simp add: case_prod_unfold Let_def)
qed simp

lemma poll_once_keeps:
  assumes "env_ok env K" "out_ok (rs_engine s)"
  shows "rs_result (snd (poll_once env s)) = rs_result s \<and> out_ok (rs_engine (snd (poll_once env s))) \<and>
     length (rs_polled (snd (poll_once env s))) = length (rs_polled s) + of_bool (fst (poll_once env s))"
  using assms poll_out_ok [of "env (rs_calls s) (rs_engine s)"]
  by (auto simp: poll_once_def case_prod_unfold Let_def env_ok_def split: option.splits)

definition handled_count :: "ReplayResult \<Rightarrow> u64" where
  "handled_count r = rr_events_replayed r + rr_events_skipped r"

text \<open>What \<^verbatim>\<open>matches_generated\<close> held before the replay, as long as it counts every report polled.\<close>

definition tally :: "ReplayState \<Rightarrow> u64" where
  "tally s = rr_matches_generated (rs_result s) - of_nat (length (rs_polled s))"

lemma replay_event_counts:
  assumes env: "env_ok env K" and ok: "pace_ok cfg" "out_ok (rs_engine s)"
  shows "\<exists>s'. replay_event cfg env clock w i ev s = Inr s' \<and> handled_count (rs_result s') = handled_count (rs_result s) + 1 \<and>
     tally s' = tally s \<and> out_ok (rs_engine s')"
proof -
  let ?s = "if i = 0 then s\<lparr>rs_first_ts := ev_timestamp_ns ev\<rparr> else s"
  let ?sub = "submit_spin 1000 env (trace_event_to_msg ev) ?s"
  have s: "rs_result ?s = rs_result s" "rs_engine ?s = rs_engine s" "rs_polled ?s = rs_polled s" by simp_all
  have sub: "rs_result (snd ?sub) = rs_result s" "rs_polled (snd ?sub) = rs_polled s" "out_ok (rs_engine (snd ?sub))"
    using submit_spin_keeps [OF env, of ?s 1000 "trace_event_to_msg ev"] ok(2) unfolding s by blast+
  have poll: "rs_result (snd (poll_once env (snd ?sub))) = rs_result s" "out_ok (rs_engine (snd (poll_once env (snd ?sub))))"
    "length (rs_polled (snd (poll_once env (snd ?sub)))) = length (rs_polled s) + of_bool (fst (poll_once env (snd ?sub)))"
    using poll_once_keeps [OF env sub(3)] sub(1,2) by simp_all
  obtain r where "pace cfg i (ev_timestamp_ns ev) (rs_first_ts ?s) w (clock (3 * rs_calls ?s + 1)) = Inr r"
    using pace_ok_Inr [OF ok(1)] by blast
  then show ?thesis
    using sub poll unfolding replay_event_def Let_def case_prod_unfold handled_count_def tally_def
    by (cases "fst ?sub"; cases "i \<ge> unat (cfg_warmup_events cfg)") (simp_all add: algebra_simps del: submit_spin.simps)
qed

lemma replay_loop_counts:
  assumes "env_ok env K" "pace_ok cfg" "out_ok (rs_engine s)"
  shows "\<exists>s'. replay_loop cfg env clock w i evs s = Inr s' \<and>
     handled_count (rs_result s') = handled_count (rs_result s) + of_nat (length evs) \<and> tally s' = tally s \<and> out_ok (rs_engine s')"
  using assms(3)
proof (induction evs arbitrary: i s)
  case (Cons ev evs)
  obtain s1 where s1: "replay_event cfg env clock w i ev s = Inr s1"
    "handled_count (rs_result s1) = handled_count (rs_result s) + 1" "tally s1 = tally s" "out_ok (rs_engine s1)"
    using replay_event_counts [OF assms(1,2) Cons.prems] by blast
  from Cons.IH [OF s1(4), of "i + 1"] s1(1-3) show ?case by (auto simp: algebra_simps)
qed simp

text \<open>Once the engine is silent, draining counts the reports left.\<close>

lemma drain_reports_silent:
  assumes "env_ok env K"
  shows "K \<le> rs_calls s \<Longrightarrow> spsc_holds me_kQueueDepth (me_outbound (rs_engine s)) ys \<Longrightarrow>
     \<exists>s'. drain_reports env s = Some s' \<and> me_inbound (rs_engine s') = me_inbound (rs_engine s) \<and> out_ok (rs_engine s') \<and>
       rs_polled s' = rs_polled s @ ys \<and>
       rs_result s' = (rs_result s)\<lparr>rr_matches_generated := rr_matches_generated (rs_result s) + of_nat (length ys)\<rparr>"
proof (induction ys arbitrary: s)
  case Nil
  then have env: "env (rs_calls s) = (\<lambda>me. me)" using assms by (simp add: env_ok_def)
  have "spsc_try_pop me_kQueueDepth (me_outbound (rs_engine s)) = (None, me_outbound (rs_engine s))"
    using Nil.prems(2) by (rule spsc.pop_Nil)
  then have "drain_reports env s = Some (s\<lparr>rs_calls := rs_calls s + 1\<rparr>)"
    using env by (subst drain_reports.simps) (simp add: poll_once_def poll_report_def)
  then show ?case using Nil.prems(2) by (auto simp: out_ok_def)
next
  case (Cons y ys)
  then have env: "env (rs_calls s) = (\<lambda>me. me)" using assms by (simp add: env_ok_def)
  obtain q where q: "spsc_try_pop me_kQueueDepth (me_outbound (rs_engine s)) = (Some y, q)" "spsc_holds me_kQueueDepth q ys"
    using spsc.pop_Cons [OF Cons.prems(2)] by blast
  let ?s1 = "s\<lparr>rs_engine := (rs_engine s)\<lparr>me_outbound := q\<rparr>, rs_calls := rs_calls s + 1, rs_polled := rs_polled s @ [y],
     rs_result := (rs_result s)\<lparr>rr_matches_generated := rr_matches_generated (rs_result s) + 1\<rparr>\<rparr>"
  have "drain_reports env s = drain_reports env ?s1"
    using env q(1) by (subst drain_reports.simps) (simp add: poll_once_def poll_report_def Let_def)
  then show ?case using Cons.IH [of ?s1] Cons.prems(1) q(2) by (simp add: add.assoc)
qed

lemma drain_reports_returns:
  assumes "env_ok env K" "out_ok (rs_engine s)"
  shows "\<exists>s'. drain_reports env s = Some s' \<and> handled_count (rs_result s') = handled_count (rs_result s) \<and> tally s' = tally s \<and>
     out_ok (rs_engine s')"
  using assms(2)
proof (induction "K - rs_calls s" arbitrary: s)
  case 0
  then obtain ys where "spsc_holds me_kQueueDepth (me_outbound (rs_engine s)) ys" by (auto simp: out_ok_def)
  then obtain s' where s': "drain_reports env s = Some s'" "out_ok (rs_engine s')" "rs_polled s' = rs_polled s @ ys"
    "rs_result s' = (rs_result s)\<lparr>rr_matches_generated := rr_matches_generated (rs_result s) + of_nat (length ys)\<rparr>"
    using drain_reports_silent [OF assms(1), of s ys] 0(1) by auto
  then have "handled_count (rs_result s') = handled_count (rs_result s)" "tally s' = tally s" by (simp_all add: handled_count_def tally_def)
  with s'(1,2) show ?case by blast
next
  case (Suc d)
  obtain got s1 where s1: "poll_once env s = (got, s1)" by fastforce
  have keep: "rs_result s1 = rs_result s" "out_ok (rs_engine s1)" "length (rs_polled s1) = length (rs_polled s) + of_bool got"
    using poll_once_keeps [OF assms(1) Suc.prems] s1 by simp_all
  have calls: "rs_calls s1 = rs_calls s + 1" using s1 by (auto simp: poll_once_def case_prod_unfold Let_def)
  show ?case
  proof (cases got)
    case True
    let ?s2 = "s1\<lparr>rs_result := (rs_result s1)\<lparr>rr_matches_generated := rr_matches_generated (rs_result s1) + 1\<rparr>\<rparr>"
    have "drain_reports env s = drain_reports env ?s2" using s1 True by (subst drain_reports.simps) (simp add: Let_def)
    moreover have "d = K - rs_calls ?s2" using Suc.hyps(2) calls by simp
    moreover have "tally ?s2 = tally s" using keep True by (simp add: tally_def)
    ultimately show ?thesis using Suc.hyps(1) [of ?s2] keep(1,2) by (auto simp: handled_count_def)
  next
    case False
    then have "drain_reports env s = Some s1" using s1 by (subst drain_reports.simps) simp
    then show ?thesis using keep False by (simp add: tally_def)
  qed
qed

subsection \<open>Replaying into a waiting engine\<close>

abbreviation idle_env :: Env where
  "idle_env \<equiv> (\<lambda>_ me. me)"

lemma idle_env_ok: "env_ok idle_env 0"
  by (simp add: env_ok_def)

definition queued :: "ReplayState \<Rightarrow> MarketDataMsg list \<Rightarrow> ExecutionReport list \<Rightarrow> bool" where
  "queued s xs ys = (spsc_holds me_kQueueDepth (me_inbound (rs_engine s)) xs \<and>
     spsc_holds me_kQueueDepth (me_outbound (rs_engine s)) ys)"

lemma idle_submit:
  assumes "queued s xs ys" "length xs < 65535"
  shows "\<exists>s'. submit_spin 1000 idle_env msg s = (True, s') \<and> queued s' (xs @ [msg]) ys \<and> rs_result s' = rs_result s \<and> rs_polled s' = rs_polled s"
proof -
  obtain q where q: "spsc_try_push me_kQueueDepth msg (me_inbound (rs_engine s)) = (True, q)" "spsc_holds me_kQueueDepth q (xs @ [msg])"
    using spsc.push_room [of me_kQueueDepth "me_inbound (rs_engine s)" xs msg] assms
    by (auto simp: queued_def me_kQueueDepth_def)
  have "submit_spin (Suc n) idle_env msg s =
      (True, s\<lparr>rs_engine := (rs_engine s)\<lparr>me_inbound := q\<rparr>, rs_calls := rs_calls s + 1\<rparr>)" for n
    using q(1) by (simp add: engine_submit_def Let_def)
  from this [of 999] show ?thesis using q(2) assms(1) by (simp add: queued_def)
qed

lemma idle_poll:
  assumes "queued s xs ys"
  obtains s' where "poll_once idle_env s = (ys \<noteq> [], s')" "queued s' xs (tl ys)" "rs_result s' = rs_result s"
    "rs_polled s' = rs_polled s @ take 1 ys"
proof -
  have "spsc_holds me_kQueueDepth (me_outbound (rs_engine s)) ys" using assms by (simp add: queued_def)
  then obtain q where q: "spsc_try_pop me_kQueueDepth (me_outbound (rs_engine s)) = (case ys of [] \<Rightarrow> None | x # _ \<Rightarrow> Some x, q)"
    "spsc_holds me_kQueueDepth q (tl ys)" by (rule spsc.pop_cases)
  then show thesis
    using that [of "s\<lparr>rs_engine := (rs_engine s)\<lparr>me_outbound := q\<rparr>, rs_calls := rs_calls s + 1, rs_polled := rs_polled s @ take 1 ys\<rparr>"] assms
    by (cases ys) (auto simp: poll_once_def poll_report_def queued_def)
qed

definition progressed :: "nat \<Rightarrow> nat \<Rightarrow> ReplayResult \<Rightarrow> ReplayResult \<Rightarrow> bool" where
  "progressed n j r r' = (rr_events_replayed r' = rr_events_replayed r + of_nat n \<and> rr_events_skipped r' = rr_events_skipped r \<and>
     rr_matches_generated r' = rr_matches_generated r + of_nat j)"

lemma idle_event:
  assumes "queued s xs ys" "length xs < 65535" "pace_ok cfg"
  shows "\<exists>s' j. replay_event cfg idle_env clock w i ev s = Inr s' \<and> queued s' (xs @ [trace_event_to_msg ev]) (drop j ys) \<and>
     j \<le> length ys \<and> progressed 1 j (rs_result s) (rs_result s') \<and> rs_polled s' = rs_polled s @ take j ys"
proof -
  let ?s = "if i = 0 then s\<lparr>rs_first_ts := ev_timestamp_ns ev\<rparr> else s"
  have "queued ?s xs ys" using assms(1) by (simp add: queued_def)
  then obtain s1 where s1: "submit_spin 1000 idle_env (trace_event_to_msg ev) ?s = (True, s1)"
    "queued s1 (xs @ [trace_event_to_msg ev]) ys" "rs_result s1 = rs_result s" "rs_polled s1 = rs_polled s"
    using idle_submit [of ?s xs ys "trace_event_to_msg ev"] assms(2) by auto
  obtain r where pc: "pace cfg i (ev_timestamp_ns ev) (rs_first_ts ?s) w (clock (3 * rs_calls ?s + 1)) = Inr r"
    using pace_ok_Inr [OF assms(3)] by blast
  obtain s2 where s2: "poll_once idle_env s1 = (ys \<noteq> [], s2)" "queued s2 (xs @ [trace_event_to_msg ev]) (tl ys)" "rs_result s2 = rs_result s1"
    "rs_polled s2 = rs_polled s1 @ take 1 ys" using s1(2) by (rule idle_poll)
  show ?thesis
  proof (cases "i \<ge> unat (cfg_warmup_events cfg) \<and> ys \<noteq> []")
    case True
    then show ?thesis using s1 s2 pc unfolding replay_event_def Let_def
      by (auto simp: queued_def progressed_def drop_Suc Suc_le_eq intro!: exI [of _ 1])
  next
    case False
    then show ?thesis using s1 s2 pc unfolding replay_event_def Let_def
      by (cases "i \<ge> unat (cfg_warmup_events cfg)") (auto simp: queued_def progressed_def intro!: exI [of _ 0])
  qed
qed

lemma idle_loop:
  assumes "queued s xs ys" "length xs + length evs \<le> 65535" "pace_ok cfg"
  shows "\<exists>s' j. replay_loop cfg idle_env clock w i evs s = Inr s' \<and> queued s' (xs @ map trace_event_to_msg evs) (drop j ys) \<and>
     j \<le> length ys \<and> progressed (length evs) j (rs_result s) (rs_result s') \<and> rs_polled s' = rs_polled s @ take j ys"
  using assms(1,2)
proof (induction evs arbitrary: i s xs ys)
  case Nil
  then show ?case by (intro exI [of _ s] exI [of _ 0]) (simp add: progressed_def)
next
  case (Cons ev evs)
  have "length xs < 65535" using Cons.prems(2) by simp
  then obtain s1 j where s1: "replay_event cfg idle_env clock w i ev s = Inr s1" "queued s1 (xs @ [trace_event_to_msg ev]) (drop j ys)"
    "j \<le> length ys" "progressed 1 j (rs_result s) (rs_result s1)" "rs_polled s1 = rs_polled s @ take j ys"
    using idle_event [OF Cons.prems(1) _ assms(3)] by blast
  have "length (xs @ [trace_event_to_msg ev]) + length evs \<le> 65535" using Cons.prems(2) by simp
  from Cons.IH [OF s1(2) this] obtain s2 k where s2: "replay_loop cfg idle_env clock w (i + 1) evs s1 = Inr s2"
    "queued s2 ((xs @ [trace_event_to_msg ev]) @ map trace_event_to_msg evs) (drop k (drop j ys))" "k \<le> length (drop j ys)"
    "progressed (length evs) k (rs_result s1) (rs_result s2)" "rs_polled s2 = rs_polled s1 @ take k (drop j ys)" by blast
  show ?case using s1 s2 by (intro exI [of _ s2] exI [of _ "j + k"]) (auto simp: progressed_def algebra_simps take_add)
qed

subsection \<open>Properties\<close>

lemma idle_replay:
  assumes "\<forall>tm \<in> set tms. trace_msg (snd tm)" "pace_ok cfg"
    "spsc_holds me_kQueueDepth (me_inbound me) xs" "spsc_holds me_kQueueDepth (me_outbound me) ys"
    "length xs + length tms \<le> 65535"
  shows "\<exists>res' me'. replay cfg idle_env clock (writer_close (write_all tms (writer_open True))) res me = Some (Inr (True, res', me', ys)) \<and>
     spsc_holds me_kQueueDepth (me_inbound me') (xs @ map snd tms) \<and>
     progressed (length tms) (length ys) res res'"
proof -
  have "length tms < 2 ^ 64" using assms(5) by simp
  then obtain bs where wr: "writer_close (write_all tms (writer_open True)) = Some bs"
    "trace_events bs = Some (map (\<lambda>(ts, m). msg_to_trace_event ts m) tms)"
    using trace_events_written [OF assms(1)] by blast
  let ?evs = "map (\<lambda>(ts, m). msg_to_trace_event ts m) tms"
  let ?s = "\<lparr>rs_engine = me, rs_calls = 0, rs_result = res, rs_first_ts = 0, rs_polled = []\<rparr>"
  have "queued ?s xs ys" using assms(3,4) by (simp add: queued_def)
  then obtain s j where s: "replay_loop cfg idle_env clock (clock 0) 0 ?evs ?s = Inr s"
    "queued s (xs @ map trace_event_to_msg ?evs) (drop j ys)" "j \<le> length ys" "progressed (length ?evs) j (rs_result ?s) (rs_result s)"
    "rs_polled s = take j ys"
    using idle_loop [of ?s xs ys ?evs cfg clock "clock 0" 0] assms(2,5) by auto
  have msgs: "map trace_event_to_msg ?evs = map snd tms" using assms(1) by (auto simp: msg_trace_roundtrip)
  have "spsc_holds me_kQueueDepth (me_outbound (rs_engine s)) (drop j ys)" using s(2) by (simp add: queued_def)
  then obtain s' where s': "drain_reports idle_env s = Some s'" "me_inbound (rs_engine s') = me_inbound (rs_engine s)"
    "rs_polled s' = rs_polled s @ drop j ys"
    "rs_result s' = (rs_result s)\<lparr>rr_matches_generated := rr_matches_generated (rs_result s) + of_nat (length (drop j ys))\<rparr>"
    using drain_reports_silent [OF idle_env_ok, of s "drop j ys"] by auto
  have "(of_nat j :: u64) + of_nat (length ys - j) = of_nat (length ys)"
    using s(3) by (metis le_add_diff_inverse of_nat_add)
  then have "progressed (length tms) (length ys) res (rs_result s')"
    using s(4) s'(4) by (simp add: progressed_def add.assoc)
  moreover have "spsc_holds me_kQueueDepth (me_inbound (rs_engine s')) (xs @ map snd tms)"
    using s(2) s'(2) unfolding msgs by (simp add: queued_def)
  ultimately show ?thesis using wr s(1,5) s'(1,3) by (simp add: replay_def)
qed

text \<open>C31. Trace round trip.  Messages written by \<^verbatim>\<open>TraceWriter\<close> and replayed into an engine with room for them
  arrive in its inbound queue unchanged and in order; every event counts as replayed, none as skipped,
  and every report that was waiting is polled, in order, and counted.\<close>

theorem trace_replay_roundtrip:
  assumes "\<forall>tm \<in> set tms. trace_msg (snd tm)" "pace_ok cfg"
    "spsc_holds me_kQueueDepth (me_inbound me) xs" "spsc_holds me_kQueueDepth (me_outbound me) ys"
    "length xs + length tms \<le> 65535"
  shows "\<exists>res' me'. replay cfg idle_env clock (writer_close (write_all tms (writer_open True))) res me = Some (Inr (True, res', me', ys)) \<and>
     spsc_holds me_kQueueDepth (me_inbound me') (xs @ map snd tms) \<and>
     progressed (length tms) (length ys) res res'"
  using assms by (rule idle_replay)

definition fresh_engine :: MatchingEngine where
  "fresh_engine = new_engine \<lparr>sq_buffer = \<lambda>_. \<lparr>m_seq = 0, m_order_id = 0, m_price = 0, m_qty = 0, m_symbol = 0, m_side = Buy,
       m_msg_type = Heartbeat, m_order_type = Limit\<rparr>, sq_write_pos = 9, sq_read_pos = 4\<rparr>
     \<lparr>sq_buffer = \<lambda>_. \<lparr>r_order_id = 0, r_contra_order_id = 0, r_exec_price = 0, r_exec_qty = 0, r_leaves_qty = 0,
       r_symbol = 0, r_side = Buy, r_exec_type = ExecNew\<rparr>, sq_write_pos = 0, sq_read_pos = 0\<rparr>"

definition zero_result :: ReplayResult where
  "zero_result = \<lparr>rr_events_replayed = 0, rr_events_skipped = 0, rr_matches_generated = 0, rr_latency = hist_init\<rparr>"

definition sample_trace :: "(u64 \<times> MarketDataMsg) list" where
  "sample_trace = [(5, \<lparr>m_seq = 1, m_order_id = 3, m_price = - 2, m_qty = 4, m_symbol = 7, m_side = Sell,
     m_msg_type = NewOrder, m_order_type = IOC\<rparr>), (9, \<lparr>m_seq = 2, m_order_id = 3, m_price = 0, m_qty = 0, m_symbol = 7,
     m_side = Buy, m_msg_type = CancelOrder, m_order_type = Limit\<rparr>)]"

lemma fresh_engine_queues:
  "spsc_holds me_kQueueDepth (me_inbound fresh_engine) []" "spsc_holds me_kQueueDepth (me_outbound fresh_engine) []"
  using spsc_init_holds [OF valid_engine_depth] by (simp_all add: fresh_engine_def new_engine_def)

theorem trace_replay_roundtrip_witness:
  "\<exists>res' me'. replay \<lparr>cfg_mode = MaxSpeed, cfg_throttle_mps = 1000000, cfg_warmup_events = 10000\<rparr> idle_env (\<lambda>_. 0)
       (writer_close (write_all sample_trace (writer_open True))) zero_result fresh_engine = Some (Inr (True, res', me', [])) \<and>
     spsc_holds me_kQueueDepth (me_inbound me') (map snd sample_trace) \<and> rr_events_replayed res' = 2"
  using trace_replay_roundtrip [of sample_trace "\<lparr>cfg_mode = MaxSpeed, cfg_throttle_mps = 1000000, cfg_warmup_events = 10000\<rparr>"
      fresh_engine "[]" "[]" "\<lambda>_. 0" zero_result] fresh_engine_queues
  by (auto simp: sample_trace_def trace_msg_def in_int64_def pace_ok_def progressed_def zero_result_def)

lemma replay_counts:
  assumes "env_ok env K" "pace_ok cfg" "out_ok me"
  shows "\<exists>ok res' me' polled. replay cfg env clock file res me = Some (Inr (ok, res', me', polled)) \<and>
     (case file of None \<Rightarrow> \<not> ok \<and> res' = res \<and> me' = me
      | Some bs \<Rightarrow> (case trace_events bs of None \<Rightarrow> \<not> ok \<and> res' = res \<and> me' = me
         | Some evs \<Rightarrow> ok \<and> handled_count res' = handled_count res + of_nat (length evs))) \<and>
     rr_matches_generated res' = rr_matches_generated res + of_nat (length polled) \<and> out_ok me'"
proof (cases "Option.bind file trace_events")
  case None
  then show ?thesis using assms(3) by (auto simp: replay_def bind_eq_None_conv split: option.splits)
next
  case (Some evs)
  then obtain bs where bs: "file = Some bs" "trace_events bs = Some evs" by (auto simp: bind_eq_Some_conv)
  let ?s = "\<lparr>rs_engine = me, rs_calls = 0, rs_result = res, rs_first_ts = 0, rs_polled = []\<rparr>"
  have t: "tally ?s = rr_matches_generated res" by (simp add: tally_def)
  obtain s where s: "replay_loop cfg env clock (clock 0) 0 evs ?s = Inr s"
    "handled_count (rs_result s) = handled_count res + of_nat (length evs)" "tally s = tally ?s" "out_ok (rs_engine s)"
    using replay_loop_counts [OF assms(1,2), of ?s clock "clock 0" 0 evs] assms(3) by auto
  obtain s' where s': "drain_reports env s = Some s'" "handled_count (rs_result s') = handled_count (rs_result s)" "tally s' = tally s"
    "out_ok (rs_engine s')" using drain_reports_returns [OF assms(1) s(4)] by blast
  have "rr_matches_generated (rs_result s') = rr_matches_generated res + of_nat (length (rs_polled s'))"
    using s(3) s'(3) t by (simp add: tally_def algebra_simps)
  then show ?thesis using bs s s' by (auto simp: replay_def)
qed

text \<open>C32. Replay ends and accounts for every event and every report, whatever the engine thread does meanwhile as long as it
  falls silent eventually: a file that cannot be opened, is too short or has the wrong magic is refused
  without effect, and otherwise each event of the file is counted exactly once, as replayed or as skipped; and each
  report that a poll returned, while replaying or while draining, is counted as a match.\<close>

theorem replay_accounts:
  assumes "env_ok env K" "pace_ok cfg" "out_ok me"
  shows "\<exists>ok res' me' polled. replay cfg env clock file res me = Some (Inr (ok, res', me', polled)) \<and>
     (case file of None \<Rightarrow> \<not> ok \<and> res' = res \<and> me' = me
      | Some bs \<Rightarrow> (case trace_events bs of None \<Rightarrow> \<not> ok \<and> res' = res \<and> me' = me
         | Some evs \<Rightarrow> ok \<and> handled_count res' = handled_count res + of_nat (length evs))) \<and>
     rr_matches_generated res' = rr_matches_generated res + of_nat (length polled)"
  using replay_counts [OF assms] by blast

text \<open>An engine with a report waiting.\<close>

definition some_report :: ExecutionReport where
  "some_report = \<lparr>r_order_id = 5, r_contra_order_id = 3, r_exec_price = 100, r_exec_qty = 4, r_leaves_qty = 0,
     r_symbol = 7, r_side = Buy, r_exec_type = ExecFill\<rparr>"

definition waiting_engine :: MatchingEngine where
  "waiting_engine = fresh_engine\<lparr>me_outbound := snd (spsc_try_push me_kQueueDepth some_report (me_outbound fresh_engine))\<rparr>"

lemma waiting_engine_queues:
  "spsc_holds me_kQueueDepth (me_inbound waiting_engine) []" "spsc_holds me_kQueueDepth (me_outbound waiting_engine) [some_report]"
proof -
  obtain q where "spsc_try_push me_kQueueDepth some_report (me_outbound fresh_engine) = (True, q)" "spsc_holds me_kQueueDepth q [some_report]"
    using spsc.push_room [OF fresh_engine_queues(2), of some_report] cap_gt_1 [OF valid_engine_depth] by auto
  then show "spsc_holds me_kQueueDepth (me_inbound waiting_engine) []" "spsc_holds me_kQueueDepth (me_outbound waiting_engine) [some_report]"
    using fresh_engine_queues(1) by (simp_all add: waiting_engine_def)
qed

theorem replay_accounts_witness:
  "\<exists>res' me'. replay \<lparr>cfg_mode = Throttled, cfg_throttle_mps = 5, cfg_warmup_events = 0\<rparr> idle_env (\<lambda>_. 0)
       (writer_close (write_all sample_trace (writer_open True))) zero_result waiting_engine = Some (Inr (True, res', me', [some_report])) \<and>
     handled_count res' = 2 \<and> rr_matches_generated res' = 1"
proof -
  let ?cfg = "\<lparr>cfg_mode = Throttled, cfg_throttle_mps = 5, cfg_warmup_events = 0\<rparr>"
  let ?file = "writer_close (write_all sample_trace (writer_open True))"
  have cfg: "pace_ok ?cfg" by (simp add: pace_ok_def)
  have tr: "\<forall>tm \<in> set sample_trace. trace_msg (snd tm)" "length sample_trace = 2"
    by (simp_all add: sample_trace_def trace_msg_def in_int64_def)
  obtain bs where bs: "?file = Some bs" "trace_events bs = Some (map (\<lambda>(ts, m). msg_to_trace_event ts m) sample_trace)"
    using trace_events_written [OF tr(1)] tr(2) by auto
  have "out_ok waiting_engine" using waiting_engine_queues(2) by (auto simp: out_ok_def)
  from replay_accounts [OF idle_env_ok cfg this, of "\<lambda>_. 0" ?file zero_result]
  obtain ok res' me' polled where acc: "replay ?cfg idle_env (\<lambda>_. 0) ?file zero_result waiting_engine = Some (Inr (ok, res', me', polled))"
    "handled_count res' = handled_count zero_result + of_nat (length sample_trace)"
    "rr_matches_generated res' = rr_matches_generated zero_result + of_nat (length polled)"
    using bs by (auto simp del: of_nat_numeral)
  moreover have "ok" "polled = [some_report]"
    using idle_replay [OF tr(1) cfg waiting_engine_queues, of "\<lambda>_. 0" zero_result] tr(2) acc(1) by auto
  ultimately show ?thesis using tr(2) by (simp add: zero_result_def handled_count_def)
qed

text \<open>A pause of a second or more between two events is requested with \<^verbatim>\<open>tv_sec\<close> zero and is therefore invalid:
  such a gap of the trace is not waited for.\<close>

lemma long_pause_invalid:
  "pace \<lparr>cfg_mode = WallClock, cfg_throttle_mps = 1000000, cfg_warmup_events = 0\<rparr> 1 2000000000 0 0 0 = Inr (Some 2000000000)"
  "\<not> nanosleep_valid 2000000000"
  by (simp_all add: pace_def nanosleep_valid_def)

end
