(* ===== verification/Naive_Book.thy ===== *)
theory Naive_Book
  imports Book_Theorems
begin

text \<open>
  \<^verbatim>\<open>NaiveBook\<close> (\<^verbatim>\<open>bench/bench_replay.cpp\<close>): the book of sorted maps and deques that the replay benchmark keeps as
  its ``correct but slow'' baseline.  A \<^verbatim>\<open>std::map\<close> is its list of entries in key order, so \<^verbatim>\<open>begin()\<close> is the
  front; the comparison is \<^verbatim>\<open>std::greater\<close> for bids (\<open>d\<close>) and \<^verbatim>\<open>std::less\<close> for asks.  The theory shows that the
  engine's book and this one compute the same thing.
\<close>

subsection \<open>Data and operations\<close>

type_synonym NaiveQueue = "(OrderId \<times> Qty) list"
type_synonym NaiveSide = "(Price \<times> NaiveQueue) list"
type_synonym NaiveIndex = "OrderId \<rightharpoonup> Price \<times> u8"

record NaiveBook =
  nb_bids :: NaiveSide
  nb_asks :: NaiveSide
  nb_index :: NaiveIndex
  nb_fill_count :: u64

definition naive_empty :: NaiveBook where
  "naive_empty = \<lparr>nb_bids = [], nb_asks = [], nb_index = \<lambda>_. None, nb_fill_count = 0\<rparr>"

definition key_comp :: "bool \<Rightarrow> Price \<Rightarrow> Price \<Rightarrow> bool" where
  "key_comp d a b = (if d then a > b else a < b)"

text \<open>The inner loop of \<^verbatim>\<open>sweep\<close>, on the deque of one price.\<close>

function naive_fill :: "Qty \<Rightarrow> NaiveQueue \<Rightarrow> NaiveIndex \<Rightarrow> u64 \<Rightarrow> Qty \<times> NaiveQueue \<times> NaiveIndex \<times> u64" where
  "naive_fill qty [] idx fc = (qty, [], idx, fc)"
| "naive_fill qty ((oid, n) # q) idx fc = (
     if qty = 0 then (qty, (oid, n) # q, idx, fc)
     else let f = min qty n
       in if n - f = 0 then naive_fill (qty - f) q (idx(oid := None)) (fc + 1)
          else naive_fill (qty - f) ((oid, n - f) # q) idx (fc + 1))"
  by pat_completeness auto

lemma partial_fill: "n - min qty n \<noteq> 0 \<Longrightarrow> qty - min qty n = (0 :: Qty)"
  by (auto simp: min_def split: if_splits)

termination naive_fill
proof (relation "measures [\<lambda>(qty, q, idx, fc). length q, \<lambda>(qty, q, idx, fc). unat qty]")
  fix qty n f :: Qty and oid q idx fc
  assume "qty \<noteq> 0" "f = min qty n" "n - f \<noteq> 0"
  then have "qty - f = 0" using partial_fill by blast
  then show "((qty - f, (oid, n - f) # q, idx, fc + 1), qty, (oid, n) # q, idx, fc) \<in>
      measures [\<lambda>(qty, q, idx, fc). length q, \<lambda>(qty, q, idx, fc). unat qty]"
    using \<open>qty \<noteq> 0\<close> by (simp add: unat_gt_0)
qed auto

lemma naive_fill_zero [simp]: "naive_fill 0 q idx fc = (0, q, idx, fc)"
  by (cases q) (auto simp: case_prod_unfold naive_fill.simps)

lemma naive_fill_Cons:
  "qty \<noteq> 0 \<Longrightarrow> naive_fill qty ((oid, n) # q) idx fc =
     (if n - min qty n = 0 then naive_fill (qty - min qty n) q (idx(oid := None)) (fc + 1)
      else (0, (oid, n - min qty n) # q, idx, fc + 1))"
  using partial_fill [of n qty] by (simp add: naive_fill.simps(2) Let_def)

declare naive_fill.simps(2) [simp del]

lemma naive_fill_stop: "naive_fill qty q idx fc = (qty', q', idx', fc') \<Longrightarrow> q' \<noteq> [] \<Longrightarrow> qty' = 0"
proof (induction q arbitrary: qty idx fc)
  case (Cons x q)
  then show ?case by (cases x; cases "qty = 0") (auto simp: naive_fill_Cons split: if_splits)
qed simp

function naive_sweep :: "bool \<Rightarrow> Price \<Rightarrow> bool \<Rightarrow> Qty \<Rightarrow> NaiveSide \<Rightarrow> NaiveIndex \<Rightarrow> u64 \<Rightarrow>
    Qty \<times> NaiveSide \<times> NaiveIndex \<times> u64" where
  "naive_sweep d limit has_limit qty [] idx fc = (qty, [], idx, fc)"
| "naive_sweep d limit has_limit qty ((px, q) # rest) idx fc = (
     if qty = 0 \<or> (has_limit \<and> key_comp d limit px) then (qty, (px, q) # rest, idx, fc)
     else let (qty', q', idx', fc') = naive_fill qty q idx fc
       in naive_sweep d limit has_limit qty' (if q' = [] then rest else (px, q') # rest) idx' fc')"
  by pat_completeness auto

termination naive_sweep
proof (relation "measures [\<lambda>(d, limit, hl, qty, s, idx, fc). length s, \<lambda>(d, limit, hl, qty, s, idx, fc). unat qty]")
  fix d limit has_limit and qty :: Qty and px q rest idx fc x and qty' :: Qty and y q' z idx' fc'
  assume "\<not> (qty = 0 \<or> has_limit \<and> key_comp d limit px)" "x = naive_fill qty q idx fc"
    "(qty', y) = x" "(q', z) = y" "(idx', fc') = z"
  then show "((d, limit, has_limit, qty', if q' = [] then rest else (px, q') # rest, idx', fc'), d, limit, has_limit, qty, (px, q) # rest, idx, fc) \<in>
      measures [\<lambda>(d, limit, hl, qty, s, idx, fc). length s, \<lambda>(d, limit, hl, qty, s, idx, fc). unat qty]"
    using naive_fill_stop [of qty q idx fc qty' q' idx' fc'] by (auto simp: unat_gt_0)
qed auto

declare naive_sweep.simps(2) [simp del]

text \<open>\<^verbatim>\<open>map[px].push_back(x)\<close>.\<close>

fun naive_push :: "bool \<Rightarrow> Price \<Rightarrow> OrderId \<times> Qty \<Rightarrow> NaiveSide \<Rightarrow> NaiveSide" where
  "naive_push d px x [] = [(px, [x])]"
| "naive_push d px x ((p, q) # rest) = (
     if p = px then (p, q @ [x]) # rest
     else if key_comp d p px then (p, q) # naive_push d px x rest
     else (px, [x]) # (p, q) # rest)"

definition naive_add :: "OrderId \<Rightarrow> Side \<Rightarrow> Price \<Rightarrow> Qty \<Rightarrow> NaiveBook \<Rightarrow> NaiveBook" where
  "naive_add oid side px qty nb = (
     let buy = (side = Buy);
         (qty', passive, idx, fc) = naive_sweep (\<not> buy) px True qty (if buy then nb_asks nb else nb_bids nb) (nb_index nb) (nb_fill_count nb);
         nb1 = (if buy then nb\<lparr>nb_asks := passive\<rparr> else nb\<lparr>nb_bids := passive\<rparr>)\<lparr>nb_index := idx, nb_fill_count := fc\<rparr>
     in if qty' > 0 then
          (if buy then nb1\<lparr>nb_bids := naive_push True px (oid, qty') (nb_bids nb1)\<rparr>
           else nb1\<lparr>nb_asks := naive_push False px (oid, qty') (nb_asks nb1)\<rparr>)\<lparr>nb_index := idx(oid \<mapsto> (px, if buy then 0 else 1))\<rparr>
        else nb1)"

text \<open>The lambda \<^verbatim>\<open>erase_from\<close> of \<^verbatim>\<open>cancel\<close>.\<close>

fun naive_erase :: "Price \<Rightarrow> OrderId \<Rightarrow> NaiveSide \<Rightarrow> NaiveSide" where
  "naive_erase px oid [] = []"
| "naive_erase px oid ((p, q) # rest) = (
     if p = px then (let q' = filter (\<lambda>(i, n). i \<noteq> oid) q in if q' = [] then rest else (p, q') # rest)
     else (p, q) # naive_erase px oid rest)"

definition naive_cancel :: "OrderId \<Rightarrow> NaiveBook \<Rightarrow> NaiveBook" where
  "naive_cancel oid nb = (case nb_index nb oid of None \<Rightarrow> nb
     | Some (px, sd) \<Rightarrow> (if sd = 0 then nb\<lparr>nb_bids := naive_erase px oid (nb_bids nb)\<rparr>
         else nb\<lparr>nb_asks := naive_erase px oid (nb_asks nb)\<rparr>)\<lparr>nb_index := (nb_index nb)(oid := None)\<rparr>)"

subsection \<open>As a reference book\<close>

definition to_ref :: "NaiveSide \<Rightarrow> RefSide" where
  "to_ref s = map (\<lambda>(px, q). (px, map (\<lambda>(i, n). \<lparr>ro_id = i, ro_rem = n, ro_account = 0\<rparr>) q)) s"

definition naive_abs :: "NaiveBook \<Rightarrow> RefBook" where
  "naive_abs nb = \<lparr>rb_bids = to_ref (nb_bids nb), rb_asks = to_ref (nb_asks nb)\<rparr>"

definition naive_ids :: "NaiveSide \<Rightarrow> OrderId list" where
  "naive_ids s = map fst (concat (map snd s))"

lemma to_ref_simps [simp]: "to_ref [] = []"
  "to_ref ((px, q) # s) = (px, map (\<lambda>(i, n). \<lparr>ro_id = i, ro_rem = n, ro_account = 0\<rparr>) q) # to_ref s"
  by (simp_all add: to_ref_def)

lemma naive_ids_simps [simp]: "naive_ids [] = []" "naive_ids ((px, q) # s) = map fst q @ naive_ids s"
  by (simp_all add: naive_ids_def)

lemma side_ids_to_ref [simp]: "side_ids (to_ref s) = naive_ids s"
  by (induction s) (auto simp: side_ids_def naive_ids_def to_ref_def)

lemma naive_push_ref: "to_ref (naive_push d px (i, n) s) = enqueue d px \<lparr>ro_id = i, ro_rem = n, ro_account = 0\<rparr> (to_ref s)"
  by (induction d px "(i, n)" s rule: naive_push.induct) (auto simp: key_comp_def better_def)

text \<open>\<open>dropped ids ids' idx\<close>: the index without the ids that were swept.\<close>

definition dropped :: "OrderId list \<Rightarrow> OrderId list \<Rightarrow> NaiveIndex \<Rightarrow> NaiveIndex" where
  "dropped ids ids' idx = (\<lambda>i. if i \<in> set ids \<and> i \<notin> set ids' then None else idx i)"

lemma naive_fill_ref:
  assumes "naive_fill qty q idx fc = (qty', q', idx', fc')" "o_account_id od = 0" "distinct (map fst q)"
  shows "\<exists>fs. sweep_queue od px qty (map (\<lambda>(i, n). \<lparr>ro_id = i, ro_rem = n, ro_account = 0\<rparr>) q) =
       (qty', False, map (\<lambda>(i, n). \<lparr>ro_id = i, ro_rem = n, ro_account = 0\<rparr>) q', fs) \<and>
     fc' = fc + of_nat (length fs) \<and> idx' = dropped (map fst q) (map fst q') idx \<and>
     (\<exists>us. map fst q = us @ map fst q')"
  using assms
proof (induction q arbitrary: qty idx fc)
  case Nil
  then show ?case by (auto simp: dropped_def)
next
  case (Cons x q)
  obtain oid n where x: "x = (oid, n)" by fastforce
  let ?f = "min qty n"
  consider "qty = 0" | "qty \<noteq> 0" "n - ?f = 0" | "qty \<noteq> 0" "n - ?f \<noteq> 0" by blast
  then show ?case
  proof cases
    case 1
    then show ?thesis using Cons.prems x by (auto simp: dropped_def)
  next
    case 2
    then have run: "naive_fill (qty - ?f) q (idx(oid := None)) (fc + 1) = (qty', q', idx', fc')"
      using Cons.prems(1) x by (simp add: naive_fill_Cons)
    have dist: "distinct (map fst q)" using Cons.prems(3) by simp
    obtain fs us where fs: "sweep_queue od px (qty - ?f) (map (\<lambda>(i, n). \<lparr>ro_id = i, ro_rem = n, ro_account = 0\<rparr>) q) =
         (qty', False, map (\<lambda>(i, n). \<lparr>ro_id = i, ro_rem = n, ro_account = 0\<rparr>) q', fs)"
      "fc' = fc + 1 + of_nat (length fs)" "idx' = dropped (map fst q) (map fst q') (idx(oid := None))" "map fst q = us @ map fst q'"
      using Cons.IH [OF run Cons.prems(2) dist] by blast
    have "oid \<notin> set (map fst q')" using Cons.prems(3) fs(4) x by auto
    then have "idx' = dropped (oid # map fst q) (map fst q') idx" unfolding fs(3) by (auto simp: dropped_def fun_eq_iff)
    moreover have "oid # map fst q = (oid # us) @ map fst q'" using fs(4) by simp
    ultimately show ?thesis using fs(1,2) 2 Cons.prems(2) x
      by (intro exI [of _ "mk_fill od px \<lparr>ro_id = oid, ro_rem = n, ro_account = 0\<rparr> ?f # fs"] conjI)
        (auto simp: ref_wall_def Let_def add.assoc)
  next
    case 3
    then have z: "qty - ?f = 0" using partial_fill by blast
    have "qty' = 0" "q' = (oid, n - ?f) # q" "idx' = idx" "fc' = fc + 1"
      using Cons.prems(1) 3 x by (auto simp: naive_fill_Cons)
    then show ?thesis using 3 z Cons.prems(2) x by (auto simp: ref_wall_def Let_def dropped_def)
  qed
qed

lemma naive_sweep_zero [simp]: "naive_sweep d limit hl 0 s idx fc = (0, s, idx, fc)"
  by (cases s) (auto simp: naive_sweep.simps(2) case_prod_unfold)

definition naive_rests :: "NaiveSide \<Rightarrow> Price \<Rightarrow> OrderId \<Rightarrow> bool" where
  "naive_rests s p i = (\<exists>q. (p, q) \<in> set s \<and> i \<in> fst ` set q)"

lemma naive_rests_simps [simp]: "naive_rests [] p i = False" "naive_rests ((px, q) # s) p i = (p = px \<and> i \<in> fst ` set q \<or> naive_rests s p i)"
  by (auto simp: naive_rests_def)

lemma naive_rests_ids: "(\<exists>p. naive_rests s p i) \<longleftrightarrow> i \<in> set (naive_ids s)"
  by (induction s) auto

text \<open>The side \<open>s\<close> after a sweep left \<open>s'\<close>: which ids are gone and where the others rest.\<close>

definition swept :: "NaiveSide \<Rightarrow> NaiveSide \<Rightarrow> bool" where
  "swept s s' = ((\<exists>us. naive_ids s = us @ naive_ids s') \<and> (\<forall>p i. naive_rests s' p i \<longleftrightarrow> naive_rests s p i \<and> i \<in> set (naive_ids s')))"

lemma dropped_same [simp]: "dropped ids ids idx = idx"
  by (auto simp: dropped_def fun_eq_iff)

lemma swept_refl [simp]: "swept s s"
  by (auto simp: swept_def naive_rests_ids [symmetric])

lemma naive_sweep_ref:
  assumes "naive_sweep d limit True qty s idx fc = (qty', s', idx', fc')"
    and od: "o_account_id od = 0" "o_type od = Limit" "o_price od = limit" "is_buy od = (\<not> d)" and "distinct (naive_ids s)"
  shows "\<exists>fs. sweep od qty (to_ref s) = (qty', False, to_ref s', fs) \<and> fc' = fc + of_nat (length fs) \<and>
     idx' = dropped (naive_ids s) (naive_ids s') idx \<and> swept s s'"
  using assms(1,6)
proof (induction s arbitrary: qty idx fc)
  case Nil
  then show ?case by (auto simp: dropped_def swept_def)
next
  case (Cons lv s)
  obtain px q where lv: "lv = (px, q)" by fastforce
  let ?ro = "\<lambda>(i, n). \<lparr>ro_id = i, ro_rem = n, ro_account = 0\<rparr>"
  have blocks: "ref_blocks od px \<longleftrightarrow> key_comp d limit px" using od by (auto simp: ref_blocks_def key_comp_def better_def)
  have dist: "distinct (map fst q)" "distinct (naive_ids s)" "set (map fst q) \<inter> set (naive_ids s) = {}"
    using Cons.prems(2) lv by auto
  show ?case
  proof (cases "qty = 0 \<or> key_comp d limit px")
    case True
    then have "qty' = qty" "s' = lv # s" "idx' = idx" "fc' = fc" using Cons.prems(1) lv by (auto simp: naive_sweep.simps(2))
    then show ?thesis using True lv blocks by auto
  next
    case False
    obtain n1 q1 idx1 fc1 where fill: "naive_fill qty q idx fc = (n1, q1, idx1, fc1)" by (metis prod_cases4)
    obtain fs1 us1 where f1: "sweep_queue od px qty (map ?ro q) = (n1, False, map ?ro q1, fs1)" "fc1 = fc + of_nat (length fs1)"
      "idx1 = dropped (map fst q) (map fst q1) idx" "map fst q = us1 @ map fst q1"
      using naive_fill_ref [OF fill od(1) dist(1)] by blast
    have ids1: "i \<in> fst ` set q1 \<Longrightarrow> i \<in> fst ` set q" for i using f1(4) by (metis Un_iff list.set_map set_append)
    have run: "naive_sweep d limit True n1 (if q1 = [] then s else (px, q1) # s) idx1 fc1 = (qty', s', idx', fc')"
      using Cons.prems(1) False lv fill by (simp add: naive_sweep.simps(2))
    show ?thesis
    proof (cases "q1 = []")
      case True
      then obtain fs2 where f2: "sweep od n1 (to_ref s) = (qty', False, to_ref s', fs2)" "fc' = fc1 + of_nat (length fs2)"
        "idx' = dropped (naive_ids s) (naive_ids s') idx1" "swept s s'"
        using Cons.IH [of n1 idx1 fc1] run dist(2) by auto
      obtain us2 where us2: "naive_ids s = us2 @ naive_ids s'" using f2(4) by (auto simp: swept_def)
      have "idx' = dropped (map fst q @ naive_ids s) (naive_ids s') idx"
        unfolding f2(3) f1(3) using dist(3) us2 True by (auto simp: dropped_def fun_eq_iff)
      moreover have "swept (lv # s) s'" using f2(4) lv dist(3) us2 by (auto simp: swept_def)
      ultimately show ?thesis using f1(1,2) f2(1,2) False True lv blocks by (auto simp: Let_def add.assoc)
    next
      case q1: False
      then have "n1 = 0" using naive_fill_stop [OF fill] by blast
      then have r: "qty' = n1" "s' = (px, q1) # s" "idx' = idx1" "fc' = fc1" using run q1 by auto
      have "idx1 = dropped (map fst q @ naive_ids s) (map fst q1 @ naive_ids s) idx"
        unfolding f1(3) using dist(3) by (auto simp: dropped_def fun_eq_iff)
      moreover have "naive_rests s' p i \<longleftrightarrow> naive_rests (lv # s) p i \<and> i \<in> set (naive_ids s')" for p i
        using naive_rests_ids [of s i] dist(3) ids1 [of i] unfolding r(2) lv by auto
      then have "swept (lv # s) s'" unfolding swept_def using f1(4) r(2) lv by auto
      ultimately show ?thesis using f1(1,2) r q1 False lv blocks by (auto simp: Let_def)
    qed
  qed
qed

subsection \<open>The two books agree\<close>

text \<open>The index names the price and side of every resting order.\<close>

definition naive_index_ok :: "NaiveBook \<Rightarrow> bool" where
  "naive_index_ok nb = (\<forall>i p c. nb_index nb i = Some (p, c) \<longleftrightarrow>
     c = 0 \<and> naive_rests (nb_bids nb) p i \<or> c = 1 \<and> naive_rests (nb_asks nb) p i)"

datatype NaiveOp = NaiveAdd OrderId Side Price Qty | NaiveCancel OrderId

primrec naive_step :: "NaiveOp \<Rightarrow> NaiveBook \<Rightarrow> NaiveBook" where
  "naive_step (NaiveAdd oid sd px qty) nb = naive_add oid sd px qty nb"
| "naive_step (NaiveCancel oid) nb = naive_cancel oid nb"

text \<open>The same calls on the engine's book: plain limit orders and cancellations.\<close>

primrec engine_op :: "NaiveOp \<Rightarrow> BookOp" where
  "engine_op (NaiveAdd oid sd px qty) = AddOp \<lparr>o_id = oid, o_price = px, o_qty = qty, o_qty_remaining = qty, o_symbol = 0,
     o_side = sd, o_type = Limit, o_status = StatusNew, o_account_id = 0\<rparr>"
| "engine_op (NaiveCancel oid) = CancelOp oid"

definition is_add :: "NaiveOp \<Rightarrow> bool" where
  "is_add op = (case op of NaiveAdd _ _ _ _ \<Rightarrow> True | NaiveCancel _ \<Rightarrow> False)"

lemma naive_push_rests: "naive_rests (naive_push d px (i, n) s) p j \<longleftrightarrow> p = px \<and> j = i \<or> naive_rests s p j"
  by (induction d px "(i, n)" s rule: naive_push.induct) auto

lemma dropped_index:
  assumes ok: "\<And>i p c. idx i = Some (p, c) \<longleftrightarrow> c = k \<and> naive_rests s p i \<or> c = k' \<and> naive_rests other p i"
    and sw: "swept s s'" and dist: "distinct (naive_ids s)" "set (naive_ids s) \<inter> set (naive_ids other) = {}"
  shows "dropped (naive_ids s) (naive_ids s') idx i = Some (p, c) \<longleftrightarrow> c = k \<and> naive_rests s' p i \<or> c = k' \<and> naive_rests other p i"
proof -
  have rest: "naive_rests s' p i \<longleftrightarrow> naive_rests s p i \<and> i \<in> set (naive_ids s')" using sw by (auto simp: swept_def)
  have "naive_rests s p i \<Longrightarrow> i \<in> set (naive_ids s)" "naive_rests other p i \<Longrightarrow> i \<in> set (naive_ids other)"
    using naive_rests_ids by blast+
  then show ?thesis using ok [of i p c] rest dist(2) unfolding dropped_def by auto
qed

lemma naive_abs_ids: "ref_ids (naive_abs nb) = naive_ids (nb_bids nb) @ naive_ids (nb_asks nb)"
  by (simp add: ref_ids_def naive_abs_def)

lemma fresh_not_resting: "oid \<notin> set (naive_ids s) \<Longrightarrow> \<not> naive_rests s p oid"
  using naive_rests_ids by blast

lemma swept_ids: "swept s s' \<Longrightarrow> set (naive_ids s') \<subseteq> set (naive_ids s)"
  by (auto simp: swept_def)

lemma naive_add_buy:
  assumes ok: "naive_index_ok nb" and dist: "distinct (ref_ids (naive_abs nb))" and fresh: "oid \<notin> set (ref_ids (naive_abs nb))"
    and ref: "ref_step (engine_op (NaiveAdd oid Buy px qty)) (naive_abs nb) = (True, rb', fs)"
  shows "naive_abs (naive_add oid Buy px qty nb) = rb' \<and> naive_index_ok (naive_add oid Buy px qty nb) \<and>
     nb_fill_count (naive_add oid Buy px qty nb) = nb_fill_count nb + of_nat (length fs)"
proof -
  obtain od where od: "engine_op (NaiveAdd oid Buy px qty) = AddOp od" "o_account_id od = 0" "o_type od = Limit" "o_price od = px"
    "is_buy od" "o_id od = oid" "o_qty_remaining od = qty" by (simp add: is_buy_def)
  have ids: "distinct (naive_ids (nb_asks nb))" "set (naive_ids (nb_asks nb)) \<inter> set (naive_ids (nb_bids nb)) = {}"
    "oid \<notin> set (naive_ids (nb_asks nb))" "oid \<notin> set (naive_ids (nb_bids nb))" using dist fresh by (auto simp: naive_abs_ids)
  obtain n' s' idx' fc' where sw: "naive_sweep False px True qty (nb_asks nb) (nb_index nb) (nb_fill_count nb) = (n', s', idx', fc')"
    by (metis prod_cases4)
  obtain fs0 where f: "sweep od qty (to_ref (nb_asks nb)) = (n', False, to_ref s', fs0)" "fc' = nb_fill_count nb + of_nat (length fs0)"
    "idx' = dropped (naive_ids (nb_asks nb)) (naive_ids s') (nb_index nb)" "swept (nb_asks nb) s'"
    using naive_sweep_ref [OF sw od(2-4) _ ids(1)] od(5) by auto
  have idx: "idx' i = Some (p, c) \<longleftrightarrow> c = 1 \<and> naive_rests s' p i \<or> c = 0 \<and> naive_rests (nb_bids nb) p i" for i p c
    unfolding f(3) using ok by (intro dropped_index [OF _ f(4) ids(1,2)]) (auto simp: naive_index_ok_def)
  have new: "\<not> naive_rests s' p oid" "\<not> naive_rests (nb_bids nb) p oid" for p
    using swept_ids [OF f(4)] ids(3,4) fresh_not_resting by blast+
  show ?thesis
  proof (cases "n' = 0")
    case True
    then have "rb' = \<lparr>rb_bids = to_ref (nb_bids nb), rb_asks = to_ref s'\<rparr>" "fs = fs0"
      using ref f(1) od by (auto simp: ref_step_def ref_add_def ref_side_def ref_set_side_def naive_abs_def)
    then show ?thesis using True sw f(2) idx by (auto simp: naive_add_def naive_abs_def naive_index_ok_def)
  next
    case False
    then have "rb' = \<lparr>rb_bids = enqueue True px \<lparr>ro_id = oid, ro_rem = n', ro_account = 0\<rparr> (to_ref (nb_bids nb)), rb_asks = to_ref s'\<rparr>" "fs = fs0"
      using ref f(1) od by (auto simp: ref_step_def ref_add_def ref_side_def ref_set_side_def naive_abs_def never_rests_def Let_def split: if_splits)
    moreover have "n' > 0" using False by (simp add: word_gt_0)
    ultimately show ?thesis using sw f(2) idx new
      by (auto simp: naive_add_def naive_abs_def naive_index_ok_def naive_push_ref naive_push_rests)
  qed
qed

lemma naive_add_sell:
  assumes ok: "naive_index_ok nb" and dist: "distinct (ref_ids (naive_abs nb))" and fresh: "oid \<notin> set (ref_ids (naive_abs nb))"
    and ref: "ref_step (engine_op (NaiveAdd oid Sell px qty)) (naive_abs nb) = (True, rb', fs)"
  shows "naive_abs (naive_add oid Sell px qty nb) = rb' \<and> naive_index_ok (naive_add oid Sell px qty nb) \<and>
     nb_fill_count (naive_add oid Sell px qty nb) = nb_fill_count nb + of_nat (length fs)"
proof -
  obtain od where od: "engine_op (NaiveAdd oid Sell px qty) = AddOp od" "o_account_id od = 0" "o_type od = Limit" "o_price od = px"
    "\<not> is_buy od" "o_id od = oid" "o_qty_remaining od = qty" by (simp add: is_buy_def)
  have ids: "distinct (naive_ids (nb_bids nb))" "set (naive_ids (nb_bids nb)) \<inter> set (naive_ids (nb_asks nb)) = {}"
    "oid \<notin> set (naive_ids (nb_asks nb))" "oid \<notin> set (naive_ids (nb_bids nb))" using dist fresh by (auto simp: naive_abs_ids)
  obtain n' s' idx' fc' where sw: "naive_sweep True px True qty (nb_bids nb) (nb_index nb) (nb_fill_count nb) = (n', s', idx', fc')"
    by (metis prod_cases4)
  obtain fs0 where f: "sweep od qty (to_ref (nb_bids nb)) = (n', False, to_ref s', fs0)" "fc' = nb_fill_count nb + of_nat (length fs0)"
    "idx' = dropped (naive_ids (nb_bids nb)) (naive_ids s') (nb_index nb)" "swept (nb_bids nb) s'"
    using naive_sweep_ref [OF sw od(2-4) _ ids(1)] od(5) by auto
  have idx: "idx' i = Some (p, c) \<longleftrightarrow> c = 0 \<and> naive_rests s' p i \<or> c = 1 \<and> naive_rests (nb_asks nb) p i" for i p c
    unfolding f(3) using ok by (intro dropped_index [OF _ f(4) ids(1,2)]) (auto simp: naive_index_ok_def)
  have new: "\<not> naive_rests s' p oid" "\<not> naive_rests (nb_asks nb) p oid" for p
    using swept_ids [OF f(4)] ids(3,4) fresh_not_resting by blast+
  show ?thesis
  proof (cases "n' = 0")
    case True
    then have "rb' = \<lparr>rb_bids = to_ref s', rb_asks = to_ref (nb_asks nb)\<rparr>" "fs = fs0"
      using ref f(1) od by (auto simp: ref_step_def ref_add_def ref_side_def ref_set_side_def naive_abs_def)
    then show ?thesis using True sw f(2) idx by (auto simp: naive_add_def naive_abs_def naive_index_ok_def)
  next
    case False
    then have "rb' = \<lparr>rb_bids = to_ref s', rb_asks = enqueue False px \<lparr>ro_id = oid, ro_rem = n', ro_account = 0\<rparr> (to_ref (nb_asks nb))\<rparr>" "fs = fs0"
      using ref f(1) od by (auto simp: ref_step_def ref_add_def ref_side_def ref_set_side_def naive_abs_def never_rests_def Let_def split: if_splits)
    moreover have "n' > 0" using False by (simp add: word_gt_0)
    ultimately show ?thesis using sw f(2) idx new
      by (auto simp: naive_add_def naive_abs_def naive_index_ok_def naive_push_ref naive_push_rests)
  qed
qed

text \<open>Cancelling: the level the index names is the one that holds the id.\<close>

lemma naive_erase_ref:
  assumes "naive_rests s px oid" "distinct (naive_ids s)" "distinct (map fst s)"
  shows "to_ref (naive_erase px oid s) = update_queue oid (q_erase oid) (to_ref s)"
    "naive_rests (naive_erase px oid s) p i \<longleftrightarrow> naive_rests s p i \<and> i \<noteq> oid"
proof -
  let ?ro = "\<lambda>(i, n). \<lparr>ro_id = i, ro_rem = n, ro_account = 0\<rparr>"
  have erase: "q_erase oid (map ?ro q) = map ?ro (filter (\<lambda>(i, n). i \<noteq> oid) q)" for q
    by (induction q) (auto simp: q_erase_def)
  have mem: "oid \<in> ro_id ` set (map ?ro q) \<longleftrightarrow> oid \<in> fst ` set q" for q by force
  show "to_ref (naive_erase px oid s) = update_queue oid (q_erase oid) (to_ref s)"
    using assms
  proof (induction s)
    case (Cons lv s)
    obtain p q where lv: "lv = (p, q)" by fastforce
    show ?case
    proof (cases "p = px")
      case True
      then have "oid \<in> fst ` set q" using Cons.prems lv by (force simp: naive_rests_def)
      then show ?thesis using True lv erase [of q] mem [of q] by (auto simp: Let_def)
    next
      case False
      then have r: "naive_rests s px oid" using Cons.prems(1) lv by simp
      then have "oid \<notin> fst ` set q" using Cons.prems(2) lv naive_rests_ids [of s oid] by auto
      then show ?thesis using False lv mem [of q] Cons.IH [OF r] Cons.prems by simp
    qed
  qed simp
  show "naive_rests (naive_erase px oid s) p i \<longleftrightarrow> naive_rests s p i \<and> i \<noteq> oid"
    using assms
  proof (induction s)
    case (Cons lv s)
    obtain p' q where lv: "lv = (p', q)" by fastforce
    show ?case
    proof (cases "p' = px")
      case True
      then have "oid \<in> fst ` set q" using Cons.prems lv by (force simp: naive_rests_def)
      then have "oid \<notin> set (naive_ids s)" using Cons.prems(2) lv by auto
      then have "\<not> naive_rests s p oid" by (rule fresh_not_resting)
      then show ?thesis using True lv by (auto simp: Let_def image_iff filter_empty_conv split: if_splits) (metis fst_conv)+
    next
      case False
      then have r: "naive_rests s px oid" using Cons.prems(1) lv by simp
      then have "oid \<notin> fst ` set q" using Cons.prems(2) lv naive_rests_ids [of s oid] by auto
      then show ?thesis using False lv Cons.IH [OF r] Cons.prems by auto
    qed
  qed simp
qed

lemma better_distinct: "sorted_wrt (better d) xs \<Longrightarrow> distinct xs"
  by (induction xs) auto

lemma naive_prices: "ref_ok (naive_abs nb) \<Longrightarrow> distinct (map fst (nb_bids nb)) \<and> distinct (map fst (nb_asks nb))"
proof -
  have "map fst (to_ref s) = map fst s" for s by (induction s) (auto simp: to_ref_def)
  then show "ref_ok (naive_abs nb) \<Longrightarrow> ?thesis"
    unfolding ref_ok_def side_ok_def naive_abs_def using better_distinct by (metis RefBook.select_convs(1,2))
qed

lemma naive_cancel_ref:
  assumes ok: "naive_index_ok nb" and dist: "distinct (ref_ids (naive_abs nb))" and ref: "ref_ok (naive_abs nb)"
  shows "snd (ref_step (CancelOp oid) (naive_abs nb)) = (naive_abs (naive_cancel oid nb), [])"
    "naive_index_ok (naive_cancel oid nb)" "nb_fill_count (naive_cancel oid nb) = nb_fill_count nb"
proof -
  have ids: "distinct (naive_ids (nb_bids nb))" "distinct (naive_ids (nb_asks nb))"
    "set (naive_ids (nb_bids nb)) \<inter> set (naive_ids (nb_asks nb)) = {}" using dist by (auto simp: naive_abs_ids)
  note px = naive_prices [OF ref]
  have "snd (ref_step (CancelOp oid) (naive_abs nb)) = (naive_abs (naive_cancel oid nb), []) \<and>
    naive_index_ok (naive_cancel oid nb) \<and> nb_fill_count (naive_cancel oid nb) = nb_fill_count nb"
  proof (cases "nb_index nb oid")
    case None
    then have "oid \<notin> set (naive_ids (nb_bids nb))" "oid \<notin> set (naive_ids (nb_asks nb))"
      using ok naive_rests_ids [of "nb_bids nb" oid] naive_rests_ids [of "nb_asks nb" oid]
      unfolding naive_index_ok_def by (metis option.distinct(1))+
    then show ?thesis using None ok
      by (simp add: naive_cancel_def ref_step_def ref_cancel_def ref_update_def naive_abs_def)
  next
    case (Some e)
    obtain p c where e: "e = (p, c)" by fastforce
    then have "c = 0 \<and> naive_rests (nb_bids nb) p oid \<or> c = 1 \<and> naive_rests (nb_asks nb) p oid"
      using Some ok by (auto simp: naive_index_ok_def)
    then consider "c = 0" "naive_rests (nb_bids nb) p oid" | "c = 1" "naive_rests (nb_asks nb) p oid" by blast
    then show ?thesis
    proof cases
      case 1
      then have m: "oid \<in> set (naive_ids (nb_bids nb))" using naive_rests_ids by blast
      then have "\<not> naive_rests (nb_asks nb) p' oid" for p' using ids(3) fresh_not_resting by blast
      moreover have "naive_cancel oid nb = nb\<lparr>nb_bids := naive_erase p oid (nb_bids nb), nb_index := (nb_index nb)(oid := None)\<rparr>"
        using Some e 1(1) by (simp add: naive_cancel_def)
      ultimately show ?thesis using naive_erase_ref [OF 1(2) ids(1) conjunct1 [OF px]] m ok
        by (auto simp: ref_step_def ref_cancel_def ref_update_def naive_abs_def naive_index_ok_def)
    next
      case 2
      then have m: "oid \<in> set (naive_ids (nb_asks nb))" using naive_rests_ids by blast
      then have nb: "oid \<notin> set (naive_ids (nb_bids nb))" using ids(3) by blast
      then have "\<not> naive_rests (nb_bids nb) p' oid" for p' using fresh_not_resting by blast
      moreover have "naive_cancel oid nb = nb\<lparr>nb_asks := naive_erase p oid (nb_asks nb), nb_index := (nb_index nb)(oid := None)\<rparr>"
        using Some e 2(1) by (simp add: naive_cancel_def)
      ultimately show ?thesis using naive_erase_ref [OF 2(2) ids(2) conjunct2 [OF px]] m nb ok
        by (auto simp: ref_step_def ref_cancel_def ref_update_def naive_abs_def naive_index_ok_def)
    qed
  qed
  then show "snd (ref_step (CancelOp oid) (naive_abs nb)) = (naive_abs (naive_cancel oid nb), [])"
    "naive_index_ok (naive_cancel oid nb)" "nb_fill_count (naive_cancel oid nb) = nb_fill_count nb" by blast+
qed

lemma naive_step_ref:
  assumes "naive_index_ok nb" "distinct (ref_ids (naive_abs nb))" "ref_ok (naive_abs nb)" "op_fresh (engine_op op) (naive_abs nb)"
    and ref: "ref_step (engine_op op) (naive_abs nb) = (ok, rb', fs)" and acc: "is_add op \<longrightarrow> ok"
  shows "naive_abs (naive_step op nb) = rb' \<and> naive_index_ok (naive_step op nb) \<and>
     nb_fill_count (naive_step op nb) = nb_fill_count nb + of_nat (length fs)"
proof (cases op)
  case (NaiveAdd oid sd px qty)
  then have "oid \<notin> set (ref_ids (naive_abs nb))" "ok" using assms(4) acc by (auto simp: op_fresh_def is_add_def)
  then show ?thesis using NaiveAdd naive_add_buy [OF assms(1,2)] naive_add_sell [OF assms(1,2)] ref by (cases sd) auto
next
  case (NaiveCancel oid)
  then show ?thesis using naive_cancel_ref [OF assms(1-3), of oid] ref by auto
qed

context matching_book
begin

text \<open>Any implementation of the book interface agrees with the naive book as long as it rejects no order.\<close>

lemma naive_agrees:
  assumes "invar b" "ref_ok (abs b)" "naive_index_ok nb" "naive_abs nb = abs b" "ops_fresh (map engine_op ops) (abs b)"
    "\<forall>(op, ok, fs) \<in> set (zip ops (fst (ref_run (map engine_op ops) (abs b)))). is_add op \<longrightarrow> ok"
  shows "\<exists>outs b'. run_ops step (map engine_op ops) b = Some (outs, b') \<and> naive_abs (fold naive_step ops nb) = abs b' \<and>
     nb_fill_count (fold naive_step ops nb) = nb_fill_count nb + of_nat (length (concat (map snd outs)))"
  using assms
proof (induction ops arbitrary: b nb)
  case (Cons op ops)
  obtain ok b1 rs where s: "step (engine_op op) b = Some (ok, b1, rs)" "invar b1"
    "ref_step (engine_op op) (abs b) = (ok, abs b1, map report_fill rs)"
    using step_refines [OF Cons.prems(1), of "engine_op op"] Cons.prems(5) by auto
  have fresh: "op_fresh (engine_op op) (abs b)" using Cons.prems(5) by simp
  have acc: "is_add op \<longrightarrow> ok" using Cons.prems(6) s(3) by (auto simp: Let_def case_prod_unfold)
  have n: "naive_abs (naive_step op nb) = abs b1" "naive_index_ok (naive_step op nb)"
    "nb_fill_count (naive_step op nb) = nb_fill_count nb + of_nat (length rs)"
    using naive_step_ref [OF Cons.prems(3), of op ok "abs b1" "map report_fill rs"] unique_ids [OF Cons.prems(1)] Cons.prems(2,4) fresh s(3) acc
    by auto
  have "\<forall>(op, ok, fs) \<in> set (zip ops (fst (ref_run (map engine_op ops) (abs b1)))). is_add op \<longrightarrow> ok"
    using Cons.prems(6) s(3) by (auto simp: Let_def case_prod_unfold)
  moreover have "ops_fresh (map engine_op ops) (abs b1)" using Cons.prems(5) s(3) by simp
  ultimately obtain outs b2 where r: "run_ops step (map engine_op ops) b1 = Some (outs, b2)"
    "naive_abs (fold naive_step ops (naive_step op nb)) = abs b2"
    "nb_fill_count (fold naive_step ops (naive_step op nb)) = nb_fill_count (naive_step op nb) + of_nat (length (concat (map snd outs)))"
    using Cons.IH [OF s(2) step_ok [OF Cons.prems(1) fresh Cons.prems(2) s(1)] n(2,1)] by blast
  then show ?case using s(1) n(3) by (simp add: add.assoc)
qed simp

end

text \<open>C16. Agreement with the baseline.  Starting from an empty book, any sequence of limit orders and
  cancellations in which no id is used while it rests and no order is rejected for lack of room leaves
  the engine's book and the benchmark's \<^verbatim>\<open>NaiveBook\<close> with the same levels, the same orders in the same queue
  positions with the same remaining quantities, and \<^verbatim>\<open>fill_count\<close> is the number of reports the engine fired.\<close>

theorem naive_book_agrees:
  assumes "ops_fresh (map engine_op ops) \<lparr>rb_bids = [], rb_asks = []\<rparr>"
    "\<forall>(op, ok, fs) \<in> set (zip ops (fst (ref_run (map engine_op ops) \<lparr>rb_bids = [], rb_asks = []\<rparr>))). is_add op \<longrightarrow> ok"
  shows "\<exists>outs b. run_ops book_step (map engine_op ops) (new_book sy True raw) = Some (outs, b) \<and>
     naive_abs (fold naive_step ops naive_empty) = abs_book b \<and>
     nb_fill_count (fold naive_step ops naive_empty) = of_nat (length (concat (map snd outs)))"
proof -
  let ?b = "new_book sy True raw"
  have "book_inv_unique ?b \<and> ob_match_cb ?b" using new_book_unique by (simp add: new_book_def)
  moreover have "ref_ok (abs_book ?b)" by (simp add: abs_new_book ref_ok_def uncrossed_def)
  moreover have "naive_index_ok naive_empty" "naive_abs naive_empty = abs_book ?b" "nb_fill_count naive_empty = 0"
    by (simp_all add: naive_index_ok_def naive_empty_def naive_abs_def abs_new_book)
  ultimately show ?thesis using obook.naive_agrees [of ?b naive_empty ops] assms by (simp add: abs_new_book)
qed

theorem naive_book_agrees_witness:
  "\<exists>outs b. run_ops book_step (map engine_op [NaiveAdd 1 Sell 100 5, NaiveAdd 2 Sell 101 4, NaiveAdd 3 Buy 101 7, NaiveCancel 2]) (new_book 0 True blank_book) =
       Some (outs, b) \<and> abs_book b = \<lparr>rb_bids = [], rb_asks = []\<rparr> \<and> of_nat (length (concat (map snd outs))) = (2 :: u64)"
proof -
  let ?ops = "[NaiveAdd 1 Sell 100 5, NaiveAdd 2 Sell 101 4, NaiveAdd 3 Buy 101 7, NaiveCancel 2]"
  have fresh: "ops_fresh (map engine_op ?ops) \<lparr>rb_bids = [], rb_asks = []\<rparr>"
    by (simp add: op_fresh_def ref_ids_def ref_eval ref_cancel_def ref_update_def q_erase_def)
  have acc: "\<forall>(op, ok, fs) \<in> set (zip ?ops (fst (ref_run (map engine_op ?ops) \<lparr>rb_bids = [], rb_asks = []\<rparr>))). is_add op \<longrightarrow> ok"
    by (simp add: is_add_def ref_eval ref_cancel_def ref_update_def q_erase_def)
  have nb: "naive_abs (fold naive_step ?ops naive_empty) = \<lparr>rb_bids = [], rb_asks = []\<rparr>" "nb_fill_count (fold naive_step ?ops naive_empty) = 2"
    by (simp_all add: naive_abs_def naive_add_def naive_cancel_def naive_empty_def naive_sweep.simps(2) naive_fill.simps(2) key_comp_def Let_def)
  from naive_book_agrees [OF fresh acc, of 0 blank_book] show ?thesis unfolding nb by metis
qed

end
