(* ===== verification/Bench_Replay.thy ===== *)
theory Bench_Replay
  imports Naive_Book Order_Flow_Replay Simulation
begin

text \<open>
  The replay benchmark (\<^verbatim>\<open>bench/bench_replay.cpp\<close>): \<^verbatim>\<open>generate_trace\<close> writes a synthetic order flow with
  \<^verbatim>\<open>TraceWriter\<close>, and \<^verbatim>\<open>main\<close> reads the file again for the naive baseline.  The outputs of the random
  generator are an argument \<open>rng\<close>, numbered by draw.  The loop takes the price of a side \<open>s\<close> and a multiplier \<open>j\<close> of the jitter as
  an argument \<open>float_price\<close>, of which \<open>replay_price\<close> is the one of the program; what \<^verbatim>\<open>rand_price\<close> returns where the
  conversion in \<^verbatim>\<open>to_price\<close> is undefined is an argument \<open>ub\<close>, any 64 bits.
\<close>

subsection \<open>Generating a trace\<close>

record TraceGen =
  gt_ts_ns :: u64
  gt_id_gen :: u64
  gt_live :: "OrderId list"
  gt_draws :: nat

text \<open>The multiplier of \<^verbatim>\<open>0.005\<close>, computed in \<^verbatim>\<open>uint64_t\<close>.\<close>

definition jitter_steps :: "u64 \<Rightarrow> u64" where
  "jitter_steps r = r mod 21 - 10"

definition bench_base :: "Side \<Rightarrow> rat" where
  "bench_base s = (let mid = 100; spread = rnd (2 / 100)
     in if s = Buy then rnd (mid - rnd (spread / 2)) else rnd (mid + rnd (spread / 2)))"

definition bench_price :: "bool \<Rightarrow> Side \<Rightarrow> u64 \<Rightarrow> Price option" where
  "bench_price fused s j = to_price (mul_add fused (bench_base s) (uint j) (rnd (5 / 1000)))"

definition replay_price :: "bool \<Rightarrow> (Side \<Rightarrow> u64 \<Rightarrow> u64) \<Rightarrow> Side \<Rightarrow> u64 \<Rightarrow> Price" where
  "replay_price fused ub s j = (case bench_price fused s j of Some p \<Rightarrow> p | None \<Rightarrow> sint (ub s j))"

definition blank_msg :: MarketDataMsg where
  "blank_msg = \<lparr>m_seq = 0, m_order_id = 0, m_price = 0, m_qty = 0, m_symbol = 0, m_side = Buy,
     m_msg_type = NewOrder, m_order_type = Limit\<rparr>"

definition trace_start :: TraceGen where
  "trace_start = \<lparr>gt_ts_ns = 9 * 3600 * 1000000000, gt_id_gen = 1, gt_live = [], gt_draws = 0\<rparr>"

text \<open>One turn of the loop up to the \<^verbatim>\<open>write\<close>, which every branch does once with the new time stamp.\<close>

definition trace_turn :: "(nat \<Rightarrow> u64) \<Rightarrow> (Side \<Rightarrow> u64 \<Rightarrow> Price) \<Rightarrow> TraceGen \<Rightarrow> MarketDataMsg \<times> TraceGen" where
  "trace_turn rng float_price g = (
     let k = gt_draws g; live = gt_live g;
         ts_ns = gt_ts_ns g + (500 + rng k mod 2000);
         roll = rng (k + 1) mod 10
     in if roll < 7 \<or> live = [] then
          let s = rand_side (rng (k + 2));
              msg = blank_msg\<lparr>m_order_id := gt_id_gen g, m_side := s, m_price := float_price s (jitter_steps (rng (k + 3))),
                m_qty := ucast (100 + rng (k + 4) mod 10 * 100)\<rparr>
          in (msg, \<lparr>gt_ts_ns = ts_ns, gt_id_gen = gt_id_gen g + 1, gt_live = live @ [m_order_id msg], gt_draws = k + 5\<rparr>)
        else if roll < 9 then
          let s = rand_side (rng (k + 2));
              msg = blank_msg\<lparr>m_order_id := gt_id_gen g, m_side := s, m_price := (if s = Buy then 101000000 else 99000000),
                m_qty := ucast (100 + rng (k + 3) mod 5 * 100),
                m_order_type := (if rng (k + 4) mod 3 = 0 then Market else Limit)\<rparr>
          in (msg, \<lparr>gt_ts_ns = ts_ns, gt_id_gen = gt_id_gen g + 1, gt_live = live, gt_draws = k + 5\<rparr>)
        else
          let idx = unat (rng (k + 2) mod of_nat (length live));
              msg = blank_msg\<lparr>m_msg_type := CancelOrder, m_order_id := live ! idx\<rparr>
          in (msg, \<lparr>gt_ts_ns = ts_ns, gt_id_gen = gt_id_gen g, gt_live = take idx live @ drop (idx + 1) live, gt_draws = k + 3\<rparr>))"

primrec trace_loop :: "(nat \<Rightarrow> u64) \<Rightarrow> (Side \<Rightarrow> u64 \<Rightarrow> Price) \<Rightarrow> nat \<Rightarrow> TraceGen \<Rightarrow> TraceWriter \<Rightarrow> TraceWriter" where
  "trace_loop rng float_price 0 g w = w"
| "trace_loop rng float_price (Suc n) g w = (let (msg, g') = trace_turn rng float_price g
     in trace_loop rng float_price n g' (snd (writer_write (gt_ts_ns g') msg w)))"

definition generate_trace :: "(nat \<Rightarrow> u64) \<Rightarrow> (Side \<Rightarrow> u64 \<Rightarrow> Price) \<Rightarrow> bool \<Rightarrow> nat \<Rightarrow> u8 list option" where
  "generate_trace rng float_price opened n_events = writer_close (trace_loop rng float_price n_events trace_start (writer_open opened))"

subsection \<open>The baseline's reading of the file\<close>

text \<open>\<^verbatim>\<open>struct { uint64_t ts; MarketDataMsg msg; }\<close> in the layout of the compiler: 48 bytes, the message type before
  the order type.  \<^verbatim>\<open>add\<close> only compares the side with \<^verbatim>\<open>Side::Buy\<close>.\<close>

definition load_baseline :: "u8 list \<Rightarrow> MarketDataMsg" where
  "load_baseline bs = \<lparr>m_seq = get_le (bytes_at 8 8 bs), m_order_id = get_le (bytes_at 16 8 bs),
     m_price = sint (get_le (bytes_at 24 8 bs) :: u64), m_qty = get_le (bytes_at 32 4 bs), m_symbol = get_le (bytes_at 36 2 bs),
     m_side = (if get_le (bytes_at 38 1 bs) = (0 :: u8) then Buy else Sell),
     m_msg_type = msg_type_of_byte (get_le (bytes_at 39 1 bs)), m_order_type = order_type_of_byte (get_le (bytes_at 40 1 bs))\<rparr>"

definition baseline_event :: "u8 list \<Rightarrow> NaiveBook \<Rightarrow> NaiveBook" where
  "baseline_event bs book = (let msg = load_baseline bs
     in if m_msg_type msg = NewOrder then naive_add (m_order_id msg) (m_side msg) (m_price msg) (m_qty msg) book
        else if m_msg_type msg = CancelOrder then naive_cancel (m_order_id msg) book
        else book)"

definition baseline_read :: "u8 list \<Rightarrow> nat \<times> NaiveBook" where
  "baseline_read file = (length (chunks 48 file), fold baseline_event (chunks 48 file) naive_empty)"

subsection \<open>The program\<close>

text \<open>\<^verbatim>\<open>main\<close>: two replays of the trace into one engine, then the baseline.  A \<^verbatim>\<open>ReplayResult\<close> is declared without an initialiser, so its
  counters hold whatever the memory holds: they are arguments.  The scheduling of the engine thread, the clock and
  the time the baseline takes are arguments too.\<close>

definition raw_result :: "u64 \<Rightarrow> u64 \<Rightarrow> u64 \<Rightarrow> ReplayResult" where
  "raw_result replayed skipped matches = \<lparr>rr_events_replayed = replayed, rr_events_skipped = skipped, rr_matches_generated = matches,
     rr_latency = hist_init\<rparr>"

definition max_speed_cfg :: Config where
  "max_speed_cfg = \<lparr>cfg_mode = MaxSpeed, cfg_throttle_mps = 1000000, cfg_warmup_events = 10000\<rparr>"

definition throttled_cfg :: Config where
  "throttled_cfg = \<lparr>cfg_mode = Throttled, cfg_throttle_mps = 1000000, cfg_warmup_events = 5000\<rparr>"

definition baseline_rate :: "rat \<Rightarrow> nat \<Rightarrow> rat" where
  "baseline_rate elapsed n = rnd (rnd (rnd (of_nat n) / elapsed) / 1000000)"

definition replay_main :: "Env \<Rightarrow> Env \<Rightarrow> (nat \<Rightarrow> u64) \<Rightarrow> (nat \<Rightarrow> u64) \<Rightarrow> ReplayResult \<Rightarrow> ReplayResult \<Rightarrow> rat \<Rightarrow> u8 list option \<Rightarrow>
    MatchingEngine \<Rightarrow> (replay_fault + ReplayResult \<times> ReplayResult \<times> MatchingEngine \<times> (nat \<times> u64 \<times> rat) option) option" where
  "replay_main env1 env2 clock1 clock2 res1 res2 elapsed file me = (case replay max_speed_cfg env1 clock1 file res1 me of
     None \<Rightarrow> None | Some (Inl e) \<Rightarrow> Some (Inl e)
   | Some (Inr (_, r1, me1, _)) \<Rightarrow> (case replay throttled_cfg env2 clock2 file res2 me1 of
       None \<Rightarrow> None | Some (Inl e) \<Rightarrow> Some (Inl e)
     | Some (Inr (_, r2, me2, _)) \<Rightarrow> Some (Inr (r1, r2, engine_stop me2,
         map_option (\<lambda>bs. let (n, book) = baseline_read bs in (n, nb_fill_count book, baseline_rate elapsed n)) file))))"

subsection \<open>The generated flow\<close>

text \<open>The time-stamped messages the loop writes.\<close>

primrec trace_flow :: "(nat \<Rightarrow> u64) \<Rightarrow> (Side \<Rightarrow> u64 \<Rightarrow> Price) \<Rightarrow> nat \<Rightarrow> TraceGen \<Rightarrow> (u64 \<times> MarketDataMsg) list" where
  "trace_flow rng float_price 0 g = []"
| "trace_flow rng float_price (Suc n) g = (let (msg, g') = trace_turn rng float_price g
     in (gt_ts_ns g', msg) # trace_flow rng float_price n g')"

lemma trace_loop_writes: "trace_loop rng fp n g w = write_all (trace_flow rng fp n g) w"
  by (induction n arbitrary: g w) (simp_all add: case_prod_unfold Let_def)

lemma length_trace_flow [simp]: "length (trace_flow rng fp n g) = n"
  by (induction n arbitrary: g) (simp_all add: case_prod_unfold Let_def)

definition cancel_ids :: "MarketDataMsg list \<Rightarrow> OrderId list" where
  "cancel_ids ms = map m_order_id (filter (\<lambda>m. m_msg_type m = CancelOrder) ms)"

lemma cancel_ids_simps [simp]: "cancel_ids [] = []"
  "cancel_ids (m # ms) = (if m_msg_type m = CancelOrder then m_order_id m # cancel_ids ms else cancel_ids ms)"
  by (simp_all add: cancel_ids_def)

text \<open>What one turn does to the ids: it issues the next one, and keeps it live or not, or it takes a live one.\<close>

definition gen_inv :: "TraceGen \<Rightarrow> nat \<Rightarrow> bool" where
  "gen_inv g n = (0 < unat (gt_id_gen g) \<and> unat (gt_id_gen g) + n < 2 ^ 64 \<and> length (gt_live g) + n < 2 ^ 64 \<and> distinct (gt_live g) \<and>
     (\<forall>x \<in> set (gt_live g). unat x < unat (gt_id_gen g)) \<and> unat (gt_ts_ns g) + 2500 * n < 2 ^ 48)"

lemma trace_turn_cases:
  assumes "gen_inv g (Suc n)" "trace_turn rng fp g = (msg, g')"
  obtains (new) "m_msg_type msg = NewOrder" "m_order_id msg = gt_id_gen g" "unat (gt_id_gen g') = unat (gt_id_gen g) + 1"
      "gt_live g' = gt_live g @ [gt_id_gen g] \<or> gt_live g' = gt_live g"
    | (cancel) i where "m_msg_type msg = CancelOrder" "i < length (gt_live g)" "m_order_id msg = gt_live g ! i"
      "gt_id_gen g' = gt_id_gen g" "gt_live g' = take i (gt_live g) @ drop (i + 1) (gt_live g)"
proof -
  let ?k = "gt_draws g" and ?live = "gt_live g"
  let ?roll = "rng (?k + 1) mod 10"
  note I = assms(1) [unfolded gen_inv_def]
  have next_id: "unat (gt_id_gen g + 1) = unat (gt_id_gen g) + 1" using I by (simp add: unat_word_ariths)
  have room: "unat (of_nat (length ?live) :: u64) = length ?live" using I by (intro unat_of_nat_small) simp
  consider "?roll < 7 \<or> ?live = []" | "\<not> (?roll < 7 \<or> ?live = [])" "?roll < 9" | "\<not> (?roll < 7 \<or> ?live = [])" "\<not> ?roll < 9" by blast
  then show thesis
  proof cases
    case 1
    then show thesis using assms(2) next_id by (intro new) (auto simp: trace_turn_def Let_def blank_msg_def)
  next
    case 2
    then show thesis using assms(2) next_id by (intro new) (auto simp: trace_turn_def Let_def blank_msg_def)
  next
    case 3
    let ?i = "unat (rng (?k + 2) mod of_nat (length ?live))"
    have "?i < length ?live" using room 3(1) by (simp add: unat_mod)
    then show thesis using assms(2) 3 by (intro cancel [of ?i]) (auto simp: trace_turn_def Let_def blank_msg_def)
  qed
qed


lemma trace_turn_time:
  assumes "gen_inv g (Suc n)" "trace_turn rng fp g = (msg, g')"
  shows "unat (gt_ts_ns g) < unat (gt_ts_ns g')" "unat (gt_ts_ns g') + 2500 * n < 2 ^ 48"
proof -
  let ?d = "500 + rng (gt_draws g) mod 2000"
  have "unat (rng (gt_draws g) mod 2000) < 2000" by (simp add: unat_mod)
  then have d: "unat ?d = 500 + unat (rng (gt_draws g) mod 2000)" "unat ?d < 2500" by (simp_all add: unat_word_ariths)
  have ts: "gt_ts_ns g' = gt_ts_ns g + ?d" using assms(2) by (auto simp: trace_turn_def Let_def split: if_splits)
  have "unat (gt_ts_ns g') = unat (gt_ts_ns g) + unat ?d"
    unfolding ts using assms(1) d(2) by (subst unat_word_ariths) (simp add: gen_inv_def)
  then show "unat (gt_ts_ns g) < unat (gt_ts_ns g')" "unat (gt_ts_ns g') + 2500 * n < 2 ^ 48"
    using assms(1) d by (simp_all add: gen_inv_def)
qed

lemma trace_turn_msg:
  assumes "\<And>s j. in_int64 (fp s j)" "trace_turn rng fp g = (msg, g')"
  shows "trace_msg msg" "m_symbol msg = 0" "m_msg_type msg \<in> {NewOrder, CancelOrder}"
proof -
  have "in_int64 0" "in_int64 101000000" "in_int64 99000000" by (simp_all add: in_int64_def)
  then have "trace_msg (fst (trace_turn rng fp g)) \<and> m_symbol (fst (trace_turn rng fp g)) = 0 \<and>
      m_msg_type (fst (trace_turn rng fp g)) \<in> {NewOrder, CancelOrder}"
    unfolding trace_turn_def Let_def by (simp add: trace_msg_def blank_msg_def assms(1))
  then show "trace_msg msg" "m_symbol msg = 0" "m_msg_type msg \<in> {NewOrder, CancelOrder}" unfolding assms(2) by auto
qed

lemma distinct_drop_nth:
  assumes "distinct xs" "i < length xs"
  shows "distinct (take i xs @ drop (i + 1) xs)" "set (take i xs @ drop (i + 1) xs) = set xs - {xs ! i}"
proof -
  have xs: "xs = take i xs @ xs ! i # drop (i + 1) xs" using id_take_nth_drop [OF assms(2)] by simp
  have "distinct (take i xs @ xs ! i # drop (i + 1) xs)" using assms(1) xs by simp
  moreover have "set xs = set (take i xs @ xs ! i # drop (i + 1) xs)" using xs by simp
  ultimately show "distinct (take i xs @ drop (i + 1) xs)" "set (take i xs @ drop (i + 1) xs) = set xs - {xs ! i}" by auto
qed

lemma trace_turn_inv:
  assumes inv: "gen_inv g (Suc n)" and turn: "trace_turn rng fp g = (msg, g')"
  shows "gen_inv g' n"
proof -
  note I = inv [unfolded gen_inv_def] and T = trace_turn_time [OF inv turn]
  from inv turn show ?thesis
  proof (cases rule: trace_turn_cases)
    case new
    then show ?thesis using I T(2) by (auto simp: gen_inv_def less_Suc_eq)
  next
    case (cancel i)
    have "distinct (gt_live g)" using I by blast
    then show ?thesis using cancel distinct_drop_nth [of "gt_live g" i] I T(2) by (auto simp: gen_inv_def)
  qed
qed

text \<open>The invariant, read off the whole flow.\<close>

definition flow_ok :: "TraceGen \<Rightarrow> (u64 \<times> MarketDataMsg) list \<Rightarrow> bool" where
  "flow_ok g tms = (distinct (new_ids (map snd tms)) \<and> (\<forall>x \<in> set (new_ids (map snd tms)). unat (gt_id_gen g) \<le> unat x) \<and>
     distinct (cancel_ids (map snd tms)) \<and>
     (\<forall>k. set (cancel_ids (take k (map snd tms))) \<subseteq> set (gt_live g) \<union> set (new_ids (take k (map snd tms)))) \<and>
     sorted_wrt (<) (map fst tms) \<and> (\<forall>ts \<in> fst ` set tms. gt_ts_ns g < ts \<and> unat ts < 2 ^ 48))"

lemma flow_cancels:
  assumes "flow_ok g tms" "x \<in> set (cancel_ids (map snd tms))"
  shows "x \<in> set (gt_live g) \<or> unat (gt_id_gen g) \<le> unat x"
proof -
  have "set (cancel_ids (take (length tms) (map snd tms))) \<subseteq> set (gt_live g) \<union> set (new_ids (take (length tms) (map snd tms)))"
    using assms(1) unfolding flow_ok_def by blast
  then show ?thesis using assms by (auto simp: flow_ok_def)
qed

lemma flow_step:
  assumes inv: "gen_inv g (Suc n)" and turn: "trace_turn rng fp g = (msg, g')" and flow: "flow_ok g' tms"
  shows "flow_ok g ((gt_ts_ns g', msg) # tms)"
proof -
  note F = flow [unfolded flow_ok_def] and T = trace_turn_time [OF inv turn] and I = inv [unfolded gen_inv_def]
  have prefix: "set (cancel_ids (take j (map snd tms))) \<subseteq> set (gt_live g') \<union> set (new_ids (take j (map snd tms)))" for j
    using F by blast
  have ts: "gt_ts_ns g < gt_ts_ns g'" "unat (gt_ts_ns g') < 2 ^ 48" using T by (simp_all add: word_less_nat_alt)
  then have times: "sorted_wrt (<) (map fst ((gt_ts_ns g', msg) # tms))"
    "\<forall>ts \<in> fst ` set ((gt_ts_ns g', msg) # tms). gt_ts_ns g < ts \<and> unat ts < 2 ^ 48"
    using F by (auto intro: less_trans)
  from inv turn show ?thesis
  proof (cases rule: trace_turn_cases)
    case new
    have "gt_id_gen g \<notin> set (new_ids (map snd tms))" using F new(3) by fastforce
    moreover have "\<forall>k. set (cancel_ids (take k (msg # map snd tms))) \<subseteq> set (gt_live g) \<union> set (new_ids (take k (msg # map snd tms)))"
    proof
      fix k show "set (cancel_ids (take k (msg # map snd tms))) \<subseteq> set (gt_live g) \<union> set (new_ids (take k (msg # map snd tms)))"
        using new prefix [of "k - 1"] by (cases k) auto
    qed
    moreover have "\<forall>x \<in> set (new_ids (map snd tms)). unat (gt_id_gen g) \<le> unat x" using F new(3) by fastforce
    ultimately show ?thesis using F new times by (simp add: flow_ok_def)
  next
    case (cancel i)
    have live: "set (gt_live g') = set (gt_live g) - {m_order_id msg}"
      using distinct_drop_nth(2) [of "gt_live g" i] I cancel by simp
    have mem: "m_order_id msg \<in> set (gt_live g)" using cancel(2,3) by simp
    then have "unat (m_order_id msg) < unat (gt_id_gen g')" using I cancel(4) by simp
    then have "m_order_id msg \<notin> set (cancel_ids (map snd tms))" using flow_cancels [OF flow, of "m_order_id msg"] live by auto
    moreover have "\<forall>k. set (cancel_ids (take k (msg # map snd tms))) \<subseteq> set (gt_live g) \<union> set (new_ids (take k (msg # map snd tms)))"
    proof
      fix k show "set (cancel_ids (take k (msg # map snd tms))) \<subseteq> set (gt_live g) \<union> set (new_ids (take k (msg # map snd tms)))"
        using cancel(1) mem live prefix [of "k - 1"] by (cases k) auto
    qed
    ultimately show ?thesis using F cancel times by (simp add: flow_ok_def)
  qed
qed

lemma trace_flow_ok: "gen_inv g n \<Longrightarrow> flow_ok g (trace_flow rng fp n g)"
proof (induction n arbitrary: g)
  case 0
  then show ?case by (simp add: flow_ok_def)
next
  case (Suc n)
  obtain msg g' where turn: "trace_turn rng fp g = (msg, g')" by fastforce
  show ?case using flow_step [OF Suc.prems turn Suc.IH [OF trace_turn_inv [OF Suc.prems turn]]] turn by simp
qed

lemma trace_flow_msgs:
  assumes "\<And>s j. in_int64 (fp s j)"
  shows "\<forall>tm \<in> set (trace_flow rng fp n g). trace_msg (snd tm)"
proof (induction n arbitrary: g)
  case (Suc n)
  obtain msg g' where "trace_turn rng fp g = (msg, g')" by fastforce
  then show ?case using Suc trace_turn_msg(1) [where fp = fp, OF assms] by simp
qed simp

subsection \<open>What the baseline sees\<close>

text \<open>The header is 32 bytes and a record 48, so each record the baseline reads straddles two events: bytes 32 to 47
  of it are the time stamp and the sequence number of an event.\<close>

lemma straddling_chunks:
  "length p = 32 \<Longrightarrow> bs \<in> set (chunks 48 (p @ concat (map store_trace_event evs))) \<Longrightarrow>
     \<exists>q e. length q = 32 \<and> e \<in> set evs \<and> bs = q @ put_le 8 (ev_timestamp_ns e) @ put_le 8 (ev_seq e)"
proof (induction evs arbitrary: p)
  case Nil
  then show ?case by (simp add: chunks.simps)
next
  case (Cons e evs)
  let ?rest = "drop 16 (store_trace_event e)"
  have e: "take 16 (store_trace_event e) = put_le 8 (ev_timestamp_ns e) @ put_le 8 (ev_seq e)"
    by (simp add: store_trace_event_def)
  have "chunks 48 (p @ concat (map store_trace_event (e # evs))) =
      (p @ take 16 (store_trace_event e)) # chunks 48 (?rest @ concat (map store_trace_event evs))"
    using Cons.prems(1) by (subst chunks.simps) simp
  then consider "bs = p @ take 16 (store_trace_event e)" | "bs \<in> set (chunks 48 (?rest @ concat (map store_trace_event evs)))"
    using Cons.prems(2) by auto
  then show ?case
  proof cases
    case 1
    then show ?thesis using Cons.prems(1) e by auto
  next
    case 2
    then show ?thesis using Cons.IH [of ?rest] by auto
  qed
qed

lemma length_straddling_chunks:
  "length p = 32 \<Longrightarrow> length (chunks 48 (p @ concat (map store_trace_event evs))) = length evs"
proof (induction evs arbitrary: p)
  case (Cons e evs)
  then show ?case using Cons.IH [of "drop 16 (store_trace_event e)"] by (subst chunks.simps) simp
qed (simp add: chunks.simps)

lemma nat_bytes_split: "nat_bytes (m + n) x = nat_bytes m x @ nat_bytes n (x div 256 ^ m)"
  by (induction m arbitrary: x) (simp_all add: div_mult2_eq)

lemma high_bytes_zero:
  assumes "unat (ts :: u64) < 2 ^ 48"
  shows "put_le 8 ts = nat_bytes 6 (unat ts) @ [0, 0]"
proof -
  have "unat ts div 256 ^ 6 = 0" using assms by simp
  then show ?thesis using nat_bytes_split [of 6 2 "unat ts"] by (simp add: put_le_def numeral_2_eq_2)
qed

text \<open>Bytes 38 and 39, which the baseline takes for side and message type, are the top bytes of a time stamp.\<close>

lemma straddling_is_buy:
  assumes "length q = 32" "unat (ts :: u64) < 2 ^ 48"
  shows "m_msg_type (load_baseline (q @ put_le 8 ts @ r)) = NewOrder" "m_side (load_baseline (q @ put_le 8 ts @ r)) = Buy"
proof -
  have "bytes_at 38 1 (q @ put_le 8 ts @ r) = [0]" "bytes_at 39 1 (q @ put_le 8 ts @ r) = [0]"
    using assms(1) high_bytes_zero [OF assms(2)] by (simp_all add: bytes_at_def)
  then show "m_msg_type (load_baseline (q @ put_le 8 ts @ r)) = NewOrder" "m_side (load_baseline (q @ put_le 8 ts @ r)) = Buy"
    by (simp_all add: load_baseline_def msg_type_of_byte_def)
qed

lemma naive_buys_only:
  "\<forall>bs \<in> set bss. m_msg_type (load_baseline bs) = NewOrder \<and> m_side (load_baseline bs) = Buy \<Longrightarrow> nb_asks nb = [] \<Longrightarrow>
     nb_asks (fold baseline_event bss nb) = [] \<and> nb_fill_count (fold baseline_event bss nb) = nb_fill_count nb"
proof (induction bss arbitrary: nb)
  case (Cons bs bss)
  have "nb_asks (baseline_event bs nb) = [] \<and> nb_fill_count (baseline_event bs nb) = nb_fill_count nb"
    using Cons.prems by (simp add: baseline_event_def naive_add_def Let_def)
  then show ?case using Cons by simp
qed simp

lemma baseline_sees_buys:
  assumes "\<forall>e \<in> set evs. unat (ev_timestamp_ns e) < 2 ^ 48" "length p = 32"
  shows "fst (baseline_read (p @ concat (map store_trace_event evs))) = length evs"
    "nb_asks (snd (baseline_read (p @ concat (map store_trace_event evs)))) = []"
    "nb_fill_count (snd (baseline_read (p @ concat (map store_trace_event evs)))) = 0"
proof -
  let ?bss = "chunks 48 (p @ concat (map store_trace_event evs))"
  have buy: "m_msg_type (load_baseline bs) = NewOrder \<and> m_side (load_baseline bs) = Buy" if "bs \<in> set ?bss" for bs
  proof -
    obtain q e where "length q = 32" "e \<in> set evs" "bs = q @ put_le 8 (ev_timestamp_ns e) @ put_le 8 (ev_seq e)"
      using straddling_chunks [OF assms(2) \<open>bs \<in> set ?bss\<close>] by blast
    then show ?thesis using straddling_is_buy assms(1) by simp
  qed
  then have "nb_asks (fold baseline_event ?bss naive_empty) = [] \<and> nb_fill_count (fold baseline_event ?bss naive_empty) = 0"
    using naive_buys_only [of ?bss naive_empty] by (simp add: naive_empty_def)
  then show "fst (baseline_read (p @ concat (map store_trace_event evs))) = length evs"
    "nb_asks (snd (baseline_read (p @ concat (map store_trace_event evs)))) = []"
    "nb_fill_count (snd (baseline_read (p @ concat (map store_trace_event evs)))) = 0"
    using length_straddling_chunks [OF assms(2)] by (simp_all add: baseline_read_def)
qed

subsection \<open>The prices of the flow\<close>

lemma replay_price_int64: "in_int64 (replay_price fused ub s j)"
  by (auto simp: replay_price_def bench_price_def to_price_def Let_def in_int64_sint split: option.splits if_splits)

text \<open>The jitter is meant to be between -10 and 10 steps; the subtraction is done in \<^verbatim>\<open>uint64_t\<close> and wraps.\<close>

lemma jitter_range: "if r mod 21 < 10 then 2 ^ 64 - 10 \<le> unat (jitter_steps r) else unat (jitter_steps r) \<le> 10"
proof -
  have r: "unat (r mod 21) < 21" by (simp add: unat_mod)
  show ?thesis
  proof (cases "r mod 21 < 10")
    case True
    then have "unat (r mod 21) < 10" by (simp add: word_less_nat_alt)
    then show ?thesis using True by (simp add: jitter_steps_def unat_sub_if_size word_size)
  next
    case False
    then have "10 \<le> unat (r mod 21)" by (simp add: word_less_nat_alt)
    then show ?thesis using False r by (simp add: jitter_steps_def unat_sub_if_size word_size)
  qed
qed

lemma rnd_half:
  assumes "0 \<le> x"
  shows "x / 2 - 1 \<le> rnd x"
proof -
  have "\<bar>rnd x - x\<bar> \<le> \<bar>x\<bar> / 2 ^ 53 + 1 / 2 ^ 200" by (rule rnd_bound)
  moreover have "\<bar>x\<bar> / 2 ^ 53 + 1 / 2 ^ 200 \<le> x / 2 + 1" using assms by simp
  ultimately show ?thesis by linarith
qed

lemma to_price_huge:
  assumes "10 ^ 14 \<le> d"
  shows "to_price d = None"
proof -
  have "d * 1000000 / 2 - 1 \<le> rnd (d * 1000000)" using assms by (intro rnd_half) simp
  then have "of_int (2 ^ 63) \<le> rnd (d * 1000000)" using assms by simp
  then have "2 ^ 63 \<le> \<lfloor>rnd (d * 1000000)\<rfloor>" "0 \<le> rnd (d * 1000000)" unfolding le_floor_iff by (assumption, simp)
  then show ?thesis by (simp add: to_price_def trunc_def in_int64_def)
qed

lemma mul_add_huge:
  assumes "0 \<le> a" "2 ^ 63 \<le> k" "1 / 400 \<le> c"
  shows "10 ^ 14 \<le> mul_add fused a k c"
proof -
  have "of_int (2 ^ 63) \<le> (of_int k :: rat)" using assms(2) by (simp only: of_int_le_iff)
  then have "2 ^ 61 \<le> rnd (of_int k)" using rnd_half [of "of_int k"] by simp
  then have "2 ^ 61 * (1 / 400) \<le> rnd (of_int k) * c" using assms(3) by (intro mult_mono) auto
  then have x: "5 * 10 ^ 15 \<le> rnd (of_int k) * c" by simp
  then have "2000000000000000 \<le> rnd (rnd (of_int k) * c)" using rnd_half [of "rnd (of_int k) * c"] by simp
  moreover have "100000000000000 \<le> rnd z" if "2000000000000000 \<le> z" for z
    using that rnd_half [of z] by simp
  then have "100000000000000 \<le> rnd (a + y)" if "2000000000000000 \<le> y" for y using that assms(1) by (meson add_increasing)
  ultimately show ?thesis using x by (simp add: mul_add_def Let_def)
qed

text \<open>A base of 99.99 or 100.01, in steps of half a cent.\<close>

lemma bench_base_near: "\<bar>bench_base s - (if s = Buy then 9999 / 100 else 10001 / 100)\<bar> \<le> 1 / 10000000000"
proof -
  have s: "\<bar>rnd (2 / 100) - 2 / 100 :: rat\<bar> \<le> 1 / 1000000000000" using rnd_small [of "2 / 100"] by simp
  then have "\<bar>rnd (2 / 100) / 2 :: rat\<bar> \<le> 1000" by linarith
  then have h: "\<bar>rnd (rnd (2 / 100) / 2) - rnd (2 / 100) / 2\<bar> \<le> 1 / 1000000000000"
    using rnd_small [of "rnd (2 / 100) / 2"] by simp
  have "\<bar>rnd y - y\<bar> \<le> 1 / 1000000000000" if "\<bar>y\<bar> \<le> 1000" for y using rnd_small [OF that] by simp
  moreover have "\<bar>100 - rnd (rnd (2 / 100) / 2)\<bar> \<le> 1000" "\<bar>100 + rnd (rnd (2 / 100) / 2)\<bar> \<le> 1000" using s h by linarith+
  ultimately have "\<bar>rnd (100 - rnd (rnd (2 / 100) / 2)) - (100 - rnd (rnd (2 / 100) / 2))\<bar> \<le> 1 / 1000000000000"
    "\<bar>rnd (100 + rnd (rnd (2 / 100) / 2)) - (100 + rnd (rnd (2 / 100) / 2))\<bar> \<le> 1 / 1000000000000" by blast+
  then have "\<bar>rnd (100 - rnd (rnd (2 / 100) / 2)) - 9999 / 100\<bar> \<le> 1 / 10000000000"
    "\<bar>rnd (100 + rnd (rnd (2 / 100) / 2)) - 10001 / 100\<bar> \<le> 1 / 10000000000" using s h by linarith+
  then show ?thesis unfolding bench_base_def Let_def by presburger
qed

definition step_price :: "Side \<Rightarrow> u64 \<Rightarrow> Price" where
  "step_price s j = (if s = Buy then 99990000 else 100010000) + 5000 * uint j"

lemma bench_price_near:
  assumes "unat j \<le> 10"
  shows "bench_price fused s j = Some (step_price s j) \<or> bench_price fused s j = Some (step_price s j - 1)"
proof -
  let ?a = "bench_base s" and ?b = "if s = Buy then 9999 / 100 else 10001 / 100 :: rat"
  have "int (unat j) \<le> int 10" using assms by (simp only: of_nat_le_iff)
  then have j: "0 \<le> uint j" "uint j \<le> 10" by simp_all
  note a = bench_base_near [of s]
  have "?b = 9999 / 100 \<or> ?b = 10001 / 100" by simp
  then have "\<bar>?a\<bar> \<le> 500" using a by linarith
  then have "\<bar>mul_add fused ?a (uint j) (rnd (5 / 1000)) - (?a + of_int (uint j) * (5 / 1000))\<bar> \<le> 1 / 10 ^ 8"
    using j by (intro mul_add_near) (assumption, simp_all)
  then have m: "\<bar>mul_add fused ?a (uint j) (rnd (5 / 1000)) - (?a + of_int (uint j) * 5 / 1000)\<bar> \<le> 1 / 100000000" by simp
  have "of_int (step_price s j) / 1000000 = ?b + of_int (uint j) * 5 / 1000" by (simp add: step_price_def)
  then have "\<bar>mul_add fused ?a (uint j) (rnd (5 / 1000)) - of_int (step_price s j) / 1000000\<bar> \<le> 1 / 10000000" using m a by linarith
  then have near: "\<bar>mul_add fused ?a (uint j) (rnd (5 / 1000)) - of_int (step_price s j) / 1000000\<bar> \<le> 1 / 10 ^ 7" by simp
  have "step_price s j = 99990000 + 5000 * uint j \<or> step_price s j = 100010000 + 5000 * uint j" by (simp add: step_price_def)
  then have "0 < step_price s j" "step_price s j < 1000000000" using j by linarith+
  then show ?thesis unfolding bench_price_def by (intro to_price_ticks [OF near]) simp_all
qed

lemma bench_price_undefined:
  assumes "2 ^ 64 - 10 \<le> unat j"
  shows "bench_price fused s j = None"
proof -
  have "int (2 ^ 64 - 10) \<le> int (unat j)" using assms by (simp only: of_nat_le_iff)
  then have j: "2 ^ 63 \<le> uint j" by simp
  have "\<bar>rnd (5 / 1000) - 5 / 1000 :: rat\<bar> \<le> 1 / 1000000000000" using rnd_small [of "5 / 1000"] by simp
  then have c: "1 / 400 \<le> (rnd (5 / 1000) :: rat)" by linarith
  have "(if s = Buy then 9999 / 100 else 10001 / 100 :: rat) = 9999 / 100 \<or> (if s = Buy then 9999 / 100 else 10001 / 100 :: rat) = 10001 / 100"
    by simp
  then have "0 \<le> bench_base s" using bench_base_near [of s] by linarith
  from to_price_huge [OF mul_add_huge [OF this j c]] show ?thesis unfolding bench_price_def .
qed

lemma bench_price_draws:
  "bench_price fused s (jitter_steps r) = None \<longleftrightarrow> r mod 21 < 10"
  using jitter_range [of r] bench_price_undefined [of "jitter_steps r" fused s] bench_price_near [of "jitter_steps r" fused s]
  by (auto split: if_splits)

subsection \<open>Property\<close>

lemma trace_start_inv: "n < 2 ^ 31 \<Longrightarrow> gen_inv trace_start n"
  by (simp add: gen_inv_def trace_start_def)

lemma flow_fresh:
  assumes "flow_ok trace_start tms"
  shows "msgs_fresh (map snd tms) (ref_boot [0])"
proof (rule distinct_ids_fresh)
  have "\<forall>x \<in> set (new_ids (map snd tms)). 1 \<le> unat x" using assms by (simp add: flow_ok_def trace_start_def)
  then show "0 \<notin> set (new_ids (map snd tms))" by force
qed (use assms boot_resting in \<open>auto simp: flow_ok_def\<close>)

text \<open>The program ends when the engine thread falls silent in both replays; each replay adds the \<open>n\<close> events of the file to what its
  counters held before, which nothing has set.\<close>

lemma replay_main_counts:
  assumes env: "env_ok env1 K1" "env_ok env2 K2" and me: "out_ok me" and ev: "trace_events bs = Some evs"
  shows "\<exists>r1 r2 me' base. replay_main env1 env2 clock1 clock2 res1 res2 elapsed (Some bs) me = Some (Inr (r1, r2, me', base)) \<and>
     handled_count r1 = handled_count res1 + of_nat (length evs) \<and> handled_count r2 = handled_count res2 + of_nat (length evs)"
proof -
  have cfg: "pace_ok max_speed_cfg" "pace_ok throttled_cfg" by (simp_all add: pace_ok_def max_speed_cfg_def throttled_cfg_def)
  obtain ok1 r1 me1 polled1 where 1: "replay max_speed_cfg env1 clock1 (Some bs) res1 me = Some (Inr (ok1, r1, me1, polled1))"
    "handled_count r1 = handled_count res1 + of_nat (length evs)" "out_ok me1"
    using replay_counts [OF env(1) cfg(1) me, of clock1 "Some bs" res1] ev by auto
  obtain ok2 r2 me2 polled2 where "replay throttled_cfg env2 clock2 (Some bs) res2 me1 = Some (Inr (ok2, r2, me2, polled2))"
    "handled_count r2 = handled_count res2 + of_nat (length evs)"
    using replay_counts [OF env(2) cfg(2) 1(3), of clock2 "Some bs" res2] ev by auto
  with 1 show ?thesis by (simp add: replay_main_def case_prod_unfold)
qed

text \<open>So two runs over the same file print different totals when the memory differs.\<close>

lemma raw_counters_show:
  assumes "env_ok env1 K1" "env_ok env2 K2" "out_ok me" "trace_events bs = Some evs" "a \<noteq> b"
    "replay_main env1 env2 clock1 clock2 (raw_result a 0 0) res2 elapsed (Some bs) me = Some (Inr (r1, s1))"
    "replay_main env1 env2 clock1 clock2 (raw_result b 0 0) res2 elapsed (Some bs) me = Some (Inr (r2, s2))"
  shows "handled_count r1 \<noteq> handled_count r2"
  using replay_main_counts [OF assms(1-4), of clock1 clock2 "raw_result a 0 0" res2 elapsed]
    replay_main_counts [OF assms(1-4), of clock1 clock2 "raw_result b 0 0" res2 elapsed] assms(5-7)
  by (auto simp: raw_result_def handled_count_def)

text \<open>C17. The benchmark's trace.  Whatever the random numbers and whatever an undefined conversion yields, the generated file
  reads back as \<open>n\<close> events with increasing time stamps, in which no order id is issued twice, every cancellation names an order
  issued before and not cancelled yet, and every message may be handed to the engine as one that reuses no
  resting id; so a replay of it computes what the reference engine computes.  The price of a resting order is meant to be up to ten
  steps of half a cent below or above the base of its side, but for the draws that mean a step below, the conversion
  is undefined.  The baseline, which reads the same file as if it had no header, counts \<open>n\<close> events too, but never sees a sell
  order or a cancellation, and reports no fills at all.\<close>

theorem generated_trace:
  assumes "n < 2 ^ 31"
  shows "(\<exists>file evs. generate_trace rng (replay_price fused ub) True n = Some file \<and> trace_events file = Some evs \<and> length evs = n \<and>
     sorted_wrt (<) (map ev_timestamp_ns evs) \<and> distinct (new_ids (map trace_event_to_msg evs)) \<and>
     distinct (cancel_ids (map trace_event_to_msg evs)) \<and>
     (\<forall>k. set (cancel_ids (take k (map trace_event_to_msg evs))) \<subseteq> set (new_ids (take k (map trace_event_to_msg evs)))) \<and>
     msgs_fresh (map trace_event_to_msg evs) (ref_boot [0]) \<and>
     fst (baseline_read file) = n \<and> nb_asks (snd (baseline_read file)) = [] \<and> nb_fill_count (snd (baseline_read file)) = 0) \<and>
     (bench_price fused s (jitter_steps r) = None \<longleftrightarrow> r mod 21 < 10)"
proof (rule conjI [OF _ bench_price_draws])
  let ?fp = "replay_price fused ub"
  let ?tms = "trace_flow rng ?fp n trace_start"
  let ?evs = "map (\<lambda>(ts, m). msg_to_trace_event ts m) ?tms"
  have flow: "flow_ok trace_start ?tms" using trace_flow_ok trace_start_inv assms(1) by blast
  have typed: "\<forall>tm \<in> set ?tms. trace_msg (snd tm)" using trace_flow_msgs replay_price_int64 by blast
  have msgs: "map trace_event_to_msg ?evs = map snd ?tms" using typed by (auto simp: msg_trace_roundtrip)
  have times: "map ev_timestamp_ns ?evs = map fst ?tms" by (simp add: msg_to_trace_event_def case_prod_unfold comp_def)
  have "length ?tms < 2 ^ 64" using assms(1) by simp
  then obtain bs where f: "writer_close (write_all ?tms (writer_open True)) = Some bs" "trace_events bs = Some ?evs"
    using trace_events_written [OF typed] by blast
  obtain p where p: "length p = 32" "bs = p @ concat (map store_trace_event ?evs)"
    using write_all_file [of "writer_open True" _ ?tms] f(1)
    by (fastforce simp: writer_open_def writer_close_def case_prod_unfold comp_def)
  have "\<forall>ts \<in> fst ` set ?tms. unat ts < 2 ^ 48" using flow unfolding flow_ok_def by blast
  then have "\<forall>e \<in> set ?evs. unat (ev_timestamp_ns e) < 2 ^ 48" by (auto simp: msg_to_trace_event_def)
  note base = baseline_sees_buys [OF this p(1), folded p(2)]
  have "generate_trace rng ?fp True n = Some bs"
    using f(1) by (simp add: generate_trace_def trace_loop_writes)
  moreover have "set (gt_live trace_start) = {}" by (simp add: trace_start_def)
  ultimately show "\<exists>file evs. generate_trace rng ?fp True n = Some file \<and> trace_events file = Some evs \<and> length evs = n \<and>
     sorted_wrt (<) (map ev_timestamp_ns evs) \<and> distinct (new_ids (map trace_event_to_msg evs)) \<and>
     distinct (cancel_ids (map trace_event_to_msg evs)) \<and>
     (\<forall>k. set (cancel_ids (take k (map trace_event_to_msg evs))) \<subseteq> set (new_ids (take k (map trace_event_to_msg evs)))) \<and>
     msgs_fresh (map trace_event_to_msg evs) (ref_boot [0]) \<and>
     fst (baseline_read file) = n \<and> nb_asks (snd (baseline_read file)) = [] \<and> nb_fill_count (snd (baseline_read file)) = 0"
    using f(2) base flow flow_fresh [OF flow] unfolding flow_ok_def
    by (intro exI [of _ bs] exI [of _ ?evs]) (simp add: msgs times del: map_map)
qed

theorem generated_trace_witness:
  "(\<exists>file evs. generate_trace (\<lambda>k. of_nat k) (replay_price True (\<lambda>_ _. 0x8000000000000000)) True 100 = Some file \<and>
     trace_events file = Some evs \<and> length evs = 100 \<and> distinct (new_ids (map trace_event_to_msg evs)) \<and>
     nb_fill_count (snd (baseline_read file)) = 0) \<and> bench_price True Buy (jitter_steps 9) = None"
proof -
  have n: "(100 :: nat) < 2 ^ 31" by simp
  have "(9 :: u64) mod 21 < 10" by simp
  then show ?thesis using generated_trace [OF n, of "\<lambda>k. of_nat k" True "\<lambda>_ _. 0x8000000000000000" Buy 9] by blast
qed

end
