(* ===== verification/Bench_Books.thy ===== *)
theory Bench_Books
  imports Id_Source Simulation "HOL-Library.Multiset"
begin

text \<open>
  The order flows of the benchmarks that drive a book or an engine directly: \<^verbatim>\<open>bench/bench_multisymbol.cpp\<close>
  (\<^verbatim>\<open>gen_events\<close>, \<^verbatim>\<open>run_shard\<close>), the first part of \<^verbatim>\<open>bench/bench_latency.cpp\<close> (\<^verbatim>\<open>bench_order_book\<close>, \<^verbatim>\<open>print_pcts\<close>) and the producer of
  \<^verbatim>\<open>bench/bench_throughput.cpp\<close>.  Random numbers and the clock are arguments; the flows take their price
  functions as arguments, and the ones of the programs are defined next to them.  The theory shows that each flow numbers its orders without repetition, so
  that what the benchmarks measure is the behaviour the reference book specifies.
\<close>

unbundle bit_operations_syntax

subsection \<open>Shards of independent books\<close>

datatype EventKind = AddEvent | CancelEvent

record Event =
  be_kind :: EventKind
  be_id :: OrderId
  be_side :: Side
  be_price :: Price
  be_qty :: Qty
  be_type :: OrderType

record EventGen =
  eg_draws :: nat
  eg_live :: "OrderId list"
  eg_next_id :: OrderId

text \<open>\<^verbatim>\<open>live[k] = live.back(); live.pop_back();\<close>\<close>

definition swap_pop :: "nat \<Rightarrow> 'a list \<Rightarrow> 'a list" where
  "swap_pop k xs = butlast (xs[k := last xs])"

definition events_turn :: "(nat \<Rightarrow> u64) \<Rightarrow> EventGen \<Rightarrow> Event \<times> EventGen" where
  "events_turn rng g = (
     let d = eg_draws g; live = eg_live g; roll = rng d mod 100
     in if roll < 70 \<or> live = [] then
          let t = rng (d + 4) mod 100;
              e = \<lparr>be_kind = AddEvent, be_id = eg_next_id g,
                   be_side = (if rng (d + 1) AND 1 \<noteq> 0 then Buy else Sell),
                   be_price = 100000000 + (uint (rng (d + 2) mod 41) - 20) * 10000,
                   be_qty = ucast (1 + rng (d + 3) mod 500),
                   be_type = (if t < 80 then Limit else if t < 90 then Market else IOC)\<rparr>
          in (e, \<lparr>eg_draws = d + 5, eg_live = (if be_type e = Limit then live @ [be_id e] else live), eg_next_id = eg_next_id g + 1\<rparr>)
        else
          let k = unat (rng (d + 1) mod of_nat (length live))
          in (\<lparr>be_kind = CancelEvent, be_id = live ! k, be_side = Buy, be_price = 0, be_qty = 0, be_type = Limit\<rparr>,
              \<lparr>eg_draws = d + 2, eg_live = swap_pop k live, eg_next_id = eg_next_id g\<rparr>))"

primrec events_loop :: "(nat \<Rightarrow> u64) \<Rightarrow> nat \<Rightarrow> EventGen \<Rightarrow> Event list" where
  "events_loop rng 0 g = []"
| "events_loop rng (Suc n) g = (let (e, g') = events_turn rng g in e # events_loop rng n g')"

definition gen_events :: "(nat \<Rightarrow> u64) \<Rightarrow> nat \<Rightarrow> Event list" where
  "gen_events rng n = events_loop rng n \<lparr>eg_draws = 0, eg_live = [], eg_next_id = 1\<rparr>"

text \<open>\<^verbatim>\<open>run_shard\<close> without the barrier and the clock: the reports its callback collects.\<close>

definition shard_order :: "Event \<Rightarrow> Order" where
  "shard_order e = \<lparr>o_id = be_id e, o_price = be_price e, o_qty = be_qty e, o_qty_remaining = be_qty e, o_symbol = 0,
     o_side = be_side e, o_type = be_type e, o_status = StatusNew, o_account_id = 0\<rparr>"

primrec shard_events :: "Event list \<Rightarrow> OrderBook \<Rightarrow> ExecutionReport list \<Rightarrow> ExecutionReport list option" where
  "shard_events [] book fills = Some fills"
| "shard_events (e # events) book fills = (
     if be_kind e = AddEvent then
       do { (_, book', rpts) \<leftarrow> add_order (shard_order e) book; shard_events events book' (fills @ rpts) }
     else do { (_, book') \<leftarrow> cancel_order (be_id e) book; shard_events events book' fills })"

definition run_shard :: "OrderBook \<Rightarrow> Event list \<Rightarrow> ExecutionReport list option" where
  "run_shard raw events = shard_events events (new_book 0 True raw) []"

text \<open>\<^verbatim>\<open>main\<close>: the generator of a seed is an argument \<open>mt\<close>, and so is the time \<open>secs n i\<close>, positive, that shard \<open>i\<close> of \<open>n\<close> takes.  The shards share
  nothing but the barriers, so each result is a function of its own stream.\<close>

definition kEventsPerShard :: nat where "kEventsPerShard = 500000"

record ShardResult =
  msgs_per_sec :: rat
  sr_fills :: nat

definition shard_stream :: "(u64 \<Rightarrow> nat \<Rightarrow> u64) \<Rightarrow> nat \<Rightarrow> Event list" where
  "shard_stream mt i = gen_events (mt (of_nat (i + 1) * 0xDEADBEEF)) kEventsPerShard"

definition shard_result :: "OrderBook \<Rightarrow> rat \<Rightarrow> Event list \<Rightarrow> ShardResult option" where
  "shard_result raw secs events = map_option (\<lambda>fills. \<lparr>msgs_per_sec = rnd (rnd (of_nat (length events)) / secs), sr_fills = length fills\<rparr>)
     (run_shard raw events)"

definition shard_row :: "(u64 \<Rightarrow> nat \<Rightarrow> u64) \<Rightarrow> OrderBook \<Rightarrow> (nat \<Rightarrow> nat \<Rightarrow> rat) \<Rightarrow> nat \<Rightarrow> (rat \<times> rat \<times> nat) option" where
  "shard_row mt raw secs n = map_option (\<lambda>results.
     let agg = foldl (\<lambda>a r. rnd (a + msgs_per_sec r)) 0 results in (agg, rnd (agg / rnd (of_nat n)), sum_list (map sr_fills results)))
     (those (map (\<lambda>i. shard_result raw (secs n i) (shard_stream mt i)) [0..<n]))"

text \<open>The rows for 1, 2, 4 and 8 shards, with the scaling against the first.\<close>

definition shard_rows :: "(u64 \<Rightarrow> nat \<Rightarrow> u64) \<Rightarrow> OrderBook \<Rightarrow> (nat \<Rightarrow> nat \<Rightarrow> rat) \<Rightarrow> (nat \<times> rat \<times> rat \<times> rat) list option" where
  "shard_rows mt raw secs = do {
     (_, baseline, _) \<leftarrow> shard_row mt raw secs 1;
     those (map (\<lambda>n. map_option (\<lambda>(agg, per_shard, _). (n, rnd (agg / 1000000), rnd (per_shard / 1000000), rnd (per_shard / baseline))) (shard_row mt raw secs n)) [1, 2, 4, 8]) }"

subsection \<open>The flow of the latency benchmark\<close>

text \<open>The lambda \<^verbatim>\<open>make\<close>: the counter \<^verbatim>\<open>id\<close> is its state.\<close>

definition make_order :: "Side \<times> Price \<times> Qty \<Rightarrow> u64 \<Rightarrow> Order \<times> u64" where
  "make_order spec i = (case spec of (s, p, q) \<Rightarrow> (\<lparr>o_id = i, o_price = p, o_qty = q, o_qty_remaining = q, o_symbol = 0,
     o_side = s, o_type = Limit, o_status = StatusNew, o_account_id = 0\<rparr>, i + 1))"

primrec make_all :: "(Side \<times> Price \<times> Qty) list \<Rightarrow> u64 \<Rightarrow> Order list \<times> u64" where
  "make_all [] i = ([], i)"
| "make_all (spec # specs) i = (let (od, i1) = make_order spec i; (ods, i2) = make_all specs i1 in (od # ods, i2))"

definition alternate :: "nat \<Rightarrow> (Side \<Rightarrow> Price) \<Rightarrow> Qty \<Rightarrow> (Side \<times> Price \<times> Qty) list" where
  "alternate n px q = map (\<lambda>i. let s = (if i mod 2 = 0 then Buy else Sell) in (s, px s, q)) [0..<n]"

definition seed_specs :: "(nat \<Rightarrow> Price) \<Rightarrow> (nat \<Rightarrow> Price) \<Rightarrow> (Side \<times> Price \<times> Qty) list" where
  "seed_specs ask_px bid_px = concat (map (\<lambda>i. [(Sell, ask_px i, 1000), (Buy, bid_px i, 1000)]) [0..<200])"

definition odd_buys :: "nat \<Rightarrow> (nat \<Rightarrow> Price) \<Rightarrow> (Side \<times> Price \<times> Qty) list" where
  "odd_buys n px = map (\<lambda>i. (if i mod 2 \<noteq> 0 then Buy else Sell, px i, 10)) [0..<n]"

text \<open>The calls \<^verbatim>\<open>bench_order_book\<close> makes on its book, in order, with \<open>n\<close> for \<^verbatim>\<open>N\<close> (500000), \<open>w\<close> orders of warm-up
  (50000) and \<open>t\<close> of the throughput run (1000000).\<close>

definition latency_ops :: "(nat \<Rightarrow> Price) \<Rightarrow> (nat \<Rightarrow> Price) \<Rightarrow> (Side \<Rightarrow> Price) \<Rightarrow> (nat \<Rightarrow> Price) \<Rightarrow> nat \<Rightarrow> nat \<Rightarrow> nat \<Rightarrow> BookOp list" where
  "latency_ops ask_px bid_px aggr_px last_px w n t = (
     let (seed, i1) = make_all (seed_specs ask_px bid_px) 1;
         (warm, i2) = make_all (odd_buys w (\<lambda>_. 99500000)) i1;
         (passive, i3) = make_all (alternate n (\<lambda>s. if s = Buy then 98000000 else 102000000) 100) i2;
         (aggr, i4) = make_all (alternate n aggr_px 50) i3;
         (doomed, i5) = make_all (alternate n (\<lambda>s. if s = Buy then 97000000 else 103000000) 100) i4;
         (burst, i6) = make_all (odd_buys t (\<lambda>i. last_px (i mod 3))) i5
     in map AddOp (seed @ warm @ passive @ aggr @ doomed) @ map (\<lambda>od. CancelOp (o_id od)) doomed @ map AddOp burst)"

text \<open>Its price functions.  The difference \<^verbatim>\<open>99.0 - i*0.01\<close> is the sum with the negated multiple, since rounding is symmetric.\<close>

definition cent_price :: "bool \<Rightarrow> rat \<Rightarrow> int \<Rightarrow> Price option" where
  "cent_price fused base k = to_price (mul_add fused (rnd base) k (rnd (1 / 100)))"

definition ask_price :: "bool \<Rightarrow> nat \<Rightarrow> Price option" where
  "ask_price fused i = cent_price fused 100 (int i)"

definition bid_price :: "bool \<Rightarrow> nat \<Rightarrow> Price option" where
  "bid_price fused i = cent_price fused 99 (- int i)"

definition aggr_price :: "Side \<Rightarrow> Price option" where
  "aggr_price s = to_price (if s = Buy then rnd (100005 / 1000) else rnd (99995 / 1000))"

definition burst_price :: "bool \<Rightarrow> nat \<Rightarrow> Price option" where
  "burst_price fused k = cent_price fused (995 / 10) (int k)"

definition bench_order_book :: "bool \<Rightarrow> nat \<Rightarrow> nat \<Rightarrow> nat \<Rightarrow> BookOp list" where
  "bench_order_book fused = latency_ops (\<lambda>i. the (ask_price fused i)) (\<lambda>i. the (bid_price fused i)) (\<lambda>s. the (aggr_price s))
     (\<lambda>k. the (burst_price fused k))"

text \<open>The messages \<^verbatim>\<open>bench_end_to_end\<close> submits, each repeated until the queue accepts it: 100 seed pairs with ids from 1, then
  \<open>w\<close> (20000) warm-up and \<open>n\<close> (200000) measured orders with ids counted on from 200000.\<close>

definition limit_msg :: "OrderId \<Rightarrow> Side \<Rightarrow> Price \<Rightarrow> Qty \<Rightarrow> MarketDataMsg" where
  "limit_msg i s p q = \<lparr>m_seq = 0, m_order_id = i, m_price = p, m_qty = q, m_symbol = 0, m_side = s,
     m_msg_type = NewOrder, m_order_type = Limit\<rparr>"

definition seed_msgs :: "(nat \<Rightarrow> Price) \<Rightarrow> (nat \<Rightarrow> Price) \<Rightarrow> MarketDataMsg list" where
  "seed_msgs ask_px bid_px = concat (map (\<lambda>i. [limit_msg (of_nat (2 * i + 1)) Sell (ask_px i) 1000,
     limit_msg (of_nat (2 * i + 2)) Buy (bid_px i) 1000]) [0..<100])"

definition warm_msgs :: "nat \<Rightarrow> MarketDataMsg list" where
  "warm_msgs w = map (\<lambda>i. limit_msg (200000 + of_nat (i + 1)) (if i mod 2 = 0 then Buy else Sell) 99500000 10) [0..<w]"

definition measured_msgs :: "nat \<Rightarrow> nat \<Rightarrow> MarketDataMsg list" where
  "measured_msgs w n = map (\<lambda>i. let s = (if i mod 2 = 0 then Buy else Sell)
     in limit_msg (200000 + of_nat (w + i + 1)) s
          (if i mod 5 < 3 then (if s = Buy then 98000000 else 102000000) else (if s = Buy then 100500000 else 99500000))
          (of_nat (50 + (i mod 5) * 10))) [0..<n]"

definition end_to_end_msgs :: "(nat \<Rightarrow> Price) \<Rightarrow> (nat \<Rightarrow> Price) \<Rightarrow> nat \<Rightarrow> nat \<Rightarrow> MarketDataMsg list" where
  "end_to_end_msgs ask_px bid_px w n = seed_msgs ask_px bid_px @ warm_msgs w @ measured_msgs w n"

definition bench_end_to_end :: "bool \<Rightarrow> nat \<Rightarrow> nat \<Rightarrow> MarketDataMsg list" where
  "bench_end_to_end fused = end_to_end_msgs (\<lambda>i. the (ask_price fused i)) (\<lambda>i. the (bid_price fused i))"

text \<open>\<^verbatim>\<open>print_pcts\<close>: the mean and the percentiles of the sorted samples; an empty vector is accessed out of bounds.\<close>

definition print_pcts :: "u64 list \<Rightarrow> (rat \<times> u64 \<times> u64 \<times> u64 \<times> u64) option" where
  "print_pcts v = (let v = sort v; n = length v; mean = fdiv_u64 (sum_list v) (of_nat n)
     in if n = 0 then None else Some (mean, v ! (n * 50 div 100), v ! (n * 90 div 100), v ! (n * 99 div 100), v ! (n * 999 div 1000)))"

subsection \<open>The producer of the throughput benchmark\<close>

record Producer =
  pr_msg :: MarketDataMsg
  pr_id :: u64
  pr_produced :: u64

definition producer_price :: "bool \<Rightarrow> u64 \<Rightarrow> Price option" where
  "producer_price fused k = cent_price fused 100 (uint k)"

text \<open>\<open>px k\<close> is the price for \<open>k = id % 5\<close>.  Price and side use the incremented id.\<close>

definition producer_turn :: "(u64 \<Rightarrow> Price) \<Rightarrow> (MarketDataMsg \<Rightarrow> 'e \<Rightarrow> bool \<times> 'e) \<Rightarrow> Producer \<Rightarrow> 'e \<Rightarrow> Producer \<times> 'e" where
  "producer_turn px submit p env = (
     let i = pr_id p + 1;
         msg = (pr_msg p)\<lparr>m_msg_type := NewOrder, m_order_id := pr_id p, m_price := px (i mod 5), m_qty := 100,
           m_side := (if i mod 2 = 0 then Buy else Sell)\<rparr>;
         (ok, env') = submit msg env
     in (p\<lparr>pr_msg := msg, pr_id := i, pr_produced := (if ok then pr_produced p + 1 else pr_produced p)\<rparr>, env'))"

definition producer_start :: Producer where
  "producer_start = \<lparr>pr_msg = \<lparr>m_seq = 0, m_order_id = 0, m_price = 0, m_qty = 0, m_symbol = 0, m_side = Buy,
     m_msg_type = NewOrder, m_order_type = Limit\<rparr>, pr_id = 1, pr_produced = 0\<rparr>"

text \<open>The rates \<^verbatim>\<open>main\<close> prints, for messages in and out, over five seconds.\<close>

definition throughput_rate :: "u64 \<Rightarrow> rat" where
  "throughput_rate msgs = rnd (rnd (of_int (uint msgs)) / rnd (1000000 * 5))"

subsection \<open>Shards compute what the reference book computes\<close>

definition shard_op :: "Event \<Rightarrow> BookOp" where
  "shard_op e = (if be_kind e = AddEvent then AddOp (shard_order e) else CancelOp (be_id e))"

lemma events_turn_ids:
  "events_turn rng g = (e, g') \<Longrightarrow> (if be_kind e = AddEvent then be_id e = eg_next_id g \<and> eg_next_id g' = eg_next_id g + 1
     else eg_next_id g' = eg_next_id g)"
  by (cases "rng (eg_draws g) mod 100 < 70 \<or> eg_live g = []") (auto simp: events_turn_def Let_def)

interpretation shardgen: id_source "\<lambda>g. apfst shard_op (events_turn rng g)" eg_next_id for rng
proof
  fix g g' :: EventGen and od
  assume "apfst shard_op (events_turn rng g) = (AddOp od, g')"
  then obtain e where e: "events_turn rng g = (e, g')" "be_kind e = AddEvent" "od = shard_order e"
    by (cases "events_turn rng g") (auto simp: shard_op_def split: if_splits)
  then show "o_id od = eg_next_id g \<and> eg_next_id g' = eg_next_id g + 1"
    using events_turn_ids [OF e(1)] by (simp add: shard_order_def)
next
  fix g g' :: EventGen and op
  assume "apfst shard_op (events_turn rng g) = (op, g')" "add_ids [op] = []"
  then obtain e where e: "events_turn rng g = (e, g')" "be_kind e \<noteq> AddEvent"
    by (cases "events_turn rng g") (auto simp: shard_op_def split: if_splits)
  then show "eg_next_id g' = eg_next_id g" using events_turn_ids [OF e(1)] by simp
qed

lemma events_loop_ops: "map shard_op (events_loop rng n g) = shardgen.stream rng n g"
  by (induction n arbitrary: g) (simp_all add: case_prod_unfold Let_def)

lemma shard_events_run:
  "run_ops book_step (map shard_op es) b = Some (outs, b') \<Longrightarrow> shard_events es b acc = Some (acc @ concat (map snd outs))"
proof (induction es arbitrary: b acc outs)
  case (Cons e es)
  then show ?case
    by (cases "be_kind e = AddEvent") (auto simp: shard_op_def book_step_def split: Option.bind_splits)
qed simp

text \<open>Whatever the seed, a shard ends with the fills of the reference book for its stream.\<close>

lemma run_shard_fills:
  assumes "n < 2 ^ 64"
  shows "\<exists>rpts. run_shard raw (gen_events rng n) = Some rpts \<and>
     map report_fill rpts = concat (map snd (fst (ref_run (map shard_op (gen_events rng n)) \<lparr>rb_bids = [], rb_asks = []\<rparr>)))"
proof -
  let ?ops = "map shard_op (gen_events rng n)" and ?g = "\<lparr>eg_draws = 0, eg_live = [], eg_next_id = 1\<rparr>"
  have "unat (eg_next_id ?g) + n \<le> 2 ^ 64" using assms by simp
  then have "distinct (add_ids ?ops)" using shardgen.stream_ids unfolding gen_events_def events_loop_ops by blast
  then obtain outs b where run: "run_ops book_step ?ops (new_book 0 True raw) = Some (outs, b)"
    "ref_run ?ops \<lparr>rb_bids = [], rb_asks = []\<rparr> = (map (\<lambda>(ok, rs). (ok, map report_fill rs)) outs, abs_book b)"
    by (rule new_book_run)
  have "run_shard raw (gen_events rng n) = Some (concat (map snd outs))"
    using shard_events_run [OF run(1), of "[]"] by (simp add: run_shard_def)
  moreover have "map report_fill (concat (map snd outs)) = concat (map snd (map (\<lambda>(ok, rs). (ok, map report_fill rs)) outs))"
    by (simp add: map_concat comp_def case_prod_unfold)
  ultimately show ?thesis unfolding run(2) by auto
qed

text \<open>Every shard of every row returns, and the fills of a row are those of as many reference books.\<close>

definition ref_fills :: "Event list \<Rightarrow> nat" where
  "ref_fills events = length (concat (map snd (fst (ref_run (map shard_op events) \<lparr>rb_bids = [], rb_asks = []\<rparr>))))"

lemma shard_result_fills: "\<exists>r. shard_result raw s (shard_stream mt i) = Some r \<and> sr_fills r = ref_fills (shard_stream mt i)"
proof -
  obtain rpts where "run_shard raw (shard_stream mt i) = Some rpts"
    "map report_fill rpts = concat (map snd (fst (ref_run (map shard_op (shard_stream mt i)) \<lparr>rb_bids = [], rb_asks = []\<rparr>)))"
    unfolding shard_stream_def using run_shard_fills [of kEventsPerShard raw] by (auto simp: kEventsPerShard_def)
  then show ?thesis unfolding shard_result_def ref_fills_def by (metis (no_types, lifting) ShardResult.select_convs(2) length_map option.simps(9))
qed

lemma those_Some: "(\<And>x. x \<in> set xs \<Longrightarrow> \<exists>y. f x = Some y \<and> P x y) \<Longrightarrow> \<exists>ys. those (map f xs) = Some ys \<and> list_all2 P xs ys"
proof (induction xs)
  case (Cons x xs)
  then obtain y ys where "f x = Some y" "P x y" "those (map f xs) = Some ys" "list_all2 P xs ys" by force
  then show ?case by auto
qed simp

lemma shard_row_fills:
  "\<exists>agg per_shard. shard_row mt raw secs n = Some (agg, per_shard, \<Sum>i\<leftarrow>[0..<n]. ref_fills (shard_stream mt i))"
proof -
  obtain rs where rs: "those (map (\<lambda>i. shard_result raw (secs n i) (shard_stream mt i)) [0..<n]) = Some rs"
    "list_all2 (\<lambda>i r. sr_fills r = ref_fills (shard_stream mt i)) [0..<n] rs"
    using those_Some [where f = "\<lambda>i. shard_result raw (secs n i) (shard_stream mt i)" and
      P = "\<lambda>i r. sr_fills r = ref_fills (shard_stream mt i)", OF shard_result_fills] by blast
  then have "map sr_fills rs = map (\<lambda>i. ref_fills (shard_stream mt i)) [0..<n]"
    by (auto simp: list_all2_conv_all_nth intro!: nth_equalityI)
  then show ?thesis using rs(1) by (simp add: shard_row_def Let_def)
qed

lemma shard_rows_return: "\<exists>rows. shard_rows mt raw secs = Some rows \<and> map fst rows = [1, 2, 4, 8]"
proof -
  obtain a b where first: "shard_row mt raw secs 1 = Some (a, b, \<Sum>i\<leftarrow>[0..<1]. ref_fills (shard_stream mt i))" using shard_row_fills by blast
  let ?row = "\<lambda>n. map_option (\<lambda>(agg, per_shard, _). (n, rnd (agg / 1000000), rnd (per_shard / 1000000), rnd (per_shard / b))) (shard_row mt raw secs n)"
  have "\<exists>row. ?row n = Some row \<and> fst row = n" for n using shard_row_fills [of mt raw secs n] by fastforce
  then obtain rows where rows: "those (map ?row [1, 2, 4, 8]) = Some rows" "list_all2 (\<lambda>n row. fst row = n) [1, 2, 4, 8] rows"
    using those_Some [where P = "\<lambda>n row. fst row = n" and f = ?row and xs = "[1, 2, 4, 8]"] by blast
  then have "map fst rows = [1, 2, 4, 8]" by (auto simp: list_all2_Cons1)
  then show ?thesis using first rows(1) by (simp add: shard_rows_def del: list.map those.simps)
qed

text \<open>Taking an element out by swapping it with the last one loses nothing else.\<close>

lemma swap_pop_mset:
  assumes "k < length xs"
  shows "mset (swap_pop k xs) = mset xs - {#xs ! k#}"
proof -
  obtain ys y where xs: "xs = ys @ [y]" using assms by (cases xs rule: rev_cases) auto
  show ?thesis
  proof (cases "k = length ys")
    case False
    then have k: "k < length ys" using assms xs by simp
    then have "swap_pop k xs = ys[k := y]" using xs by (simp add: swap_pop_def list_update_append)
    then show ?thesis using k xs by (simp add: mset_update nth_append)
  qed (use xs in \<open>simp add: swap_pop_def\<close>)
qed

subsection \<open>The latency flow uses no id twice\<close>

lemma make_all_append:
  "make_all (xs @ ys) i = (let (as, i1) = make_all xs i; (bs, i2) = make_all ys i1 in (as @ bs, i2))"
  by (induction xs arbitrary: i) (simp_all add: case_prod_unfold Let_def)

lemma make_all_ids:
  "map o_id (fst (make_all specs i)) = map (\<lambda>k. i + of_nat k) [0..<length specs]"
  "snd (make_all specs i) = i + of_nat (length specs)"
proof (induction specs arbitrary: i)
  case (Cons spec specs)
  {
    case 1
    have "[0..<Suc (length specs)] = 0 # map Suc [0..<length specs]" by (simp add: upt_conv_Cons map_Suc_upt del: upt_Suc)
    then show ?case using Cons(1) [of "i + 1"]
      by (simp add: case_prod_unfold Let_def make_order_def comp_def algebra_simps del: upt_Suc)
  next
    case 2
    show ?case using Cons(2) [of "i + 1"] by (simp add: case_prod_unfold Let_def make_order_def algebra_simps)
  }
qed simp_all

lemma of_nat_u64_inj: "inj_on (of_nat :: nat \<Rightarrow> u64) {0..<2 ^ 64}"
proof (rule inj_onI)
  fix j k
  assume "j \<in> {0..<2 ^ 64}" "k \<in> {0..<2 ^ 64}" "(of_nat j :: u64) = of_nat k"
  then have "unat (of_nat j :: u64) = unat (of_nat k :: u64)" "j < 2 ^ 64" "k < 2 ^ 64" by simp_all
  then show "j = k" by (simp add: unat_of_nat_small)
qed

lemma make_all_distinct:
  assumes "length specs < 2 ^ 64"
  shows "distinct (map o_id (fst (make_all specs i)))"
proof -
  have "inj_on (of_nat :: nat \<Rightarrow> u64) {0..<length specs}" using assms by (intro inj_on_subset [OF of_nat_u64_inj]) auto
  then have "inj_on (\<lambda>k. i + of_nat k) {0..<length specs}" by (simp add: inj_on_def)
  then show ?thesis by (simp add: make_all_ids distinct_map)
qed

lemma add_ids_adds: "add_ids (map AddOp ods) = map o_id ods"
  by (induction ods) simp_all

lemma add_ids_cancels: "add_ids (map (\<lambda>od. CancelOp (o_id od)) ods) = []"
  by (induction ods) simp_all

lemma latency_ids:
  assumes "400 + w + 3 * n + t < 2 ^ 64"
  shows "distinct (add_ids (latency_ops ask_px bid_px aggr_px last_px w n t))"
proof -
  let ?a = "seed_specs ask_px bid_px" and ?b = "odd_buys w (\<lambda>_. 99500000)"
    and ?c = "alternate n (\<lambda>s. if s = Buy then 98000000 else 102000000) 100" and ?d = "alternate n aggr_px 50"
    and ?e = "alternate n (\<lambda>s. if s = Buy then 97000000 else 103000000) 100" and ?f = "odd_buys t (\<lambda>i. last_px (i mod 3))"
  let ?all = "?a @ ?b @ ?c @ ?d @ ?e @ ?f"
  have "length ?a = 400" by (simp add: seed_specs_def length_concat comp_def sum_list_triv)
  then have "length ?all < 2 ^ 64" using assms by (simp add: odd_buys_def alternate_def)
  then have "distinct (map o_id (fst (make_all ?all 1)))" by (rule make_all_distinct)
  moreover have "add_ids (latency_ops ask_px bid_px aggr_px last_px w n t) = map o_id (fst (make_all ?all 1))"
    by (simp add: latency_ops_def make_all_append case_prod_unfold Let_def add_ids_adds add_ids_cancels del: map_append)
      (simp add: add_ids_adds)
  ultimately show ?thesis by simp
qed

text \<open>So the benchmark's calls return and give the answers and fills of the reference book.\<close>

lemma latency_run:
  assumes "400 + w + 3 * n + t < 2 ^ 64"
  shows "\<exists>outs b. run_ops book_step (latency_ops ask_px bid_px aggr_px last_px w n t) (new_book 0 True raw) = Some (outs, b) \<and>
     ref_run (latency_ops ask_px bid_px aggr_px last_px w n t) \<lparr>rb_bids = [], rb_asks = []\<rparr> =
       (map (\<lambda>(ok, rs). (ok, map report_fill rs)) outs, abs_book b)"
  using new_book_run [OF latency_ids [OF assms], of ask_px bid_px aggr_px last_px 0 raw] by metis

lemma new_ids_map: "(\<And>i. m_msg_type (f i) = NewOrder) \<Longrightarrow> new_ids (map f xs) = map (\<lambda>i. m_order_id (f i)) xs"
  by (induction xs) simp_all

lemma seed_ids: "new_ids (seed_msgs ask_px bid_px) = map of_nat [1..<201]"
proof -
  have "new_ids (concat (map (\<lambda>i. [limit_msg (of_nat (2 * i + 1)) Sell (ask_px i) 1000, limit_msg (of_nat (2 * i + 2)) Buy (bid_px i) 1000]) [0..<k])) =
      map of_nat [1..<2 * k + 1]" for k
    by (induction k) (simp_all add: limit_msg_def)
  from this [of 100] show ?thesis by (simp add: seed_msgs_def)
qed

lemma later_ids: "new_ids (warm_msgs w @ measured_msgs w n) = map of_nat [200001..<200001 + w + n]"
proof -
  have "new_ids (warm_msgs w) = map (\<lambda>i. of_nat (i + 200001)) [0..<w]"
    by (simp add: warm_msgs_def new_ids_map limit_msg_def)
  moreover have "new_ids (measured_msgs w n) = map (\<lambda>i. of_nat (i + (200001 + w))) [0..<n]"
    by (simp add: measured_msgs_def new_ids_map limit_msg_def Let_def algebra_simps)
  moreover have "map (\<lambda>i. of_nat (i + a)) [0..<k] = map (of_nat :: nat \<Rightarrow> u64) [a..<a + k]" for a k
    by (induction k) (simp_all add: add.commute)
  ultimately have "new_ids (warm_msgs w @ measured_msgs w n) = map of_nat ([200001..<200001 + w] @ [200001 + w..<200001 + w + n])"
    unfolding new_ids_simps(2) map_append by metis
  also have "[200001..<200001 + w] @ [200001 + w..<200001 + w + n] = [200001..<200001 + w + n]"
    by (rule upt_add_eq_append [symmetric]) simp
  finally show ?thesis .
qed

text \<open>The benchmark's messages are what the engine assumes of its feed.\<close>

lemma end_to_end_fresh:
  assumes "200001 + w + n < 2 ^ 64"
  shows "msgs_fresh (end_to_end_msgs ask_px bid_px w n) (ref_boot [0])"
proof (rule distinct_ids_fresh)
  let ?ks = "[1..<201] @ [200001..<200001 + w + n]"
  have ids: "new_ids (end_to_end_msgs ask_px bid_px w n) = map of_nat ?ks"
    unfolding end_to_end_msgs_def new_ids_simps(2) [of "seed_msgs ask_px bid_px"] seed_ids later_ids by simp
  have small: "set ?ks \<subseteq> {0..<2 ^ 64}" using assms by auto
  show "distinct (new_ids (end_to_end_msgs ask_px bid_px w n))"
    unfolding ids distinct_map using inj_on_subset [OF of_nat_u64_inj small] by auto
  show "0 \<notin> set (new_ids (end_to_end_msgs ask_px bid_px w n))"
  proof
    assume "0 \<in> set (new_ids (end_to_end_msgs ask_px bid_px w n))"
    then have "0 \<in> (of_nat :: nat \<Rightarrow> u64) ` set ?ks" unfolding ids by (simp only: set_map)
    then obtain k where k: "0 = (of_nat k :: u64)" "k \<in> set ?ks" by (rule imageE)
    have "k \<in> {0..<2 ^ 64}" using subsetD [OF small k(2)] .
    moreover have "k \<noteq> 0" using k(2) unfolding set_append set_upt by auto
    ultimately show False using inj_onD [OF of_nat_u64_inj, of k 0] k(1) by simp
  qed
qed (use boot_resting in auto)

subsection \<open>Prices in cents\<close>

text \<open>The prices of the flows are defined, and whole cents or one millionth below.\<close>

lemma cent_price_near:
  assumes "b \<in> {99, 100, 995 / 10}" "\<bar>k\<bar> \<le> 1000" "of_int t = b * 1000000"
  shows "cent_price fused b k = Some (t + 10000 * k) \<or> cent_price fused b k = Some (t + 10000 * k - 1)"
proof -
  have b: "99 \<le> b" "b \<le> 100" using assms(1) by auto
  then have r: "\<bar>rnd b - b\<bar> \<le> 1 / 1000000000000" using rnd_small [of b] by simp
  have t: "99000000 \<le> t" "t \<le> 100000000"
  proof -
    have "of_int 99000000 \<le> (of_int t :: rat)" "(of_int t :: rat) \<le> of_int 100000000" using assms(3) b by simp_all
    then show "99000000 \<le> t" "t \<le> 100000000" by (simp_all only: of_int_le_iff)
  qed
  have "\<bar>rnd b\<bar> \<le> 500" using b r by linarith
  then have "\<bar>mul_add fused (rnd b) k (rnd (1 / 100)) - (rnd b + of_int k * (1 / 100))\<bar> \<le> 1 / 10 ^ 8"
    using assms(2) by (intro mul_add_near) simp_all
  then have m: "\<bar>mul_add fused (rnd b) k (rnd (1 / 100)) - (rnd b + of_int k / 100)\<bar> \<le> 1 / 100000000" by simp
  have "of_int (t + 10000 * k) / 1000000 = b + of_int k / 100" using assms(3) by simp
  then have "\<bar>mul_add fused (rnd b) k (rnd (1 / 100)) - of_int (t + 10000 * k) / 1000000\<bar> \<le> 1 / 10000000" using m r by linarith
  then have near: "\<bar>mul_add fused (rnd b) k (rnd (1 / 100)) - of_int (t + 10000 * k) / 1000000\<bar> \<le> 1 / 10 ^ 7" by simp
  have "0 < t + 10000 * k" "t + 10000 * k < 2000000000" using t assms(2) by linarith+
  then show ?thesis unfolding cent_price_def by (intro to_price_ticks [OF near]) simp_all
qed

lemma flow_prices:
  "i < 200 \<Longrightarrow> ask_price fused i = Some (100000000 + 10000 * int i) \<or> ask_price fused i = Some (100000000 + 10000 * int i - 1)"
  "i < 200 \<Longrightarrow> bid_price fused i = Some (99000000 - 10000 * int i) \<or> bid_price fused i = Some (99000000 - 10000 * int i - 1)"
  "k < 3 \<Longrightarrow> burst_price fused k = Some (99500000 + 10000 * int k) \<or> burst_price fused k = Some (99500000 + 10000 * int k - 1)"
  using cent_price_near [of 100 "int i" 100000000 fused] cent_price_near [of 99 "- int i" 99000000 fused]
    cent_price_near [of "995 / 10" "int k" 99500000 fused] by (simp_all add: ask_price_def bid_price_def burst_price_def)

text \<open>So no seeded order crosses: every ask stays above every bid.\<close>

lemma seed_spread:
  assumes "i < 200" "j < 200"
  shows "the (bid_price fused i) < the (ask_price fused j)"
  using flow_prices(1) [OF assms(2), of fused] flow_prices(2) [OF assms(1), of fused] by auto

lemma producer_prices:
  "producer_price fused (i mod 5) = Some (100000000 + 10000 * uint (i mod 5)) \<or>
   producer_price fused (i mod 5) = Some (100000000 + 10000 * uint (i mod 5) - 1)"
proof -
  have "\<bar>uint (i mod 5)\<bar> \<le> 1000" using pos_mod_bound [of 5 "uint i"] by (simp add: uint_mod)
  then show ?thesis unfolding producer_price_def by (intro cent_price_near) simp_all
qed

text \<open>The two benchmarks with their own prices.\<close>

lemma bench_order_book_run:
  assumes "400 + w + 3 * n + t < 2 ^ 64"
  shows "\<exists>outs b. run_ops book_step (bench_order_book fused w n t) (new_book 0 True raw) = Some (outs, b) \<and>
     ref_run (bench_order_book fused w n t) \<lparr>rb_bids = [], rb_asks = []\<rparr> = (map (\<lambda>(ok, rs). (ok, map report_fill rs)) outs, abs_book b)"
  unfolding bench_order_book_def by (rule latency_run [OF assms])

lemma bench_end_to_end_fresh: "200001 + w + n < 2 ^ 64 \<Longrightarrow> msgs_fresh (bench_end_to_end fused w n) (ref_boot [0])"
  unfolding bench_end_to_end_def by (rule end_to_end_fresh)

subsection \<open>Percentiles of samples\<close>

lemma print_pcts_ordered:
  assumes "print_pcts v = Some (mean, p50, p90, p99, p999)"
  shows "p50 \<le> p90 \<and> p90 \<le> p99 \<and> p99 \<le> p999 \<and> {p50, p90, p99, p999} \<subseteq> set v"
proof -
  let ?s = "sort v" and ?n = "length v"
  have n: "?n > 0" using assms by (auto simp: print_pcts_def Let_def split: if_splits)
  have p: "p50 = ?s ! (?n * 50 div 100)" "p90 = ?s ! (?n * 90 div 100)" "p99 = ?s ! (?n * 99 div 100)" "p999 = ?s ! (?n * 999 div 1000)"
    using assms by (auto simp: print_pcts_def Let_def split: if_splits)
  have i: "?n * 50 div 100 \<le> ?n * 90 div 100" "?n * 90 div 100 \<le> ?n * 99 div 100" "?n * 99 div 100 \<le> ?n * 999 div 1000"
    "?n * 999 div 1000 < ?n" using n by linarith+
  have "?s ! k \<in> set v" if "k < ?n" for k using nth_mem [of k ?s] that by simp
  then show ?thesis using i unfolding p by (auto intro!: sorted_nth_mono)
qed

lemma print_pcts_mean:
  assumes "print_pcts v = Some (mean, ps)"
  shows "mean = fdiv_u64 (sum_list v) (of_nat (length v))"
proof -
  have "sum_list (sort v) = sum_list v" by (metis mset_sort sum_mset_sum_list)
  then show ?thesis using assms by (auto simp: print_pcts_def Let_def split: if_splits)
qed

lemma print_pcts_empty: "print_pcts v = None \<longleftrightarrow> v = []"
proof -
  have "sort v = [] \<longleftrightarrow> v = []" by (metis length_0_conv length_sort)
  then show ?thesis by (simp add: print_pcts_def Let_def)
qed

subsection \<open>The producer and the engine\<close>

text \<open>The producer runs against the engine thread; \<open>n\<close> counts its turns.\<close>

inductive producing :: "(u64 \<Rightarrow> Price) \<Rightarrow> nat \<Rightarrow> Producer \<Rightarrow> EngineRun \<Rightarrow> bool" for px where
  start: "producing px 0 producer_start (run_start [0, 1] raw inq outq)"
| produce: "producing px n p er \<Longrightarrow> producer_turn px run_submit p er = (p', er') \<Longrightarrow> producing px (Suc n) p' er'"
| engine: "producing px n p er \<Longrightarrow> run_step er er' \<Longrightarrow> er_accepted er' = er_accepted er \<Longrightarrow> producing px n p er'"

lemma producing_inv:
  "producing px n p er \<Longrightarrow> n + 1 < 2 ^ 64 \<Longrightarrow> run_reach [0, 1] er \<and> unat (pr_id p) = n + 1 \<and>
     distinct (new_ids (er_accepted er)) \<and> (\<forall>x \<in> set (new_ids (er_accepted er)). 0 < unat x \<and> unat x < n + 1) \<and>
     pr_produced p = of_nat (length (er_accepted er))"
proof (induction rule: producing.induct)
  case (start raw inq outq)
  have "run_reach [0, 1] (run_start [0, 1] raw inq outq)" by (rule run_reach.start)
  then show ?case by (simp add: producer_start_def) (simp add: run_start_def)
next
  case (produce n p er p' er')
  then have IH: "run_reach [0, 1] er" "unat (pr_id p) = n + 1" "distinct (new_ids (er_accepted er))"
    "\<forall>x \<in> set (new_ids (er_accepted er)). 0 < unat x \<and> unat x < n + 1" "pr_produced p = of_nat (length (er_accepted er))" by auto
  let ?i = "pr_id p + 1"
  let ?m = "(pr_msg p)\<lparr>m_msg_type := NewOrder, m_order_id := pr_id p, m_price := px (?i mod 5), m_qty := 100,
     m_side := (if ?i mod 2 = 0 then Buy else Sell)\<rparr>"
  obtain ok where sub: "run_submit ?m er = (ok, er')"
    and p': "pr_id p' = ?i" "pr_produced p' = (if ok then pr_produced p + 1 else pr_produced p)"
    using produce.hyps(2) by (auto simp: producer_turn_def Let_def split: prod.splits)
  note S = run_submit_step [OF sub]
  have nx: "unat (pr_id p') = n + 2" using p'(1) IH(2) produce.prems by (simp add: unat_word_ariths)
  have "pr_id p \<notin> set (new_ids (er_accepted er))" using IH(2,4) by auto
  then show ?case using IH nx p'(2) S(2) run_reach.step [OF IH(1) S(1)] by (cases ok) (auto simp: less_Suc_eq)
next
  case (engine n p er er')
  then show ?case by (auto intro: run_reach.step)
qed

text \<open>Under every interleaving the engine is where the reference engine is on the messages it has handled, and
  \<^verbatim>\<open>produced\<close> is the number of messages the queue accepted.\<close>

lemma producer_correct:
  assumes "producing px n p er" "n + 1 < 2 ^ 64"
  shows "ref_messages (er_handled er) (ref_boot [0, 1]) = (abs_engine (er_engine er), map report_fill (er_emitted er)) \<and>
     engine_inv True (er_engine er) \<and> pr_produced p = of_nat (length (er_accepted er))"
proof -
  note I = producing_inv [OF assms]
  then have "0 \<notin> set (new_ids (er_accepted er))" by force
  then show ?thesis using distinct_run_refines [of "[0, 1]" er] I by simp
qed

end
