(* ===== verification/Bench_Search.thy ===== *)
theory Bench_Search
  imports Book_Side Latency_Histogram Price_Conversion
begin

text \<open>
  The benchmarks of the level search: \<^verbatim>\<open>bench/bench_avx2.cpp\<close>, which compares the scalar and the AVX2 search and
  checks that they agree, and \<^verbatim>\<open>bench/bench_cache.cpp\<close>, which compares an array of level structs with separate arrays.
  A loop that returns at the first index with a property is \<open>find\<close> on the index range.  The random numbers
  and the readings of the clock and of the cycle counter are arguments.
\<close>

subsection \<open>Scalar against AVX2\<close>

definition first_index :: "(nat \<Rightarrow> bool) \<Rightarrow> nat \<Rightarrow> int" where
  "first_index P n = (case find P [0..<n] of None \<Rightarrow> - 1 | Some i \<Rightarrow> int i)"

definition find_scalar :: "Price arr \<Rightarrow> nat \<Rightarrow> Price \<Rightarrow> int" where
  "find_scalar p n t = first_index (\<lambda>i. p i = t) n"

definition N_LEVELS :: nat where "N_LEVELS = 128"

definition bench_prices :: "Price arr" where
  "bench_prices i = (if i < N_LEVELS then 10000 + int i * 100 else 0)"

primrec bench_targets :: "(nat \<Rightarrow> u64) \<Rightarrow> nat \<Rightarrow> nat \<Rightarrow> Price list" where
  "bench_targets rng 0 k = []"
| "bench_targets rng (Suc n) k = (
     (if rng k mod 100 < 70 then bench_prices (unat (rng (k + 1) mod 128)) else 99999 + int (unat (rng (k + 1) mod 1000))) #
     bench_targets rng n (k + 2))"

text \<open>The final check: the number of mismatches, and the exit code of \<^verbatim>\<open>main\<close>.\<close>

definition bench_errors :: "Price list \<Rightarrow> nat" where
  "bench_errors targets = length (filter (\<lambda>t. find_scalar bench_prices N_LEVELS t \<noteq> find_level_avx2 bench_prices N_LEVELS t) targets)"

definition bench_exit :: "Price list \<Rightarrow> int" where
  "bench_exit targets = (if bench_errors targets > 0 then 1 else 0)"

text \<open>\<^verbatim>\<open>struct Hist\<close>: one bucket per nanosecond, the last for everything above.\<close>

definition HIST_N :: nat where "HIST_N = 4096"

record Hist =
  hs_c :: "u64 arr"
  hs_total :: u64

definition hist_empty :: Hist where
  "hist_empty = \<lparr>hs_c = \<lambda>_. 0, hs_total = 0\<rparr>"

definition hist_rec :: "u64 \<Rightarrow> Hist \<Rightarrow> Hist" where
  "hist_rec v h = (let i = (if v < of_nat HIST_N then unat v else HIST_N - 1)
     in h\<lparr>hs_c := (hs_c h)(i := hs_c h i + 1), hs_total := hs_total h + 1\<rparr>)"

primrec pct_loop :: "nat list \<Rightarrow> u64 arr \<Rightarrow> u64 \<Rightarrow> u64 \<Rightarrow> nat" where
  "pct_loop [] c cum t = HIST_N - 1"
| "pct_loop (i # is) c cum t = (let cum' = cum + c i in if cum' \<ge> t then i else pct_loop is c cum' t)"

definition hist_pct :: "u64 \<Rightarrow> Hist \<Rightarrow> nat" where
  "hist_pct t h = pct_loop [0..<HIST_N] (hs_c h) 0 t"

definition hist_percentile :: "rat \<Rightarrow> Hist \<Rightarrow> nat option" where
  "hist_percentile p h = map_option (\<lambda>t. hist_pct t h) (percentile_rank p (hs_total h))"

text \<open>Readings of the cycle counter are scaled by the measured \<^verbatim>\<open>g_ns_per_cycle\<close> and truncated to \<^verbatim>\<open>uint64_t\<close>.\<close>

definition calibrate :: "u64 \<Rightarrow> u64 \<Rightarrow> u64 \<Rightarrow> rat" where
  "calibrate ns c0 c1 = fdiv_u64 ns (c1 - c0)"

definition cycles_ns :: "rat \<Rightarrow> u64 \<Rightarrow> u64 option" where
  "cycles_ns g c = (let t = trunc (rnd (rnd (of_int (uint c)) * g)) in if 0 \<le> t \<and> t < 2 ^ 64 then Some (word_of_int t) else None)"

definition tsc_sample :: "rat \<Rightarrow> u64 \<times> u64 \<Rightarrow> u64 option" where
  "tsc_sample g c = Option.bind (cycles_ns g (fst c)) (\<lambda>t0. map_option (\<lambda>t1. t1 - t0) (cycles_ns g (snd c)))"

text \<open>One timed run: the histogram of its samples, the row printed for it, and the speedup at the median.\<close>

definition timed_run :: "rat \<Rightarrow> (u64 \<times> u64) list \<Rightarrow> Hist option" where
  "timed_run g readings = map_option (\<lambda>samples. fold hist_rec samples hist_empty) (those (map (tsc_sample g) readings))"

definition hist_row :: "Hist \<Rightarrow> nat option list" where
  "hist_row h = map (\<lambda>p. hist_percentile p h) [rnd (50 / 100), rnd (90 / 100), rnd (99 / 100), rnd (999 / 1000)]"

definition speedup :: "nat \<Rightarrow> nat \<Rightarrow> rat" where
  "speedup scalar avx2 = fdiv_u64 (of_nat scalar) (max 1 (of_nat avx2))"

subsection \<open>Array of structs against separate arrays\<close>

record AoSLevel =
  al_price :: Price
  al_qty :: u32
  al_count :: u32
  al_head_idx :: u32

record AoSBook =
  ab_levels :: "AoSLevel arr"
  ab_count :: nat

record SoABook =
  sb_prices :: "Price arr"
  sb_qtys :: "u32 arr"
  sb_counts :: "u32 arr"
  sb_head_idxs :: "u32 arr"
  sb_count :: nat

definition aos_find_crossing :: "AoSBook \<Rightarrow> Price \<Rightarrow> int" where
  "aos_find_crossing b price = first_index (\<lambda>i. al_price (ab_levels b i) \<le> price) (ab_count b)"

definition soa_find_crossing :: "SoABook \<Rightarrow> Price \<Rightarrow> int" where
  "soa_find_crossing b price = first_index (\<lambda>i. sb_prices b i \<le> price) (sb_count b)"

text \<open>The loop of \<^verbatim>\<open>run\<close> that fills both books.\<close>

primrec fill_levels :: "nat \<Rightarrow> AoSBook \<Rightarrow> SoABook \<Rightarrow> AoSBook \<times> SoABook" where
  "fill_levels 0 a s = (a, s)"
| "fill_levels (Suc i) a s = (let (a1, s1) = fill_levels i a s; p = 100000000 - int i * 1000
     in (a1\<lparr>ab_levels := (ab_levels a1)(i := \<lparr>al_price = p, al_qty = 1000, al_count = 3, al_head_idx = 0\<rparr>)\<rparr>,
         s1\<lparr>sb_prices := (sb_prices s1)(i := p), sb_qtys := (sb_qtys s1)(i := 1000), sb_counts := (sb_counts s1)(i := 3),
            sb_head_idxs := (sb_head_idxs s1)(i := 0)\<rparr>))"

definition run_books :: "nat \<Rightarrow> AoSBook \<Rightarrow> SoABook \<Rightarrow> AoSBook \<times> SoABook" where
  "run_books depth a s = (let (a1, s1) = fill_levels depth a s in (a1\<lparr>ab_count := depth\<rparr>, s1\<lparr>sb_count := depth\<rparr>))"

definition run_target :: "nat \<Rightarrow> Price" where
  "run_target depth = 100000000 - int depth * 1000 - 500"

text \<open>\<^verbatim>\<open>sizeof(AoSLevel)\<close> is 32, \<^verbatim>\<open>sizeof(int64_t)\<close> 8.\<close>

definition aos_cl :: "nat \<Rightarrow> nat" where "aos_cl depth = (depth * 32 + 63) div 64"
definition soa_cl :: "nat \<Rightarrow> nat" where "soa_cl depth = (depth * 8 + 63) div 64"

text \<open>Cycles per nanosecond from the two clocks, and the time of one scan from the cycles of \<^verbatim>\<open>iters\<close> scans.\<close>

definition cycles_per_ns :: "bool \<Rightarrow> int \<Rightarrow> int \<Rightarrow> u64 \<Rightarrow> u64 \<Rightarrow> rat" where
  "cycles_per_ns fused dsec dnsec c0 c1 = rnd (rnd (of_int (uint (c1 - c0))) / mul_add fused (rnd (of_int dnsec)) dsec 1000000000)"

definition run_iters :: "nat \<Rightarrow> nat" where
  "run_iters depth = (if depth \<le> 64 then 5000000 else 1000000)"

definition scan_ns :: "u64 \<Rightarrow> nat \<Rightarrow> rat \<Rightarrow> rat" where
  "scan_ns elapsed iters cpns = rnd (rnd (rnd (of_int (uint elapsed)) / of_nat iters) / cpns)"

text \<open>The sum \<^verbatim>\<open>sink\<close> of what the timed scans return.\<close>

definition scan_sink :: "(Price \<Rightarrow> int) \<Rightarrow> Price \<Rightarrow> nat \<Rightarrow> int" where
  "scan_sink find_crossing target iters = sum_list (map (\<lambda>i. find_crossing (target + int (i mod 2))) [0..<iters])"

definition run_row :: "nat \<Rightarrow> u64 \<Rightarrow> u64 \<Rightarrow> rat \<Rightarrow> rat \<times> rat \<times> rat \<times> nat \<times> nat" where
  "run_row depth elapsed_aos elapsed_soa cpns = (
     let ans = scan_ns elapsed_aos (run_iters depth) cpns; sns = scan_ns elapsed_soa (run_iters depth) cpns
     in (ans, sns, rnd (ans / sns), aos_cl depth, soa_cl depth))"

subsection \<open>What they compute\<close>

lemma first_index_cases:
  obtains "first_index P n = - 1" "\<forall>i < n. \<not> P i"
  | i where "first_index P n = int i" "i < n" "P i" "\<forall>j < i. \<not> P j"
proof (cases "find P [0..<n]")
  case None
  moreover have "\<forall>i < n. \<not> P i" using None by (auto simp: find_None_iff)
  ultimately show thesis using that(1) by (simp add: first_index_def)
next
  case (Some i)
  then have "i < n" "P i" "\<forall>j < i. \<not> P j" by (auto simp: find_Some_iff)
  moreover have "first_index P n = int i" using Some by (simp add: first_index_def)
  ultimately show thesis using that(2) by blast
qed

lemma first_index_cong: "(\<And>i. i < n \<Longrightarrow> P i = Q i) \<Longrightarrow> first_index P n = first_index Q n"
proof -
  assume eq: "\<And>i. i < n \<Longrightarrow> P i = Q i"
  have "find P [0..<n] = find Q [0..<n]" by (rule find_cong) (auto simp: eq)
  then show ?thesis by (simp add: first_index_def)
qed

lemma find_scalar_level: "find_scalar p n t = find_level_loop p n t 0"
  by (simp add: find_scalar_def first_index_def find_level_loop_spec)

text \<open>The check of the benchmark passes on every stream of targets.\<close>

lemma bench_passes: "bench_exit targets = 0"
proof -
  have "find_scalar p n t = find_level_avx2 p n t" for p n t
    by (simp add: find_scalar_level find_level_avx2_def find_level_avx2_loop_eq)
  then show ?thesis by (simp add: bench_exit_def bench_errors_def)
qed

text \<open>A drawn target below 70 is found where it was drawn, the others are absent.\<close>

lemma bench_prices_inj: "i < N_LEVELS \<Longrightarrow> j < N_LEVELS \<Longrightarrow> bench_prices i = bench_prices j \<Longrightarrow> i = j"
  by (simp add: bench_prices_def)

lemma bench_hit: "i < N_LEVELS \<Longrightarrow> find_scalar bench_prices N_LEVELS (bench_prices i) = int i"
proof -
  assume i: "i < N_LEVELS"
  show ?thesis unfolding find_scalar_def
  proof (cases rule: first_index_cases [of "\<lambda>j. bench_prices j = bench_prices i" N_LEVELS])
    case 1
    then show "first_index (\<lambda>j. bench_prices j = bench_prices i) N_LEVELS = int i" using i by blast
  next
    case (2 k)
    then show "first_index (\<lambda>j. bench_prices j = bench_prices i) N_LEVELS = int i" using bench_prices_inj i by blast
  qed
qed

lemma bench_miss: "find_scalar bench_prices N_LEVELS (99999 + int k) = - 1"
proof -
  have "bench_prices i \<noteq> 99999 + int k" if "i < N_LEVELS" for i using that by (simp add: bench_prices_def N_LEVELS_def)
  then show ?thesis unfolding find_scalar_def
    by (cases rule: first_index_cases [of "\<lambda>i. bench_prices i = 99999 + int k" N_LEVELS]) auto
qed

text \<open>The histogram of \<^verbatim>\<open>bench_avx2\<close>: counters are the numbers of recordings, and a percentile is the least bucket
  up to which the rank is reached.\<close>

definition clip :: "u64 \<Rightarrow> nat" where
  "clip v = min (unat v) (HIST_N - 1)"

lemma hist_rec_clip: "hist_rec v h = h\<lparr>hs_c := (hs_c h)(clip v := hs_c h (clip v) + 1), hs_total := hs_total h + 1\<rparr>"
proof -
  have "(if v < of_nat HIST_N then unat v else HIST_N - 1) = clip v"
    by (auto simp: clip_def HIST_N_def word_less_nat_alt min_def)
  then show ?thesis by (simp add: hist_rec_def Let_def)
qed

lemma hist_recorded:
  "hs_c (fold hist_rec vs h) i = hs_c h i + of_nat (length (filter (\<lambda>v. clip v = i) vs)) \<and>
   hs_total (fold hist_rec vs h) = hs_total h + of_nat (length vs)"
  by (induction vs arbitrary: h) (auto simp: hist_rec_clip)

lemma below_Suc: "length (filter (\<lambda>v. f v < Suc i) vs) = length (filter (\<lambda>v. f v < i) vs) + length (filter (\<lambda>v. f v = i) vs)"
  by (induction vs) auto

lemma pct_loop_least:
  assumes "\<And>i. c i = of_nat (length (filter (\<lambda>v. clip v = i) vs))" "length vs < 2 ^ 64" "unat t \<le> length vs"
    "\<forall>j < a. length (filter (\<lambda>v. clip v < Suc j) vs) < unat t" "a \<le> HIST_N"
  shows "\<exists>i < HIST_N. pct_loop [a..<HIST_N] c (of_nat (length (filter (\<lambda>v. clip v < a) vs))) t = i \<and>
     unat t \<le> length (filter (\<lambda>v. clip v < Suc i) vs) \<and> (\<forall>j < i. length (filter (\<lambda>v. clip v < Suc j) vs) < unat t)"
  using assms(4,5)
proof (induction "HIST_N - a" arbitrary: a)
  case 0
  have "length (filter (\<lambda>v. clip v < Suc (HIST_N - 1)) vs) = length vs"
    by (subst filter_True) (auto simp: clip_def HIST_N_def)
  then show ?case using 0 assms(3) by (force simp: HIST_N_def)
next
  case (Suc d)
  then have a: "a < HIST_N" by simp
  let ?n = "length (filter (\<lambda>v. clip v < Suc a) vs)"
  have cum: "of_nat (length (filter (\<lambda>v. clip v < a) vs)) + c a = (of_nat ?n :: u64)"
    unfolding assms(1) by (simp add: below_Suc)
  have "?n < 2 ^ 64" using length_filter_le [of _ vs] assms(2) by (meson le_less_trans)
  then have test: "t \<le> of_nat ?n \<longleftrightarrow> unat t \<le> ?n" by (simp add: word_le_nat_alt unat_of_nat_small)
  show ?case
  proof (cases "unat t \<le> ?n")
    case True
    then show ?thesis using a Suc.prems(1) cum test by (intro exI [of _ a]) (simp add: upt_conv_Cons Let_def)
  next
    case False
    then have "\<forall>j < Suc a. length (filter (\<lambda>v. clip v < Suc j) vs) < unat t" using Suc.prems(1) by (auto simp: less_Suc_eq)
    moreover have "d = HIST_N - Suc a" "Suc a \<le> HIST_N" using Suc.hyps(2) a by simp_all
    ultimately show ?thesis using Suc.hyps(1) [of "Suc a"] a cum test False by (simp add: upt_conv_Cons Let_def)
  qed
qed

lemma hist_pct_least:
  assumes "length vs < 2 ^ 64" "unat t \<le> length vs"
  shows "hist_pct t (fold hist_rec vs hist_empty) < HIST_N \<and>
     unat t \<le> length (filter (\<lambda>v. clip v \<le> hist_pct t (fold hist_rec vs hist_empty)) vs) \<and>
     (\<forall>j < hist_pct t (fold hist_rec vs hist_empty). length (filter (\<lambda>v. clip v \<le> j) vs) < unat t)"
proof -
  have c: "hs_c (fold hist_rec vs hist_empty) i = of_nat (length (filter (\<lambda>v. clip v = i) vs))" for i
    using hist_recorded [of vs hist_empty i] by (simp add: hist_empty_def)
  show ?thesis using pct_loop_least [where a = 0, OF c assms] by (auto simp: hist_pct_def less_Suc_eq_le)
qed

text \<open>So a printed percentile is the least nanosecond that as many samples do not exceed as its rank says, and the rank is less
  than two off the exact product.\<close>

lemma hist_percentile_least:
  assumes "vs \<noteq> []" "length vs < 2 ^ 52" "0 \<le> p" "p \<le> 1 - 1 / 2 ^ 53"
  shows "\<exists>r i. hist_percentile p (fold hist_rec vs hist_empty) = Some i \<and> \<bar>of_nat r - p * of_nat (length vs)\<bar> < 3 / 2 \<and>
     r \<le> length (filter (\<lambda>v. clip v \<le> i) vs) \<and> (\<forall>j < i. length (filter (\<lambda>v. clip v \<le> j) vs) < r)"
proof -
  let ?h = "fold hist_rec vs hist_empty"
  obtain r where r: "r < length vs" "percentile_rank p (of_nat (length vs)) = Some (of_nat r)" "\<bar>of_nat r - p * of_nat (length vs)\<bar> < 3 / 2"
    using rank_near [of "length vs" p] assms by auto
  have t: "hs_total ?h = of_nat (length vs)" using hist_recorded [of vs hist_empty] by (simp add: hist_empty_def)
  have u: "unat (of_nat r :: u64) = r" "length vs < 2 ^ 64" using r(1) assms(2) by (auto intro: unat_of_nat_small)
  have "hist_percentile p ?h = Some (hist_pct (of_nat r) ?h)" by (simp add: hist_percentile_def t r(2))
  moreover have "r \<le> length (filter (\<lambda>v. clip v \<le> hist_pct (of_nat r) ?h) vs)"
    "\<forall>j < hist_pct (of_nat r) ?h. length (filter (\<lambda>v. clip v \<le> j) vs) < r"
    using hist_pct_least [OF u(2), of "of_nat r"] r(1) u(1) by simp_all
  ultimately show ?thesis using r(3) by blast
qed

text \<open>A sample never wraps: readings in order give times in order, whatever the calibration measured.\<close>

lemma cycles_ns_mono:
  assumes "c0 \<le> c1" "0 \<le> g" "cycles_ns g c0 = Some t0" "cycles_ns g c1 = Some t1"
  shows "t0 \<le> t1"
proof -
  let ?f = "\<lambda>c. trunc (rnd (rnd (of_int (uint (c :: u64))) * g))"
  have "of_int (uint c0) \<le> (of_int (uint c1) :: rat)" using assms(1) by (simp only: of_int_le_iff word_le_def)
  then have "rnd (of_int (uint c0)) * g \<le> rnd (of_int (uint c1)) * g" using assms(2) by (intro mult_right_mono rnd_mono)
  then have le: "?f c0 \<le> ?f c1" by (intro trunc_mono rnd_mono)
  have "t0 = word_of_int (?f c0)" "t1 = word_of_int (?f c1)" "0 \<le> ?f c0" "0 \<le> ?f c1" "?f c0 < 2 ^ 64" "?f c1 < 2 ^ 64"
    using assms(3,4) by (auto simp: cycles_ns_def Let_def simp del: of_int_uint split: if_splits)
  then show ?thesis using le by (simp add: word_le_def uint_word_of_int del: of_int_uint)
qed

lemma tsc_sample_exact:
  assumes "c0 \<le> c1" "0 \<le> g" "tsc_sample g (c0, c1) = Some v"
  shows "\<exists>t0 t1. cycles_ns g c0 = Some t0 \<and> cycles_ns g c1 = Some t1 \<and> unat v = unat t1 - unat t0"
proof -
  obtain t0 t1 where t: "cycles_ns g c0 = Some t0" "cycles_ns g c1 = Some t1" "v = t1 - t0"
    using assms(3) by (auto simp: tsc_sample_def bind_eq_Some_conv)
  then show ?thesis using cycles_ns_mono [OF assms(1,2) t(1,2)] by (simp add: unat_sub)
qed

text \<open>Both layouts hold the same prices, and the target of \<^verbatim>\<open>run\<close> is below all of them, as the benchmark announces.\<close>

lemma fill_levels_prices:
  "fill_levels n a s = (a', s') \<Longrightarrow> i < n \<Longrightarrow> al_price (ab_levels a' i) = 100000000 - int i * 1000 \<and> sb_prices s' i = 100000000 - int i * 1000"
  by (induction n arbitrary: a' s') (auto simp: Let_def less_Suc_eq split: prod.splits)

lemma run_layouts_agree:
  assumes "run_books depth a s = (a', s')"
  shows "aos_find_crossing a' price = soa_find_crossing s' price"
proof -
  obtain a1 s1 where f: "fill_levels depth a s = (a1, s1)" by fastforce
  then have "a' = a1\<lparr>ab_count := depth\<rparr>" "s' = s1\<lparr>sb_count := depth\<rparr>" using assms by (auto simp: run_books_def)
  then show ?thesis using fill_levels_prices [OF f]
    by (auto simp: aos_find_crossing_def soa_find_crossing_def intro!: first_index_cong)
qed

lemma run_worst_case:
  assumes "run_books depth a s = (a', s')" "r \<le> 1"
  shows "soa_find_crossing s' (run_target depth + r) = - 1"
proof -
  obtain a1 s1 where f: "fill_levels depth a s = (a1, s1)" by fastforce
  then have s': "s' = s1\<lparr>sb_count := depth\<rparr>" using assms by (auto simp: run_books_def)
  have "\<not> sb_prices s' i \<le> run_target depth + r" if "i < depth" for i
    using fill_levels_prices [OF f that] that assms(2) s' by (simp add: run_target_def)
  then show ?thesis unfolding soa_find_crossing_def s'
    by (cases rule: first_index_cases [of "\<lambda>i. sb_prices (s1\<lparr>sb_count := depth\<rparr>) i \<le> run_target depth + r" depth]) auto
qed

text \<open>Both timed loops scan in vain every time and sum up the same.\<close>

lemma run_sinks:
  assumes "run_books depth a s = (a', s')"
  shows "scan_sink (soa_find_crossing s') (run_target depth) iters = - int iters"
    "scan_sink (aos_find_crossing a') (run_target depth) iters = - int iters"
proof -
  have "soa_find_crossing s' (run_target depth + int (i mod 2)) = - 1" for i by (rule run_worst_case [OF assms]) simp
  then show "scan_sink (soa_find_crossing s') (run_target depth) iters = - int iters" by (simp add: scan_sink_def sum_list_triv)
  then show "scan_sink (aos_find_crossing a') (run_target depth) iters = - int iters"
    by (simp add: scan_sink_def run_layouts_agree [OF assms])
qed

lemma cache_lines: "soa_cl depth \<le> aos_cl depth" "aos_cl depth \<le> 4 * soa_cl depth"
  by (simp_all add: aos_cl_def soa_cl_def)

end
