(* ===== verification/Perf_Counters.thy ===== *)
theory Perf_Counters
  imports Binary64
begin

text \<open>
  \<^verbatim>\<open>PerfCounters\<close> and \<^verbatim>\<open>PerfScope\<close> (\<^verbatim>\<open>util/perf_counters.hpp\<close>).  The kernel is outside the model: which
  descriptor \<^verbatim>\<open>perf_event_open\<close> returns for a counter, what \<^verbatim>\<open>read\<close> delivers for a descriptor (\<open>None\<close> when it fails) and the clock are
  arguments, and the \<^verbatim>\<open>ioctl\<close> and \<^verbatim>\<open>close\<close> calls an operation makes are its output.  Of \<^verbatim>\<open>print\<close> the values are modelled, not the text.
\<close>

datatype Counter = CpuCycles | Instructions | L1dReadMisses | CacheMisses | BranchMisses

datatype KernelCall = IocReset int | IocEnable int | IocDisable int | CloseFd int

record Timespec =
  tv_sec :: int
  tv_nsec :: int

record PerfResult =
  p_cycles :: u64
  p_instructions :: u64
  p_l1_misses :: u64
  p_llc_misses :: u64
  p_branch_misses :: u64
  p_elapsed_ns :: u64

definition ipc :: "PerfResult \<Rightarrow> rat" where
  "ipc r = (if p_cycles r > 0 then fdiv_u64 (p_instructions r) (p_cycles r) else 0)"

definition l1_miss_rate :: "PerfResult \<Rightarrow> rat" where
  "l1_miss_rate r = (if p_instructions r > 0 then rnd (fdiv_u64 (p_l1_misses r) (p_instructions r) * 100) else 0)"

definition ns_per_cycle :: "PerfResult \<Rightarrow> rat" where
  "ns_per_cycle r = (if p_cycles r > 0 then fdiv_u64 (p_elapsed_ns r) (p_cycles r) else 0)"

definition perf_print :: "PerfResult \<Rightarrow> u64 \<times> (u64 \<times> rat) \<times> (u64 \<times> rat) \<times> u64 \<times> u64 \<times> u64" where
  "perf_print r = (p_cycles r, (p_instructions r, ipc r), (p_l1_misses r, l1_miss_rate r), p_llc_misses r, p_branch_misses r, p_elapsed_ns r)"

record PerfCounters =
  fd_cycles :: int
  fd_insns :: int
  fd_l1_miss :: int
  fd_llc_miss :: int
  fd_br_miss :: int
  pc_t0 :: Timespec

definition perf_init :: "(Counter \<Rightarrow> int) \<Rightarrow> PerfCounters" where
  "perf_init open_counter = \<lparr>fd_cycles = open_counter CpuCycles, fd_insns = open_counter Instructions,
     fd_l1_miss = open_counter L1dReadMisses, fd_llc_miss = open_counter CacheMisses, fd_br_miss = open_counter BranchMisses,
     pc_t0 = \<lparr>tv_sec = 0, tv_nsec = 0\<rparr>\<rparr>"

definition perf_fds :: "PerfCounters \<Rightarrow> int list" where
  "perf_fds pc = [fd_cycles pc, fd_insns pc, fd_l1_miss pc, fd_llc_miss pc, fd_br_miss pc]"

definition perf_close :: "PerfCounters \<Rightarrow> KernelCall list" where
  "perf_close pc = map CloseFd (filter (\<lambda>fd. fd \<ge> 0) (perf_fds pc))"

definition available :: "PerfCounters \<Rightarrow> bool" where
  "available pc = (fd_cycles pc \<ge> 0)"

definition perf_start :: "Timespec \<Rightarrow> PerfCounters \<Rightarrow> KernelCall list \<times> PerfCounters" where
  "perf_start now pc = (concat (map (\<lambda>fd. if fd \<ge> 0 then [IocReset fd, IocEnable fd] else []) (perf_fds pc)), pc\<lparr>pc_t0 := now\<rparr>)"

text \<open>\<^verbatim>\<open>read_counter\<close> leaves the zero of the initialised result when it reads nothing.\<close>

definition read_counter :: "(int \<Rightarrow> u64 option) \<Rightarrow> int \<Rightarrow> u64" where
  "read_counter rd fd = (if fd \<ge> 0 then (case rd fd of None \<Rightarrow> 0 | Some v \<Rightarrow> v) else 0)"

definition elapsed_ns :: "Timespec \<Rightarrow> Timespec \<Rightarrow> u64" where
  "elapsed_ns t0 t1 = word_of_int (tv_sec t1 - tv_sec t0) * 1000000000 + word_of_int (tv_nsec t1 - tv_nsec t0)"

definition perf_stop :: "Timespec \<Rightarrow> (int \<Rightarrow> u64 option) \<Rightarrow> PerfCounters \<Rightarrow> KernelCall list \<times> PerfResult" where
  "perf_stop t1 rd pc = (map IocDisable (filter (\<lambda>fd. fd \<ge> 0) (perf_fds pc)),
     \<lparr>p_cycles = read_counter rd (fd_cycles pc), p_instructions = read_counter rd (fd_insns pc),
      p_l1_misses = read_counter rd (fd_l1_miss pc), p_llc_misses = read_counter rd (fd_llc_miss pc),
      p_branch_misses = read_counter rd (fd_br_miss pc), p_elapsed_ns = elapsed_ns (pc_t0 pc) t1\<rparr>)"

text \<open>The scope guard: its constructor, and its destructor with the result it prints, if any, followed by the
  destructor of its counters.\<close>

definition scope_enter :: "(Counter \<Rightarrow> int) \<Rightarrow> Timespec \<Rightarrow> KernelCall list \<times> PerfCounters" where
  "scope_enter open_counter now = (let pc = perf_init open_counter
     in if available pc then perf_start now pc else ([], pc))"

definition scope_leave :: "Timespec \<Rightarrow> (int \<Rightarrow> u64 option) \<Rightarrow> PerfCounters \<Rightarrow> KernelCall list \<times> PerfResult option" where
  "scope_leave t1 rd pc = (if available pc then (let (calls, r) = perf_stop t1 rd pc in (calls @ perf_close pc, Some r))
     else (perf_close pc, None))"

subsection \<open>Elapsed time\<close>

definition ns_of :: "Timespec \<Rightarrow> int" where
  "ns_of t = tv_sec t * 1000000000 + tv_nsec t"

text \<open>The two parts are converted to \<^verbatim>\<open>uint64_t\<close> separately; a negative nanosecond part wraps and the sum wraps back.\<close>

lemma elapsed_ns_exact:
  assumes "0 \<le> ns_of t1 - ns_of t0" "ns_of t1 - ns_of t0 < 2 ^ 64"
  shows "uint (elapsed_ns t0 t1) = ns_of t1 - ns_of t0"
proof -
  have "elapsed_ns t0 t1 = word_of_int (ns_of t1 - ns_of t0)"
    by (simp add: elapsed_ns_def ns_of_def algebra_simps)
  moreover have "uint (word_of_int x :: u64) = x" if "0 \<le> x" "x < 2 ^ 64" for x
    using that by (simp add: uint_word_of_int)
  ultimately show ?thesis using assms by metis
qed

subsection \<open>Ratios\<close>

text \<open>A ratio is that of the counters up to its rounding, and a miss rate is a percentage when no more misses than
  instructions were counted.\<close>

lemma ipc_near:
  assumes "p_cycles r > 0"
  shows "\<bar>ipc r - of_int (uint (p_instructions r)) / of_int (uint (p_cycles r))\<bar> \<le>
     of_int (uint (p_instructions r)) / of_int (uint (p_cycles r)) / 2 ^ 51 + 1 / 2 ^ 200"
  unfolding ipc_def using fdiv_near [of "p_cycles r" "p_instructions r"] assms by (simp del: of_int_uint)

lemma fdiv_le_1:
  assumes "a \<le> b" "b \<noteq> 0"
  shows "0 \<le> fdiv_u64 a b \<and> fdiv_u64 a b \<le> 1"
proof -
  have "of_int (uint a) \<le> (of_int (uint b) :: rat)" using assms(1) by (simp only: of_int_le_iff word_le_def)
  then have le: "rnd (of_int (uint a)) \<le> rnd (of_int (uint b))" by (rule rnd_mono)
  have nonneg: "0 \<le> rnd (of_int (uint a))" by (rule rnd_nonneg) (simp only: of_int_0_le_iff uint_ge_0)
  then have "0 \<le> rnd (of_int (uint a)) / rnd (of_int (uint b))" "rnd (of_int (uint a)) / rnd (of_int (uint b)) \<le> 1"
    using le by (auto intro: divide_nonneg_nonneg simp: divide_le_eq_1 simp del: of_int_uint)
  then show ?thesis unfolding fdiv_u64_def using rnd_nonneg rnd_mono [of _ 1] rnd_of_int [of 1] by (simp del: of_int_uint)
qed

lemma l1_miss_rate_percentage:
  assumes "p_l1_misses r \<le> p_instructions r"
  shows "0 \<le> l1_miss_rate r \<and> l1_miss_rate r \<le> 100"
proof (cases "p_instructions r = 0")
  case False
  note f = fdiv_le_1 [OF assms False]
  then have "rnd (fdiv_u64 (p_l1_misses r) (p_instructions r) * 100) \<le> rnd (of_int 100)" by (intro rnd_mono) simp
  then show ?thesis using f rnd_of_int [of 100] rnd_nonneg by (simp add: l1_miss_rate_def)
qed (simp add: l1_miss_rate_def)

subsection \<open>Calls on descriptors\<close>

primrec call_fd :: "KernelCall \<Rightarrow> int" where
  "call_fd (IocReset fd) = fd"
| "call_fd (IocEnable fd) = fd"
| "call_fd (IocDisable fd) = fd"
| "call_fd (CloseFd fd) = fd"

definition enabled :: "KernelCall list \<Rightarrow> int list" where
  "enabled calls = concat (map (\<lambda>c. case c of IocEnable fd \<Rightarrow> [fd] | _ \<Rightarrow> []) calls)"

definition disabled :: "KernelCall list \<Rightarrow> int list" where
  "disabled calls = concat (map (\<lambda>c. case c of IocDisable fd \<Rightarrow> [fd] | _ \<Rightarrow> []) calls)"

text \<open>A scope makes calls on open descriptors only, disables exactly the counters it enabled, and without access to the cycle
  counter measures and prints nothing.\<close>

lemma start_enables: "enabled (concat (map (\<lambda>fd. if fd \<ge> 0 then [IocReset fd, IocEnable fd] else []) fds)) = filter (\<lambda>fd. fd \<ge> 0) fds"
  by (induction fds) (simp_all add: enabled_def)

lemma stop_disables: "disabled (map IocDisable fds @ map CloseFd fds') = fds"
proof -
  have "concat (map (\<lambda>c. case c of IocDisable fd \<Rightarrow> [fd] | _ \<Rightarrow> []) (map CloseFd fds')) = []" by (induction fds') simp_all
  moreover have "concat (map (\<lambda>c. case c of IocDisable fd \<Rightarrow> [fd] | _ \<Rightarrow> []) (map IocDisable fds)) = fds" by (induction fds) simp_all
  ultimately show ?thesis by (simp add: disabled_def)
qed

lemma perf_fds_t0 [simp]: "perf_fds (pc\<lparr>pc_t0 := t\<rparr>) = perf_fds pc" "available (pc\<lparr>pc_t0 := t\<rparr>) = available pc"
  by (simp_all add: perf_fds_def available_def)

lemma scope_balanced:
  assumes "scope_enter open_counter t0 = (calls, pc)" "scope_leave t1 rd pc = (calls', r)"
  shows "disabled calls' = enabled calls \<and> (\<forall>c \<in> set (calls @ calls'). call_fd c \<ge> 0) \<and>
     (r = None \<longleftrightarrow> open_counter CpuCycles < 0) \<and> (\<forall>res. r = Some res \<longrightarrow> p_elapsed_ns res = elapsed_ns t0 t1)"
proof -
  let ?pc = "perf_init open_counter"
  have fds: "available ?pc \<longleftrightarrow> \<not> open_counter CpuCycles < 0" by (auto simp: available_def perf_init_def)
  have enter: "pc = (if available ?pc then ?pc\<lparr>pc_t0 := t0\<rparr> else ?pc)"
    "calls = (if available ?pc then concat (map (\<lambda>fd. if fd \<ge> 0 then [IocReset fd, IocEnable fd] else []) (perf_fds ?pc)) else [])"
    using assms(1) unfolding scope_enter_def Let_def perf_start_def by (cases "available ?pc"; simp)+
  have av: "available pc = available ?pc" unfolding enter(1) by simp
  show ?thesis
  proof (cases "available pc")
    case True
    let ?F = "filter (\<lambda>fd. fd \<ge> 0) (perf_fds pc)"
    have enter: "calls = concat (map (\<lambda>fd. if fd \<ge> 0 then [IocReset fd, IocEnable fd] else []) (perf_fds pc))" "pc_t0 pc = t0"
      using enter True av by simp_all
    have leave: "calls' = map IocDisable ?F @ map CloseFd ?F" "r = Some (snd (perf_stop t1 rd pc))"
      using assms(2) True by (simp_all add: scope_leave_def perf_stop_def perf_close_def)
    have "disabled calls' = enabled calls" unfolding enter(1) leave(1) start_enables stop_disables ..
    moreover have "call_fd c \<ge> 0" if "c \<in> set calls" for c using that unfolding enter(1) by (auto split: if_splits)
    moreover have "call_fd c \<ge> 0" if "c \<in> set calls'" for c using that unfolding leave(1) by auto
    moreover have "p_elapsed_ns (snd (perf_stop t1 rd pc)) = elapsed_ns t0 t1" by (simp add: perf_stop_def enter(2))
    ultimately show ?thesis using fds av True leave(2) by auto
  next
    case False
    then have "calls = []" using enter(2) av by simp
    moreover have "disabled (map CloseFd xs) = []" for xs using stop_disables [of "[]" xs] by simp
    ultimately show ?thesis using assms(2) False fds av by (auto simp: scope_leave_def perf_close_def enabled_def)
  qed
qed

end
