(* ===== verification/Function_Ref.thy ===== *)
theory Function_Ref
  imports Prelude
begin

text \<open>
  \<^verbatim>\<open>function_ref\<close> (\<^verbatim>\<open>util/function_ref.hpp\<close>): an object pointer and a thunk.  It does not own the callable, so the
  callables that are alive are an explicit store from addresses to their captured state, and a call through a null
  thunk or to a dead object is \<open>None\<close>.  The other theories describe a callback by the list of reports it is given; the
  lemmas here justify that for the callbacks of the code, which append to a vector that outlives the book.
\<close>

type_synonym 'f callables = "nat \<rightharpoonup> 'f"

type_synonym ('f, 'a, 'r) thunk = "nat \<Rightarrow> 'a \<Rightarrow> 'f callables \<Rightarrow> ('r \<times> 'f callables) option"

record ('f, 'a, 'r) function_ref =
  fr_obj :: nat
  fr_thunk :: "('f, 'a, 'r) thunk option"

definition fr_default :: "('f, 'a, 'r) function_ref" where
  "fr_default = \<lparr>fr_obj = 0, fr_thunk = None\<rparr>"

text \<open>Binding the callable at \<open>addr\<close>; \<open>invoke\<close> is its call operator, on its captured state.\<close>

definition fr_bind :: "('f \<Rightarrow> 'a \<Rightarrow> 'r \<times> 'f) \<Rightarrow> nat \<Rightarrow> ('f, 'a, 'r) function_ref" where
  "fr_bind invoke addr = \<lparr>fr_obj = addr, fr_thunk = Some (\<lambda>obj a mem. case mem obj of None \<Rightarrow> None
     | Some f \<Rightarrow> (case invoke f a of (r, f') \<Rightarrow> Some (r, mem(obj \<mapsto> f'))))\<rparr>"

definition fr_context :: "nat \<Rightarrow> ('f, 'a, 'r) thunk \<Rightarrow> ('f, 'a, 'r) function_ref" where
  "fr_context ctx fn = \<lparr>fr_obj = ctx, fr_thunk = Some fn\<rparr>"

definition fr_bool :: "('f, 'a, 'r) function_ref \<Rightarrow> bool" where
  "fr_bool fr = (fr_thunk fr \<noteq> None)"

definition fr_call :: "('f, 'a, 'r) function_ref \<Rightarrow> 'a \<Rightarrow> 'f callables \<Rightarrow> ('r \<times> 'f callables) option" where
  "fr_call fr a mem = (case fr_thunk fr of None \<Rightarrow> None | Some t \<Rightarrow> t (fr_obj fr) a mem)"

primrec fr_calls :: "('f, 'a, 'r) function_ref \<Rightarrow> 'a list \<Rightarrow> 'f callables \<Rightarrow> 'f callables option" where
  "fr_calls fr [] mem = Some mem"
| "fr_calls fr (a # as) mem = (case fr_call fr a mem of None \<Rightarrow> None | Some (_, mem') \<Rightarrow> fr_calls fr as mem')"

lemma fr_bool_cases: "\<not> fr_bool fr_default" "fr_bool (fr_bind invoke addr)" "fr_bool (fr_context ctx fn)"
  by (simp_all add: fr_bool_def fr_default_def fr_bind_def fr_context_def)

lemma fr_call_unbound: "\<not> fr_bool fr \<Longrightarrow> fr_call fr a mem = None"
  by (simp add: fr_bool_def fr_call_def)

lemma fr_call_dangling: "mem addr = None \<Longrightarrow> fr_call (fr_bind invoke addr) a mem = None"
  by (simp add: fr_call_def fr_bind_def)

text \<open>While the callable is alive, calls reach it in order and touch nothing else.\<close>

lemma fr_calls_bound:
  "mem addr = Some f \<Longrightarrow> fr_calls (fr_bind invoke addr) as mem = Some (mem(addr \<mapsto> fold (\<lambda>a f. snd (invoke f a)) as f))"
proof (induction as arbitrary: mem f)
  case (Cons a as)
  obtain r f' where i: "invoke f a = (r, f')" by fastforce
  then have "fr_call (fr_bind invoke addr) a mem = Some (r, mem(addr \<mapsto> f'))"
    using Cons.prems by (simp add: fr_call_def fr_bind_def)
  moreover have "fr_calls (fr_bind invoke addr) as (mem(addr \<mapsto> f')) = Some (mem(addr \<mapsto> fold (\<lambda>a f. snd (invoke f a)) as f'))"
    using Cons.IH [of "mem(addr \<mapsto> f')" f'] by (simp only: fun_upd_same fun_upd_upd)
  ultimately show ?case using i by (simp del: fun_upd_apply)
qed (auto simp: fun_upd_idem)

text \<open>A callback that appends its argument to a vector collects what it is called with.\<close>

lemma fr_calls_collect:
  assumes "mem addr = Some fills"
  shows "fr_calls (fr_bind (\<lambda>fills r. ((), fills @ [r])) addr) rpts mem = Some (mem(addr \<mapsto> fills @ rpts))"
proof -
  have "fold (\<lambda>r fills. snd ((), fills @ [r])) rpts fills = fills @ rpts" for fills :: "'a list"
    by (induction rpts arbitrary: fills) simp_all
  then show ?thesis using fr_calls_bound [of mem addr fills "\<lambda>fills r. ((), fills @ [r])" rpts, OF assms] by simp
qed

end
