(* ===== verification/Spec2Isabelle.thy ===== *)
theory Spec2Isabelle
  imports Book_Theorems Spsc_Threads Mpmc_Threads Market_Data Engine_Theorems Execution_Layer Multi_Symbol
    Simulation Latency_Histogram Pool_Allocator Logger Trace_Tool Order_Flow_Replay Naive_Book Bench_Replay Bench_Books Bench_Search
    Perf_Counters Function_Ref Price_Conversion
begin

text \<open>
  \<^bold>\<open>A limit order book engine, verified.\<close>  The program (sources under \<^verbatim>\<open>src/\<close>) takes a binary market data feed, matches
  orders by price and time, and reports executions to a layer that keeps positions.  Around this path it has a logger, a
  latency histogram, a pool allocator, trace recording and replay, a sharded multi-symbol engine, a demo program and
  benchmarks.  This development models these parts from the source and proves what makes them correct.  This root theory
  imports all others and holds the property that spans the whole path.

  \<^bold>\<open>How the parts interact.\<close>  \<^verbatim>\<open>MarketDataIngestion\<close> decodes datagrams into messages and pushes them to an SPSC queue.  The thread of
  \<^verbatim>\<open>MatchingEngine\<close> pops them, calls \<^verbatim>\<open>add_order\<close>, \<^verbatim>\<open>cancel_order\<close> or \<^verbatim>\<open>modify_order\<close> on the \<^verbatim>\<open>OrderBook\<close> of the symbol, and its callback
  pushes a report per fill to a second SPSC queue, from which \<^verbatim>\<open>ExecutionLayer\<close>, the demo or a replay polls.  A book keeps its
  orders in the arrays of a slot pool, threaded into a doubly linked queue per price level, with sorted level arrays per
  side and an open-addressed index from order ids to slots.

  \<^bold>\<open>Conventions.\<close>  Machine integers are words of their width (\<open>u8\<close> to \<open>u64\<close>), with wrap-around where the code has it; prices, which are
  \<^verbatim>\<open>int64_t\<close>, are integers, and the theorems that move them through bytes or multiply them state the range (signed
  overflow is undefined, and the execution layer returns it as an error value).  Fixed-size arrays are functions on indices, so
  uninitialised memory is an arbitrary argument \<open>raw\<close> of constructors.  A loop whose end is not evident is a
  \<open>partial_function (option)\<close>, where \<open>None\<close> means that it does not return; that it returns is then proved, never assumed.  There is no
  fuel.  Threads are step relations on shared state, one access of a shared variable per step for the queues (the
  acquire/release pairs of the sources make the indices behave sequentially consistently; that reduction is taken for granted),
  and one call per step for the engine, the shards, the logger and the demo.  Random generators, clocks and the answers of system calls are
  arguments.  A \<^verbatim>\<open>double\<close> is the rational number it stands for, and every operation rounds to nearest even at 53 bits; the Release build
  lets the compiler fuse a product and a sum, so whether it does is an argument \<open>fused\<close> of the definitions with such an expression, and
  the theorems hold for both.  A conversion to an integer type outside its range is undefined and is \<open>None\<close>.

  \<^bold>\<open>Theories and sources.\<close>
  \<^item> \<open>Prelude\<close>: types of words and arrays, shared lemmas.  \<open>Engine_Types\<close>: \<^verbatim>\<open>core/types.hpp\<close>; an enum read from bytes may hold a value
    without enumerator, which has its own constructor.  \<open>Byte_Codec\<close>: little-endian fields and files of records.
    \<open>Binary64\<close>: rounding, its error bounds and monotonicity.  \<open>Price_Conversion\<close>: \<^verbatim>\<open>to_price\<close> and \<^verbatim>\<open>from_price\<close> of \<^verbatim>\<open>core/types.hpp\<close>.
  \<^item> \<open>Intrusive_List\<close>, \<open>Slot_Pool\<close>, \<open>Order_Index\<close>, \<open>Book_Side\<close>, \<open>Order_Book\<close>: \<^verbatim>\<open>core/order_book.hpp\<close> and \<^verbatim>\<open>core/order_book.cpp\<close>, function by
    function.  \<open>Slot_Pool\<close> has the locale \<open>free_list_pool\<close>, interpreted for the slots and for the pool allocator; \<open>Order_Index\<close> the
    locale \<open>location_map\<close> for the index.
  \<^item> \<open>Ref_Book\<close>, \<open>Ref_Laws\<close>: the abstract book, two sorted lists of price levels with queues of orders, and its laws (conservation,
    priority, self-trade prevention, fill-or-kill).  \<open>Book_Rep\<close>, \<open>Book_Match\<close>, \<open>Book_Rest\<close>, \<open>Book_Add\<close>, \<open>Book_Cancel\<close>: representation
    invariant and the simulation of each operation.  \<open>Book_Run\<close>: the locale \<open>matching_book\<close>, what a client of the book relies on, with its
    interpretation for the arrays.  \<open>Book_Theorems\<close>: the properties of the book.
  \<^item> \<open>Fifo\<close>: the locale \<open>bounded_fifo\<close>.  \<open>Spsc_Queue\<close>, \<open>Spsc_Threads\<close>: \<^verbatim>\<open>core/spsc_queue.hpp\<close>, one call at a time (which interprets the locale) and
    interleaved.  \<open>Mpmc_Queue\<close>, \<open>Mpmc_Threads\<close>: \<^verbatim>\<open>core/mpmc_queue.hpp\<close>.
  \<^item> \<open>Market_Data\<close>: \<^verbatim>\<open>core/market_data.hpp\<close> and \<^verbatim>\<open>.cpp\<close>.  \<open>Matching_Engine\<close>, \<open>Engine_Theorems\<close>: \<^verbatim>\<open>core/matching_engine.hpp\<close> and \<^verbatim>\<open>.cpp\<close>, with the
    reference engine, a book per symbol.  \<open>Execution_Layer\<close>: \<^verbatim>\<open>core/execution_layer.hpp\<close> and \<^verbatim>\<open>.cpp\<close>.
  \<^item> \<open>Multi_Symbol\<close>: \<^verbatim>\<open>core/multi_symbol_engine.hpp\<close>; the locale \<open>shard_members\<close> is what the template needs of the queue and engine members it
    calls, which those classes do not declare.
  \<^item> \<open>Latency_Histogram\<close>: \<^verbatim>\<open>util/histogram.hpp\<close>.  \<open>Pool_Allocator\<close>: \<^verbatim>\<open>util/allocator.hpp\<close>.  \<open>Logger\<close>: \<^verbatim>\<open>util/logger.hpp\<close> and \<^verbatim>\<open>.cpp\<close>.
    \<open>Perf_Counters\<close>: \<^verbatim>\<open>util/perf_counters.hpp\<close>.  \<open>Function_Ref\<close>: \<^verbatim>\<open>util/function_ref.hpp\<close>.
  \<^item> \<open>Id_Source\<close>: the locale \<open>id_source\<close> of generators that number their orders, interpreted for the trace tool and the shard benchmark.
    \<open>Trace_Tool\<close>: \<^verbatim>\<open>tools/replay_trace.cpp\<close>.  \<open>Order_Flow_Replay\<close>: \<^verbatim>\<open>core/replay.hpp\<close>.  \<open>Simulation\<close>: \<^verbatim>\<open>main.cpp\<close>.
  \<^item> \<open>Naive_Book\<close>, \<open>Bench_Replay\<close>: \<^verbatim>\<open>bench/bench_replay.cpp\<close>.  \<open>Bench_Books\<close>: \<^verbatim>\<open>bench/bench_multisymbol.cpp\<close>, \<^verbatim>\<open>bench_latency.cpp\<close>,
    \<^verbatim>\<open>bench_throughput.cpp\<close>.  \<open>Bench_Search\<close>: \<^verbatim>\<open>bench/bench_avx2.cpp\<close>, \<^verbatim>\<open>bench_cache.cpp\<close>.

  \<^bold>\<open>What is shown.\<close>
  \<^item> Book (C1 to C15): every operation returns and does what the reference book does, answers, fills, counters and queue positions included;
    every reachable book is well formed, sorted and not crossed even when ids are reused; quotes and depth, conservation, price-time
    priority, fill-or-kill, rejection and self-trade prevention; the AVX2 search is the scalar search; the index is a map.
  \<^item> The benchmark's own map-and-deque book agrees with the engine's book (C16); the generated trace is a well-formed feed, but almost half
    of its prices are undefined conversions, and the baseline misreads it (C17).
  \<^item> Prices (C33): the round trip through \<^verbatim>\<open>double\<close> loses at most a millionth, nothing around the traded prices, and both
    conversions keep the order.
  \<^item> Queues (C18, C34): no item is lost, duplicated, reordered or invented, under every interleaving.
  \<^item> Feed (C19, C20, C40): encoded messages arrive unchanged, the bytes of a datagram decide its outcome, the overrun of a payload
    included, decoded messages are well typed.
  \<^item> Engine (C21 to C23) and shards (C35, C36): under every interleaving of submitting, polling, stopping and the engine loop, books and
    fills are those of the reference engine; shutdown drains; symbols do not influence each other when orders carry their own ids;
    where messages are routed.
  \<^item> Positions (C24, C25), histogram with the rounding of its ranks (C26, C27), allocator (C28), logger (C37), trace files and replay (C29 to C32), the demo with its
    prices (C38), and the whole path from datagrams to positions (C39).
  \<^item> Without a property of their own: the MPMC queue used by one thread at a time is a bounded FIFO; the shard, latency and throughput benchmarks issue no order id twice and therefore compute what the reference
    book or engine computes; their prices are cents or a millionth below; the search benchmarks' layouts and searches agree, their check
    passes and their samples do not wrap; the replay benchmark adds its counts to uninitialised memory; a performance scope
    disables exactly the counters it enabled, its elapsed time is exact and its ratios are those of the counters up to rounding; calls through a bound reference reach a live callable in order.

  \<^bold>\<open>Bounds.\<close>  The refinement of the book asks that an id is not used for a new order while an order with it rests (the index cannot hold
  it twice); well-formedness does not.  The MPMC theorem covers \<open>2 ^ 63\<close> positions, the range in which the signed difference of the code
  decides correctly.  The price round trip covers prices below \<open>2 ^ 51\<close> millionths, and percentiles up to \<open>2 ^ 52\<close> recordings, where counts are
  exact in a \<^verbatim>\<open>double\<close>.  The theorems on realized profit bound prices, quantities and the number of reports so that products and sums stay in 64 bits.  Histogram buckets bound
  a latency to a tenth below a millisecond and not above.  The trace tool ends with an exception when asked for more events than a vector can hold.  The
  demo, the tool and the benchmarks draw fewer than \<open>2 ^ 64\<close> numbers or events, the range of their id counters.  The path of C39 is bounded by
  the capacity of the two queues.

  \<^bold>\<open>Not modelled.\<close>  Infinities and NaN, which no expression of the sources reaches with the divisors it can meet.  Formatted output: of the
  printing functions the values are modelled, not the text.  Operating system calls: affinity, scheduling, memory mapping and pinning, signals
  as such, clocks.  The weak memory model below the interleavings.  Running out of memory, and
  failing writes.  Padding bytes, which are taken as zero where records are compared bytewise.  The constructors' compile-time checks.  The fuzz harness
  (\<^verbatim>\<open>fuzz/fuzz_market_data.cpp\<close>), which passes a queue of the wrong type and does not compile; the components it
  drives are covered by C5 and C20.  The second replay of the replay benchmark into the same engine, which reuses ids of
  resting orders, is outside the refinement and inside the well-formedness theorem.
\<close>

subsection \<open>From datagrams to positions\<close>

lemma depths: "md_kQueueDepth = me_kQueueDepth" "el_kQueueDepth = me_kQueueDepth"
  by (simp_all add: md_kQueueDepth_def me_kQueueDepth_def el_kQueueDepth_def)

abbreviation booted :: "SymbolId list \<Rightarrow> OrderBook \<Rightarrow> MarketDataMsg SPSCQueue \<Rightarrow> ExecutionReport SPSCQueue \<Rightarrow> MatchingEngine" where
  "booted syms raw inq outq \<equiv> er_engine (run_start syms raw inq outq)"

lemma fills_within:
  assumes "map report_fill rs = fs" "\<forall>f \<in> set fs. \<bar>f_px f\<bar> \<le> P \<and> uint (f_qty f) \<le> Q"
  shows "\<forall>r \<in> set rs. report_within P Q r"
  using assms by (auto simp: report_within_def report_fill_def)

text \<open>C39. The whole path.  Messages of a feed, encoded in the wire format and ingested into the inbound queue
  of a new engine, are processed by the engine, and the reports polled by the execution layer: every
  datagram is accepted, the books are those of the reference engine, every fill of the reference
  engine reaches the execution layer as a report, in order, and the positions are the signed sums of
  these reports.  The bounds are the capacity of the queues and the range in which P&L products stay
  in 64 bits.\<close>

theorem feed_to_positions:
  assumes "\<forall>m \<in> set ms. wire_msg m" "length ms \<le> 65535" "msgs_fresh ms (ref_boot syms)"
    "ref_messages ms (ref_boot syms) = (re, fs)" "length fs \<le> 65535" "fits P Q (length fs)"
    "\<forall>f \<in> set fs. \<bar>f_px f\<bar> \<le> P \<and> uint (f_qty f) \<le> Q"
  shows "\<exists>mi me el rs. ingest_all (map (wire_encode v) ms) (on_gap True (new_ingestion (me_inbound (booted syms raw inq outq)))) =
       Inr (int (length ms), mi) \<and>
     drain_inbound ((booted syms raw inq outq)\<lparr>me_inbound := mi_outbound mi\<rparr>) = Some me \<and> abs_engine me = re \<and>
     poll 65536 (on_fill True (new_layer (me_outbound me))) = Inr (int (length fs), el) \<and>
     map fst (el_fill_calls el) = rs \<and> map report_fill rs = fs \<and>
     (\<forall>sid. case get_position sid el of None \<Rightarrow> own sid rs = []
       | Some p \<Rightarrow> p_net_qty p = (\<Sum>r \<leftarrow> own sid rs. side_sign (r_side r) * uint (r_exec_qty r)) \<and> p_total_fills p = of_nat (length (own sid rs)))"
proof -
  let ?e = "booted syms raw inq outq"
  note start = run_start_ok [of syms raw inq outq]
  have gap: "mi_outbound (on_gap True (new_ingestion (me_inbound ?e))) = me_inbound ?e" by (simp add: on_gap_def new_ingestion_def)
  obtain mi where mi: "ingest_all (map (wire_encode v) ms) (on_gap True (new_ingestion (me_inbound ?e))) = Inr (int (length ms), mi)"
    "spsc_holds me_kQueueDepth (mi_outbound mi) ms"
    using feed_delivers_aux [OF assms(1), of "on_gap True (new_ingestion (me_inbound ?e))" "[]" v] start assms(2)
    unfolding depths gap by auto
  let ?e1 = "?e\<lparr>me_inbound := mi_outbound mi\<rparr>"
  have "engine_inv True ?e1" "spsc_holds me_kQueueDepth (me_inbound ?e1) ms" "spsc_holds me_kQueueDepth (me_outbound ?e1) []"
    "abs_engine ?e1 = ref_boot syms" using start mi(2) by simp_all
  from drain_inbound_result [OF this(1-3)] this(4)
  obtain me rs where me: "drain_inbound ?e1 = Some me" "spsc_holds me_kQueueDepth (me_outbound me) (take 65535 rs)"
    "abs_engine me = re" "map report_fill rs = fs"
    using assms(3,4) unfolding drained_def by auto
  have len: "length rs = length fs" using me(4) by auto
  then have q: "spsc_holds el_kQueueDepth (me_outbound me) rs" "rs = take (nat 65536) rs" using me(2) assms(5) unfolding depths by simp_all
  from poll_positions [OF this, of P Q] fills_within [OF me(4) assms(7)] assms(6) len
  obtain el where el: "poll 65536 (on_fill True (new_layer (me_outbound me))) = Inr (int (length fs), el)" "map fst (el_fill_calls el) = rs"
    "\<forall>sid. case get_position sid el of None \<Rightarrow> own sid rs = []
       | Some p \<Rightarrow> own sid rs \<noteq> [] \<and> p_symbol p = sid \<and> p_net_qty p = sum_list (map signed_qty (own sid rs)) \<and>
           p_total_fills p = of_nat (length (own sid rs))"
    by auto
  have "case get_position sid el of None \<Rightarrow> own sid rs = []
       | Some p \<Rightarrow> p_net_qty p = sum_list (map signed_qty (own sid rs)) \<and> p_total_fills p = of_nat (length (own sid rs))" for sid
    using el(3) [rule_format, of sid] by (auto split: option.splits)
  then show ?thesis using mi(1) me(1,3,4) el(1,2) unfolding signed_qty_fun by blast
qed

theorem feed_to_positions_witness:
  "\<exists>mi me el. ingest_all (map (wire_encode 1) sample_msgs) (on_gap True (new_ingestion (me_inbound (booted [7] blank_book blank_in blank_out)))) =
       Inr (2, mi) \<and>
     drain_inbound ((booted [7] blank_book blank_in blank_out)\<lparr>me_inbound := mi_outbound mi\<rparr>) = Some me \<and>
     poll 65536 (on_fill True (new_layer (me_outbound me))) = Inr (1, el) \<and>
     map (report_fill \<circ> fst) (el_fill_calls el) = [\<lparr>f_aggr = 1, f_passive = 3, f_px = 100, f_qty = 4\<rparr>]"
proof -
  have w: "\<forall>m \<in> set sample_msgs. wire_msg m" "length sample_msgs = 2"
    by (simp_all add: sample_msgs_def sample_msg_def wire_msg_def in_int64_def)
  have "fits 100 10 1" by (simp add: fits_def)
  then show ?thesis
    using feed_to_positions [OF w(1) _ sample_msgs_fresh sample_msgs_run, of 100 10 1 blank_book blank_in blank_out] w(2) by auto
qed

end
